(* ===== verification/Rsync_Prelude.thy ===== *)
theory Rsync_Prelude
  imports Main "HOL-Library.Word"
begin

unbundle bit_operations_syntax

text \<open>
  Shared vocabulary of the development: Go's machine integers and byte strings, the error
  values the code returns, the byte source an \<^verbatim>\<open>io.Reader\<close> stands for together with
  \<^verbatim>\<open>io.ReadFull\<close>, the state-and-error computations the readers are written in,
  \<^verbatim>\<open>encoding/binary\<close>'s little-endian conversions, and the two interfaces every codec of
  the wire protocol is proved against (\<open>codec\<close> for stateless codecs, \<open>stream_codec\<close>
  for codecs that carry delta-encoding state on both sides).
\<close>

section \<open>Types\<close>

type_synonym byte = "8 word"
type_synonym u16 = "16 word"
type_synonym u32 = "32 word"
type_synonym i32 = "32 word"   \<comment> \<open>\<^verbatim>\<open>int32\<close>: read with \<open>sint\<close>\<close>
type_synonym u64 = "64 word"
type_synonym i64 = "64 word"   \<comment> \<open>\<^verbatim>\<open>int64\<close>: read with \<open>sint\<close>\<close>
type_synonym gostring = "byte list"

text \<open>A Go string is a byte sequence; \<open>str\<close> turns a literal into one.\<close>

definition str :: "string \<Rightarrow> gostring" where
  "str s = map of_char s"

text \<open>
  The errors of the code. \<open>Errorf\<close> is \<^verbatim>\<open>fmt.Errorf\<close>/\<^verbatim>\<open>errors.New\<close> named by the
  fixed part of its text, \<open>ErrorMsg\<close> an error whose text comes from the wire,
  \<open>Wrap\<close> a \<^verbatim>\<open>%w\<close> wrapper, \<open>Panic\<close> a Go runtime panic (an index or slice out of
  range).
\<close>

datatype go_error =
    EOF
  | ErrUnexpectedEOF
  | ErrShortWrite
  | ErrPayloadTooLarge
  | ErrClosedPipe
  | UnexpectedMsg byte
  | Errorf string
  | ErrorMsg gostring
  | Wrap string go_error
  | Panic string

fun is_panic :: "go_error \<Rightarrow> bool" where
  "is_panic (Panic _) = True"
| "is_panic (Wrap _ e) = is_panic e"
| "is_panic _ = False"

text \<open>\<^verbatim>\<open>errors.Is(err, target)\<close> looks through the wrappers.\<close>

fun errors_Is :: "go_error \<Rightarrow> go_error \<Rightarrow> bool" where
  "errors_Is (Wrap m e) t = (Wrap m e = t \<or> errors_Is e t)"
| "errors_Is e t = (e = t)"

section \<open>Computations with state and errors\<close>

text \<open>
  A computation on a state: an error leaves the state it has reached behind, as a Go
  function that returns an error after it consumed some input does.
\<close>

type_synonym ('s, 'a) io = "'s \<Rightarrow> (go_error + 'a) \<times> 's"

definition ret :: "'a \<Rightarrow> ('s, 'a) io" where
  "ret x s = (Inr x, s)"

definition fail :: "go_error \<Rightarrow> ('s, 'a) io" where
  "fail e s = (Inl e, s)"

definition bnd :: "('s, 'a) io \<Rightarrow> ('a \<Rightarrow> ('s, 'b) io) \<Rightarrow> ('s, 'b) io" where
  "bnd m f s = (case m s of (Inl e, s') \<Rightarrow> (Inl e, s') | (Inr x, s') \<Rightarrow> f x s')"

text \<open>\<^verbatim>\<open>fmt.Errorf("...: %w", err)\<close> around every error of a call.\<close>

definition wrapping :: "string \<Rightarrow> ('s, 'a) io \<Rightarrow> ('s, 'a) io" where
  "wrapping msg m s = (case m s of (Inl e, s') \<Rightarrow> (Inl (Wrap msg e), s') | (Inr x, s') \<Rightarrow> (Inr x, s'))"

named_theorems io_simps "evaluation of state-and-error computations"
named_theorems codec_simps "a decoder applied to what its encoder wrote"

lemma ret_app [simp, io_simps]: "ret x s = (Inr x, s)"
  by (simp add: ret_def)

lemma fail_app [simp, io_simps]: "fail e s = (Inl e, s)"
  by (simp add: fail_def)

lemma bnd_Inr [io_simps]: "m s = (Inr x, s') \<Longrightarrow> bnd m f s = f x s'"
  by (simp add: bnd_def)

lemma bnd_Inl [io_simps]: "m s = (Inl e, s') \<Longrightarrow> bnd m f s = (Inl e, s')"
  by (simp add: bnd_def)

lemma bnd_ret [simp]: "bnd (ret x) f = f x"
  by (simp add: bnd_def fun_eq_iff)

lemma bnd_fail [simp]: "bnd (fail e) f = fail e"
  by (simp add: bnd_def fun_eq_iff)

lemma bnd_assoc: "bnd (bnd m f) g = bnd m (\<lambda>x. bnd (f x) g)"
  by (auto simp: bnd_def fun_eq_iff split: prod.splits sum.splits)

text \<open>What a successful or failing sequence says of its parts.\<close>

lemma bnd_Inr_iff:
  "bnd m f s = (Inr y, s') \<longleftrightarrow> (\<exists>x t. m s = (Inr x, t) \<and> f x t = (Inr y, s'))"
  by (auto simp: bnd_def split: prod.splits sum.splits)

lemma bnd_Inl_iff:
  "bnd m f s = (Inl e, s') \<longleftrightarrow>
     m s = (Inl e, s') \<or> (\<exists>x t. m s = (Inr x, t) \<and> f x t = (Inl e, s'))"
  by (auto simp: bnd_def split: prod.splits sum.splits)

lemma wrapping_Inr [io_simps]: "m s = (Inr x, s') \<Longrightarrow> wrapping msg m s = (Inr x, s')"
  by (simp add: wrapping_def)

lemma wrapping_Inl [io_simps]: "m s = (Inl e, s') \<Longrightarrow> wrapping msg m s = (Inl (Wrap msg e), s')"
  by (simp add: wrapping_def)

section \<open>Byte sources and \<^verbatim>\<open>io.ReadFull\<close>\<close>

text \<open>
  An \<^verbatim>\<open>io.Reader\<close> seen through \<^verbatim>\<open>io.ReadFull\<close>: the bytes it will deliver and the
  error it reports when they are used up (\<open>EOF\<close> for a closed connection; a multiplexed
  reader may also stop at a control frame).
\<close>

datatype src = Src (avail: "byte list") (fin: go_error)

text \<open>
  \<^verbatim>\<open>io.ReadFull(r, buf)\<close> with \<^verbatim>\<open>len(buf) = n\<close>: all \<open>n\<close> bytes, or the source's own
  error when not one byte came, and \<^verbatim>\<open>io.ErrUnexpectedEOF\<close> in place of \<^verbatim>\<open>io.EOF\<close> when
  some came.
\<close>

fun readFull :: "nat \<Rightarrow> (src, byte list) io" where
  "readFull n (Src bs e) =
     (if n \<le> length bs then (Inr (take n bs), Src (drop n bs) e)
      else if bs = [] then (Inl e, Src [] e)
      else (Inl (if e = EOF then ErrUnexpectedEOF else e), Src [] e))"

lemma readFull_append [codec_simps]:
  "n = length bs \<Longrightarrow> readFull n (Src (bs @ rest) e) = (Inr bs, Src rest e)"
  by simp

lemma readFull_zero [simp]: "readFull 0 s = (Inr [], s)"
  by (cases s) simp

lemma readFull_InrD: "readFull n s = (Inr d, s') \<Longrightarrow> length d = n \<and> avail s = d @ avail s' \<and> fin s' = fin s"
  by (cases s) (auto split: if_splits)

lemma readFull_InlD: "readFull n s = (Inl x, s') \<Longrightarrow> avail s' = [] \<and> fin s' = fin s \<and> length (avail s) < n"
  by (cases s) (auto split: if_splits)

lemma readFull_no_panic:
  "readFull n s = (Inl x, s') \<Longrightarrow> \<not> is_panic (fin s) \<Longrightarrow> \<not> is_panic x"
  by (cases s) (auto split: if_splits)

text \<open>\<^verbatim>\<open>readOne\<close>/\<^verbatim>\<open>readByte\<close>: one byte through \<^verbatim>\<open>io.ReadFull\<close>.\<close>

definition readByte :: "(src, byte) io" where
  "readByte = bnd (readFull 1) (\<lambda>b. ret (b ! 0))"

lemma readByte_Cons [simp, codec_simps]: "readByte (Src (b # rest) e) = (Inr b, Src rest e)"
  by (simp add: readByte_def bnd_def)

lemma readByte_Nil [simp]: "readByte (Src [] e) = (Inl e, Src [] e)"
  by (simp add: readByte_def bnd_def)

section \<open>Little-endian conversions\<close>

text \<open>
  \<^verbatim>\<open>binary.LittleEndian.PutUint16/32/64\<close> write the low \<open>n\<close> bytes of a word, least
  significant first; \<^verbatim>\<open>Uint16/32/64\<close> read them back.
\<close>

fun le_bytes :: "nat \<Rightarrow> 'a::len word \<Rightarrow> byte list" where
  "le_bytes 0 w = []"
| "le_bytes (Suc n) w = ucast w # le_bytes n (drop_bit 8 w)"

fun le_word :: "byte list \<Rightarrow> 'a::len word" where
  "le_word [] = 0"
| "le_word (b # bs) = ucast b OR push_bit 8 (le_word bs)"

lemma length_le_bytes [simp]: "length (le_bytes n w) = n"
  by (induction n arbitrary: w) auto

lemma le_word_le_bytes: "le_word (le_bytes n w) = take_bit (8 * n) w"
proof (induction n arbitrary: w)
  case 0
  then show ?case by simp
next
  case (Suc n)
  have "ucast (ucast w :: byte) OR push_bit 8 (take_bit (8 * n) (drop_bit 8 w)) = take_bit (8 * Suc n) w"
    by (rule bit_eqI) (auto simp: bit_simps)
  then show ?case by (simp add: Suc)
qed

lemma take_bit_full [simp]: "LENGTH('a::len) \<le> n \<Longrightarrow> take_bit n (w :: 'a word) = w"
  by (rule bit_eqI) (auto simp: bit_simps dest: bit_imp_le_length)

lemma le_word_bytes_16 [simp]: "le_word (le_bytes 2 w) = (w :: u16)"
  by (simp add: le_word_le_bytes)

lemma le_word_bytes_32 [simp]: "le_word (le_bytes 4 w) = (w :: u32)"
  by (simp add: le_word_le_bytes)

lemma le_word_bytes_64 [simp]: "le_word (le_bytes 8 w) = (w :: u64)"
  by (simp add: le_word_le_bytes)

lemma bit_le_word_beyond: "8 * length bs \<le> i \<Longrightarrow> \<not> bit (le_word bs :: 'a::len word) i"
proof (induction bs arbitrary: i)
  case Nil
  then show ?case by simp
next
  case (Cons b bs)
  then have "\<not> bit (le_word bs :: 'a word) (i - 8)" by simp
  moreover from Cons.prems have "\<not> bit b i" by (auto dest: bit_imp_le_length)
  ultimately show ?case by (auto simp: bit_simps)
qed

lemma le_bytes_le_word:
  "8 * length bs \<le> LENGTH('a::len) \<Longrightarrow> le_bytes (length bs) (le_word bs :: 'a word) = bs"
proof (induction bs)
  case Nil
  then show ?case by simp
next
  case (Cons b bs)
  let ?w = "le_word bs :: 'a word"
  have "bit (ucast (ucast b OR push_bit 8 ?w) :: byte) i \<longleftrightarrow> bit b i" for i
    using Cons.prems by (auto simp: bit_simps dest: bit_imp_le_length)
  then have "ucast (ucast b OR push_bit 8 ?w) = b"
    by (intro bit_eqI) simp
  moreover have "drop_bit 8 (ucast b OR push_bit 8 ?w) = ?w"
  proof (rule bit_word_eqI)
    fix i assume "i < LENGTH('a)"
    show "bit (drop_bit 8 (ucast b OR push_bit 8 ?w)) i \<longleftrightarrow> bit ?w i"
    proof (cases "8 + i < LENGTH('a)")
      case True
      then show ?thesis by (auto simp: bit_simps dest: bit_imp_le_length)
    next
      case False
      with Cons.prems have "\<not> bit ?w i" by (intro bit_le_word_beyond) simp
      with False show ?thesis by (auto simp: bit_simps dest: bit_imp_le_length)
    qed
  qed
  ultimately show ?case
    using Cons.IH Cons.prems by simp
qed

section \<open>Bytes and buffers\<close>

lemma byte_and_255: "(c :: byte) AND 255 = c"
proof -
  have "(255 :: byte) = -1" by simp
  then show ?thesis by (simp only: and.right_neutral)
qed

lemma pad_update: "n = length xs \<Longrightarrow> 0 < k \<Longrightarrow> (xs @ replicate k z)[n := v] = xs @ v # replicate (k - 1) z"
  by (cases k) (simp_all add: list_update_append)

section \<open>Signed readings and small values\<close>

lemma sint_nonneg_uint:
  assumes "0 \<le> sint (n :: 'a::len word)"
  shows "sint n = uint n"
proof -
  have "sint n < 2 ^ LENGTH('a)"
    using sint_lt [of n] by (rule less_le_trans) simp
  with assms show ?thesis
    by (simp add: uint_sint take_bit_int_eq_self)
qed

lemma sint_pos: "w \<noteq> 0 \<Longrightarrow> \<not> sint w < 0 \<Longrightarrow> 0 < sint w"
  by (metis linorder_neqE_linordered_idom signed_eq_0_iff)

lemma nonneg_iff_bit: "0 \<le> sint (n :: 'a::len word) \<longleftrightarrow> \<not> bit n (LENGTH('a) - 1)"
  using bit_last_iff [of n] by (simp add: not_less)

lemma nonneg_shift:
  assumes "0 \<le> sint (n :: i32)"
  shows "signed_drop_bit k n = drop_bit k n"
  using assms by (intro bit_word_eqI) (auto simp: bit_simps nonneg_iff_bit not_less le_less_Suc_eq dest: bit_imp_le_length)

lemma nonneg_le: "0 \<le> sint (n :: i32) \<longleftrightarrow> n \<le> 2147483647"
proof
  assume "0 \<le> sint n"
  then show "n \<le> 2147483647"
    using sint_nonneg_uint [of n] sint_lt [of n] by (simp add: word_le_def)
next
  assume "n \<le> 2147483647"
  then have "uint n < 2 ^ 31" by (simp add: word_le_def)
  moreover have "- (2 ^ 31) \<le> uint n" by (rule order_trans [of _ 0]) simp_all
  ultimately have "sint n = uint n" by (simp add: sint_uint signed_take_bit_int_eq_self)
  then show "0 \<le> sint n" by simp
qed

lemma unat_sint: "0 \<le> sint (n :: 'a::len word) \<Longrightarrow> int (unat n) = sint n"
  by (simp add: sint_nonneg_uint)

lemma ucast_small:
  assumes "unat (n :: i32) < 256"
  shows "ucast (ucast n :: byte) = n" and "unat (ucast n :: byte) = unat n"
proof -
  show u: "unat (ucast n :: byte) = unat n"
    using assms by (simp add: unsigned_ucast_eq take_bit_nat_eq_self)
  show "ucast (ucast n :: byte) = n"
    by (rule word_unat_eq_iff [THEN iffD2]) (use assms in \<open>simp add: unsigned_ucast_eq unsigned_take_bit_eq take_bit_nat_eq_self\<close>)
qed

lemma bit_high: "unat (n :: i32) < 2 ^ k \<Longrightarrow> k \<le> i \<Longrightarrow> \<not> bit n i"
  by (metis bit_take_bit_iff linorder_not_le take_bit_nat_eq_self unsigned_take_bit_eq word_unat_eq_iff)

lemma bit_128: "bit (0x80 :: int) i \<longleftrightarrow> i = 7"
  using bit_exp_iff [of 7 i, where 'a = int] by simp

section \<open>Interfaces of the wire codecs\<close>

text \<open>
  \<open>reads m bs x\<close>: on a source that starts with \<open>bs\<close>, the reader \<open>m\<close> returns \<open>x\<close> and stops
  right behind \<open>bs\<close>. The statement composes along \<open>bnd\<close>, which is how the round trips of
  the larger formats are put together from those of their fields.
\<close>

definition reads :: "(src, 'a) io \<Rightarrow> byte list \<Rightarrow> 'a \<Rightarrow> bool" where
  "reads m bs x \<longleftrightarrow> (\<forall>rest e. m (Src (bs @ rest) e) = (Inr x, Src rest e))"

named_theorems reads_intros "what a reader returns on the bytes a writer produced"

lemma readsI: "(\<And>rest e. m (Src (bs @ rest) e) = (Inr x, Src rest e)) \<Longrightarrow> reads m bs x"
  by (simp add: reads_def)

lemma readsD: "reads m bs x \<Longrightarrow> m (Src (bs @ rest) e) = (Inr x, Src rest e)"
  by (simp add: reads_def)

lemma readsD_end: "reads m bs x \<Longrightarrow> m (Src bs e) = (Inr x, Src [] e)"
  using readsD [of m bs x "[]"] by simp

lemma reads_bnd [reads_intros]: "reads m b1 x \<Longrightarrow> reads (f x) b2 y \<Longrightarrow> reads (bnd m f) (b1 @ b2) y"
  by (simp add: reads_def bnd_def)

lemma reads_bnd_last: "reads m bs x \<Longrightarrow> reads (f x) [] y \<Longrightarrow> reads (bnd m f) bs y"
  using reads_bnd [of m bs x f "[]" y] by simp

lemma reads_ret [reads_intros]: "reads (ret x) [] x"
  by (simp add: reads_def)

lemma reads_readFull [reads_intros]: "n = length bs \<Longrightarrow> reads (readFull n) bs bs"
  by (simp add: reads_def)

lemma reads_readByte [reads_intros]: "reads readByte [b] b"
  by (simp add: reads_def)

lemma reads_if: "(P \<Longrightarrow> reads m a x) \<Longrightarrow> (\<not> P \<Longrightarrow> reads m' b x) \<Longrightarrow>
  reads (if P then m else m') (if P then a else b) x"
  by simp

lemma reads_wrapping [reads_intros]: "reads m bs x \<Longrightarrow> reads (wrapping msg m) bs x"
  by (simp add: reads_def wrapping_def)

lemma reads_unique: "reads m bs x \<Longrightarrow> reads m bs y \<Longrightarrow> x = y"
  by (metis Pair_inject readsD_end sum.inject(2))

text \<open>Repeated reads: \<open>n\<close> values in a row, the first error ending the run.\<close>

fun readN :: "nat \<Rightarrow> (src, 'a) io \<Rightarrow> (src, 'a list) io" where
  "readN 0 m = ret []"
| "readN (Suc n) m = bnd m (\<lambda>x. bnd (readN n m) (\<lambda>xs. ret (x # xs)))"

text \<open>
  The contract of a stateless codec: the decoder, run on what the encoder wrote for an
  admissible value, returns that value and stops exactly where the encoding stops.
\<close>

locale codec =
  fixes enc :: "'a \<Rightarrow> byte list"
    and dec :: "(src, 'a) io"
    and ok :: "'a \<Rightarrow> bool"
  assumes dec_enc: "ok x \<Longrightarrow> dec (Src (enc x @ rest) e) = (Inr x, Src rest e)"
begin

lemma reads_enc: "ok x \<Longrightarrow> reads dec (enc x) x"
  by (simp add: reads_def dec_enc)

lemma dec_enc_end: "ok x \<Longrightarrow> dec (Src (enc x) e) = (Inr x, Src [] e)"
  using dec_enc [of x "[]"] by simp

lemma prefix_free:
  assumes "ok x" and "ok y" and "enc x @ r = enc y @ r'"
  shows "x = y \<and> r = r'"
proof -
  have "dec (Src (enc x @ r) EOF) = dec (Src (enc y @ r') EOF)"
    using assms(3) by simp
  then show ?thesis
    using dec_enc [OF assms(1)] dec_enc [OF assms(2)] by simp
qed

lemma enc_inj: "ok x \<Longrightarrow> ok y \<Longrightarrow> enc x = enc y \<Longrightarrow> x = y"
  using prefix_free [of x y "[]" "[]"] by simp

lemma dec_run:
  "\<forall>x\<in>set xs. ok x \<Longrightarrow>
   readN (length xs) dec (Src (concat (map enc xs) @ rest) e) = (Inr xs, Src rest e)"
proof (induction xs)
  case Nil
  then show ?case by simp
next
  case (Cons x xs)
  then show ?case
    using dec_enc [of x "concat (map enc xs) @ rest" e] by (simp add: bnd_def)
qed

end

text \<open>
  A reader that is \<open>streaming\<close> takes what it needs and no more: its result is determined
  by the bytes it consumed, whatever follows them.
\<close>

definition streaming :: "(src, 'a) io \<Rightarrow> bool" where
  "streaming m \<longleftrightarrow> (\<forall>bs e y s'. m (Src bs e) = (Inr y, s') \<longrightarrow>
     (\<exists>c r. bs = c @ r \<and> s' = Src r e \<and> (\<forall>q e'. m (Src (c @ q) e') = (Inr y, Src q e'))))"

lemma streamingE:
  assumes "streaming m" and "m (Src bs e) = (Inr y, s')"
  obtains c r where "bs = c @ r" and "s' = Src r e" and "\<And>q e'. m (Src (c @ q) e') = (Inr y, Src q e')"
  using assms unfolding streaming_def by blast

named_theorems streaming_intros "readers that take no more than they need"

lemma streaming_ret [streaming_intros]: "streaming (ret x)"
  by (auto simp: streaming_def)

lemma streaming_fail [streaming_intros]: "streaming (fail x)"
  by (auto simp: streaming_def)

lemma streaming_readFull [streaming_intros]: "streaming (readFull n)"
proof (unfold streaming_def, intro allI impI)
  fix bs e y s' assume "readFull n (Src bs e) = (Inr y, s')"
  then have "bs = take n bs @ drop n bs \<and> s' = Src (drop n bs) e \<and>
      (\<forall>q e'. readFull n (Src (take n bs @ q) e') = (Inr y, Src q e'))"
    by (auto split: if_splits)
  then show "\<exists>c r. bs = c @ r \<and> s' = Src r e \<and> (\<forall>q e'. readFull n (Src (c @ q) e') = (Inr y, Src q e'))"
    by blast
qed

lemma streaming_bnd [streaming_intros]:
  assumes "streaming m" and "\<And>x. streaming (f x)"
  shows "streaming (bnd m f)"
proof (unfold streaming_def, intro allI impI)
  fix bs e y s' assume "bnd m f (Src bs e) = (Inr y, s')"
  then obtain x t where m: "m (Src bs e) = (Inr x, t)" and f: "f x t = (Inr y, s')"
    by (auto simp: bnd_Inr_iff)
  obtain c1 r1 where 1: "bs = c1 @ r1" "t = Src r1 e" "\<And>q e'. m (Src (c1 @ q) e') = (Inr x, Src q e')"
    by (rule streamingE [OF assms(1) m]) blast
  obtain c2 r2 where 2: "r1 = c2 @ r2" "s' = Src r2 e" "\<And>q e'. f x (Src (c2 @ q) e') = (Inr y, Src q e')"
    by (rule streamingE [OF assms(2) f [unfolded 1(2)]]) blast
  have "bnd m f (Src ((c1 @ c2) @ q) e') = (Inr y, Src q e')" for q e'
    using 1(3) [of "c2 @ q" e'] 2(3) [of q e'] by (simp add: bnd_Inr)
  with 1 2 show "\<exists>c r. bs = c @ r \<and> s' = Src r e \<and> (\<forall>q e'. bnd m f (Src (c @ q) e') = (Inr y, Src q e'))"
    by (intro exI [of _ "c1 @ c2"] exI [of _ r2]) auto
qed

lemma streaming_readByte [streaming_intros]: "streaming readByte"
  unfolding readByte_def by (intro streaming_intros)

lemma streaming_if [streaming_intros]:
  "streaming m \<Longrightarrow> streaming m' \<Longrightarrow> streaming (if b then m else m')"
  by simp

lemma streaming_case_prod [streaming_intros]:
  "(\<And>a b. streaming (f a b)) \<Longrightarrow> streaming (case p of (a, b) \<Rightarrow> f a b)"
  by (cases p) simp

lemma streaming_wrapping [streaming_intros]:
  assumes m: "streaming m"
  shows "streaming (wrapping msg m)"
proof (unfold streaming_def, intro allI impI)
  fix bs e y s' assume w: "wrapping msg m (Src bs e) = (Inr y, s')"
  from w have "m (Src bs e) = (Inr y, s')"
    by (auto simp: wrapping_def split: prod.splits sum.splits)
  with m [unfolded streaming_def] obtain c r where
    "bs = c @ r" "s' = Src r e" "\<And>q e'. m (Src (c @ q) e') = (Inr y, Src q e')"
    by blast
  then show "\<exists>c r. bs = c @ r \<and> s' = Src r e \<and> (\<forall>q e'. wrapping msg m (Src (c @ q) e') = (Inr y, Src q e'))"
    by (metis wrapping_Inr)
qed

lemma streaming_readN [streaming_intros]: "streaming m \<Longrightarrow> streaming (readN n m)"
  by (induction n) (auto intro!: streaming_intros)

text \<open>Readers that make progress: a success takes at least one byte.\<close>

lemma streaming_le: "streaming m \<Longrightarrow> m s = (Inr x, s') \<Longrightarrow> length (avail s') \<le> length (avail s)"
  by (cases s) (auto elim!: streamingE)

definition consumes :: "(src, 'a) io \<Rightarrow> bool" where
  "consumes m \<longleftrightarrow> (\<forall>s x s'. m s = (Inr x, s') \<longrightarrow> length (avail s') < length (avail s))"

lemma consumesD: "consumes m \<Longrightarrow> m s = (Inr x, s') \<Longrightarrow> length (avail s') < length (avail s)"
  by (simp add: consumes_def)

lemma consumes_bnd:
  assumes "consumes m" and "\<And>x. streaming (f x)"
  shows "consumes (bnd m f)"
proof (unfold consumes_def, intro allI impI)
  fix s y s' assume "bnd m f s = (Inr y, s')"
  then obtain x t where "m s = (Inr x, t)" "f x t = (Inr y, s')" by (auto simp: bnd_Inr_iff)
  with consumesD [OF assms(1)] streaming_le [OF assms(2)] show "length (avail s') < length (avail s)"
    by (metis order_le_less_trans)
qed

lemma consumes_readFull: "0 < n \<Longrightarrow> consumes (readFull n)"
  by (auto simp: consumes_def dest: readFull_InrD)

lemma consumes_readByte: "consumes readByte"
  unfolding readByte_def by (intro consumes_bnd consumes_readFull streaming_intros) simp

lemma consumes_if: "consumes m \<Longrightarrow> consumes m' \<Longrightarrow> consumes (if P then m else m')"
  by simp

lemma consumes_fail: "consumes (fail e)"
  by (simp add: consumes_def)

lemma consumes_wrapping: "consumes m \<Longrightarrow> consumes (wrapping msg m)"
  by (auto simp: consumes_def wrapping_def split: prod.splits sum.splits)

locale strict_codec = codec +
  assumes streaming: "streaming dec"
begin

text \<open>No strict prefix of an encoding is read as a value.\<close>

lemma truncated:
  assumes "ok x" and "enc x = p @ q" and "q \<noteq> []"
  shows "\<exists>err s'. dec (Src p e) = (Inl err, s')"
proof (rule ccontr)
  assume no: "\<not> ?thesis"
  obtain res s' where d: "dec (Src p e) = (res, s')" by (cases "dec (Src p e)")
  with no obtain y where y: "dec (Src p e) = (Inr y, s')" by (cases res) auto
  obtain c r where c: "p = c @ r" "\<And>q e'. dec (Src (c @ q) e') = (Inr y, Src q e')"
    by (rule streamingE [OF streaming y]) blast
  have "dec (Src (c @ (r @ q)) e) = (Inr x, Src [] e)"
    using dec_enc_end [OF assms(1)] assms(2) c(1) by simp
  with c(2) [of "r @ q" e] assms(3) show False by simp
qed

end

text \<open>
  A codec whose two sides keep delta-encoding state. \<open>sync\<close> relates the writer's state to
  the reader's, \<open>ok\<close> is what the writer may be asked to write in a state, and \<open>view\<close> is
  what of a value travels (fields the format leaves out come back at their defaults).
\<close>

fun enc_all :: "('w \<Rightarrow> 'a \<Rightarrow> 'w \<times> byte list) \<Rightarrow> 'w \<Rightarrow> 'a list \<Rightarrow> 'w \<times> byte list" where
  "enc_all enc w [] = (w, [])"
| "enc_all enc w (x # xs) =
     (let (w', bs) = enc w x; (w'', bs') = enc_all enc w' xs in (w'', bs @ bs'))"

fun dec_all :: "nat \<Rightarrow> ('r \<Rightarrow> (src, 'b \<times> 'r) io) \<Rightarrow> 'r \<Rightarrow> (src, 'b list \<times> 'r) io" where
  "dec_all 0 dec r = ret ([], r)"
| "dec_all (Suc n) dec r =
     bnd (dec r) (\<lambda>(y, r'). bnd (dec_all n dec r') (\<lambda>(ys, r''). ret (y # ys, r'')))"

text \<open>Every value of a run is admissible in the state the writer has reached by then.\<close>

fun ok_all :: "('w \<Rightarrow> 'a \<Rightarrow> 'w \<times> byte list) \<Rightarrow> ('w \<Rightarrow> 'a \<Rightarrow> bool) \<Rightarrow> 'w \<Rightarrow> 'a list \<Rightarrow> bool" where
  "ok_all enc ok w [] = True"
| "ok_all enc ok w (x # xs) = (ok w x \<and> ok_all enc ok (fst (enc w x)) xs)"

fun view_all :: "('w \<Rightarrow> 'a \<Rightarrow> 'w \<times> byte list) \<Rightarrow> ('w \<Rightarrow> 'a \<Rightarrow> 'b) \<Rightarrow> 'w \<Rightarrow> 'a list \<Rightarrow> 'b list" where
  "view_all enc view w [] = []"
| "view_all enc view w (x # xs) = view w x # view_all enc view (fst (enc w x)) xs"

lemma ok_all_uniform: "(\<And>w. \<forall>x\<in>set xs. ok w x) \<Longrightarrow> ok_all enc ok w xs"
  by (induction xs arbitrary: w) auto

lemma view_all_uniform: "(\<And>w x. view w x = f x) \<Longrightarrow> view_all enc view w xs = map f xs"
  by (induction xs arbitrary: w) auto

locale stream_codec =
  fixes enc :: "'w \<Rightarrow> 'a \<Rightarrow> 'w \<times> byte list"
    and dec :: "'r \<Rightarrow> (src, 'b \<times> 'r) io"
    and sync :: "'w \<Rightarrow> 'r \<Rightarrow> bool"
    and ok :: "'w \<Rightarrow> 'a \<Rightarrow> bool"
    and view :: "'w \<Rightarrow> 'a \<Rightarrow> 'b"
  assumes dec_step: "sync w r \<Longrightarrow> ok w x \<Longrightarrow>
    \<exists>r'. dec r (Src (snd (enc w x) @ rest) e) = (Inr (view w x, r'), Src rest e) \<and>
         sync (fst (enc w x)) r'"
begin

lemma dec_all_enc_all:
  "sync w r \<Longrightarrow> ok_all enc ok w xs \<Longrightarrow>
   \<exists>r'. dec_all (length xs) dec r (Src (snd (enc_all enc w xs) @ rest) e) =
          (Inr (view_all enc view w xs, r'), Src rest e) \<and>
        sync (fst (enc_all enc w xs)) r'"
proof (induction xs arbitrary: w r)
  case Nil
  then show ?case by auto
next
  case (Cons x xs)
  obtain w1 bs where enc1: "enc w x = (w1, bs)" by (cases "enc w x")
  obtain w2 bs' where enc2: "enc_all enc w1 xs = (w2, bs')" by (cases "enc_all enc w1 xs")
  from dec_step [of w r x "bs' @ rest" e] Cons.prems obtain r1 where
    d1: "dec r (Src (bs @ bs' @ rest) e) = (Inr (view w x, r1), Src (bs' @ rest) e)"
    and s1: "sync w1 r1"
    by (auto simp: enc1)
  from Cons.IH [OF s1] Cons.prems obtain r2 where
    "dec_all (length xs) dec r1 (Src (bs' @ rest) e) = (Inr (view_all enc view w1 xs, r2), Src rest e)"
    and "sync w2 r2"
    by (auto simp: enc1 enc2)
  with d1 show ?case
    by (auto simp: enc1 enc2 bnd_def)
qed

end

end
