(* ===== verification/Buf_Pipe.thy ===== *)
theory Buf_Pipe
  imports Rsync_Prelude "HOL-Library.Sublist"
begin

text \<open>
  \<^verbatim>\<open>src/pipe.go\<close>: the in-memory connection, two bounded buffers with blocking reads and writes.
  A call holds the mutex from its start to its return or to \<^verbatim>\<open>cond.Wait\<close>, and from a wake-up
  to the next of these; each such stretch is one atomic step. A goroutine that waits is in the
  wait set of the condition variable, and runs again only after a \<^verbatim>\<open>cond.Broadcast\<close> has emptied
  it. Any interleaving of the users of a buffer is a sequence of such steps.
\<close>

section \<open>Definitions\<close>

definition defaultPipeSize :: nat where "defaultPipeSize = 32 * 1024"

text \<open>The two users of one direction, and the buffer they share; \<open>cond\<close> holds the ones that wait.\<close>

datatype user = Writer | Reader

record pipe_buf =
  pbuf :: "byte list"
  pcap :: nat
  closed :: bool
  cond :: "user set"

definition newPipeBuf :: "nat \<Rightarrow> pipe_buf" where
  "newPipeBuf cap = \<lparr>pbuf = [], pcap = cap, closed = False, cond = {}\<rparr>"

definition condWait :: "user \<Rightarrow> pipe_buf \<Rightarrow> pipe_buf" where
  "condWait u b = b\<lparr>cond := insert u (cond b)\<rparr>"

definition condBroadcast :: "pipe_buf \<Rightarrow> pipe_buf" where
  "condBroadcast b = b\<lparr>cond := {}\<rparr>"

text \<open>The outcome of a stretch of \<^verbatim>\<open>Write\<close>: returned, failed, or waiting with the rest of its data.\<close>

datatype write_outcome =
    WDone nat
  | WErr nat go_error
  | WWait nat "byte list"

function pipeWrite :: "pipe_buf \<Rightarrow> nat \<Rightarrow> byte list \<Rightarrow> write_outcome \<times> pipe_buf" where
  "pipeWrite b tot p =
    (if p = [] then (WDone tot, b)
     else if pcap b \<le> length (pbuf b) \<and> \<not> closed b then (WWait tot p, condWait Writer b)
     else if closed b then (WErr tot ErrClosedPipe, b)
     else let space = pcap b - length (pbuf b); n = min (length p) space
          in pipeWrite (condBroadcast (b\<lparr>pbuf := pbuf b @ take n p\<rparr>)) (tot + n) (drop n p))"
  by pat_completeness auto
termination
  by (relation "measure (\<lambda>(b, tot, p). length p)") auto

declare pipeWrite.simps [simp del]

datatype read_outcome =
    RData "byte list"
  | RErr go_error
  | RWait

definition pipeRead :: "pipe_buf \<Rightarrow> nat \<Rightarrow> read_outcome \<times> pipe_buf" where
  "pipeRead b n =
    (if pbuf b = [] \<and> \<not> closed b then (RWait, condWait Reader b)
     else if pbuf b = [] then (RErr EOF, b)
     else (RData (take n (pbuf b)), condBroadcast (b\<lparr>pbuf := drop n (pbuf b)\<rparr>)))"

definition pipeClose :: "pipe_buf \<Rightarrow> pipe_buf" where
  "pipeClose b = (if closed b then b else condBroadcast (b\<lparr>closed := True\<rparr>))"

text \<open>Both directions; the end \<open>A\<close> writes \<open>a2b\<close> and reads \<open>b2a\<close>, the end \<open>B\<close> the other way round.\<close>

datatype pipe_end = A | B

record buf_pipe =
  a2b :: pipe_buf
  b2a :: pipe_buf

definition BufPipe :: buf_pipe where
  "BufPipe = \<lparr>a2b = newPipeBuf defaultPipeSize, b2a = newPipeBuf defaultPipeSize\<rparr>"

fun connWrite :: "pipe_end \<Rightarrow> buf_pipe \<Rightarrow> nat \<Rightarrow> byte list \<Rightarrow> write_outcome \<times> buf_pipe" where
  "connWrite A s tot p = (let (r, b) = pipeWrite (a2b s) tot p in (r, s\<lparr>a2b := b\<rparr>))"
| "connWrite B s tot p = (let (r, b) = pipeWrite (b2a s) tot p in (r, s\<lparr>b2a := b\<rparr>))"

fun connRead :: "pipe_end \<Rightarrow> buf_pipe \<Rightarrow> nat \<Rightarrow> read_outcome \<times> buf_pipe" where
  "connRead A s n = (let (r, b) = pipeRead (b2a s) n in (r, s\<lparr>b2a := b\<rparr>))"
| "connRead B s n = (let (r, b) = pipeRead (a2b s) n in (r, s\<lparr>a2b := b\<rparr>))"

definition connClose :: "buf_pipe \<Rightarrow> buf_pipe" where
  "connClose s = s\<lparr>a2b := pipeClose (a2b s), b2a := pipeClose (b2a s)\<rparr>"

section \<open>One direction\<close>

lemmas cond_defs = condWait_def condBroadcast_def

text \<open>
  What a stretch of \<^verbatim>\<open>Write\<close> does: it appends a prefix of its data, and reports how much. It
  stops short only when the buffer is full or closed; when it has appended nothing, the other
  user is left as it was.
\<close>

lemma pipeWrite_spec:
  assumes "length (pbuf b) \<le> pcap b"
  shows "\<exists>k \<le> length p. \<exists>C. snd (pipeWrite b tot p) = b\<lparr>pbuf := pbuf b @ take k p, cond := C\<rparr> \<and>
    length (pbuf b) + k \<le> pcap b \<and> (Reader \<in> C \<longleftrightarrow> k = 0 \<and> Reader \<in> cond b) \<and> (closed b \<longrightarrow> k = 0) \<and>
    (case fst (pipeWrite b tot p) of
       WDone t \<Rightarrow> t = tot + k \<and> k = length p
     | WErr t err \<Rightarrow> t = tot + k \<and> err = ErrClosedPipe \<and> closed b \<and> p \<noteq> []
     | WWait t q \<Rightarrow> t = tot + k \<and> q = drop k p \<and> q \<noteq> [] \<and> \<not> closed b \<and> length (pbuf b) + k = pcap b \<and> Writer \<in> C)"
  using assms
proof (induction b tot p rule: pipeWrite.induct)
  case (1 b tot p)
  consider (none) "p = []" | (full) "p \<noteq> []" "pcap b \<le> length (pbuf b) \<and> \<not> closed b" | (closed) "p \<noteq> []" "closed b"
    | (room) "p \<noteq> []" "length (pbuf b) < pcap b" "\<not> closed b" by linarith
  then show ?case
  proof cases
    case full
    then show ?thesis
      using "1.prems" by (intro exI [of _ 0] conjI exI [of _ "insert Writer (cond b)"]) (auto simp: pipeWrite.simps cond_defs)
  next
    case room
    define n where "n = min (length p) (pcap b - length (pbuf b))"
    let ?b = "condBroadcast (b\<lparr>pbuf := pbuf b @ take n p\<rparr>)"
    have n: "0 < n" "n \<le> length p" "length (pbuf b) + n \<le> pcap b" using room by (auto simp: n_def)
    have w: "pipeWrite b tot p = pipeWrite ?b (tot + n) (drop n p)"
      using room by (subst pipeWrite.simps) (simp add: n_def Let_def)
    have "length (pbuf ?b) \<le> pcap ?b" using n by (simp add: cond_defs)
    from "1.IH" [OF room(1) _ _ refl n_def this] room obtain k C where
      k: "k \<le> length (drop n p)" "snd (pipeWrite ?b (tot + n) (drop n p)) = ?b\<lparr>pbuf := pbuf ?b @ take k (drop n p), cond := C\<rparr>"
        "length (pbuf ?b) + k \<le> pcap ?b" "Reader \<notin> C"
      and c: "case fst (pipeWrite ?b (tot + n) (drop n p)) of
         WDone t \<Rightarrow> t = tot + n + k \<and> k = length (drop n p)
       | WErr t err \<Rightarrow> t = tot + n + k \<and> err = ErrClosedPipe \<and> closed ?b \<and> drop n p \<noteq> []
       | WWait t q \<Rightarrow> t = tot + n + k \<and> q = drop k (drop n p) \<and> q \<noteq> [] \<and> \<not> closed ?b \<and>
           length (pbuf ?b) + k = pcap ?b \<and> Writer \<in> C"
      by (auto simp: cond_defs)
    show ?thesis
      by (rule exI [of _ "n + k"], rule conjI, use k n in simp, rule exI [of _ C])
         (use k c n room in \<open>auto simp: w cond_defs take_add add.commute [of k n] split: write_outcome.splits\<close>)
  qed (use "1.prems" in \<open>auto simp: pipeWrite.simps intro!: exI [of _ 0] exI [of _ "cond b"]\<close>)
qed

text \<open>
  Nobody waits for something that is already there: a waiting writer means a full buffer, a
  waiting reader an empty one, and both that it is open. Every operation keeps this, because
  it wakes the waiting whenever it changes what they wait for.
\<close>

definition sleep_ok :: "pipe_buf \<Rightarrow> bool" where
  "sleep_ok b \<longleftrightarrow>
     (Writer \<in> cond b \<longrightarrow> pcap b \<le> length (pbuf b) \<and> \<not> closed b) \<and> (Reader \<in> cond b \<longrightarrow> pbuf b = [] \<and> \<not> closed b)"

lemma sleep_pipeWrite: "sleep_ok b \<Longrightarrow> sleep_ok (snd (pipeWrite b tot p))"
proof (induction b tot p rule: pipeWrite.induct)
  case (1 b tot p)
  consider "p = [] \<or> closed b" | "p \<noteq> []" "pcap b \<le> length (pbuf b) \<and> \<not> closed b" | "p \<noteq> []" "length (pbuf b) < pcap b" "\<not> closed b"
    by linarith
  then show ?case
  proof cases
    case 3
    have "sleep_ok (condBroadcast c)" for c by (simp add: sleep_ok_def cond_defs)
    with "1.IH" [OF 3(1) _ _ refl refl] 3 show ?thesis by (subst pipeWrite.simps) (simp add: Let_def)
  qed (use "1.prems" in \<open>auto simp: sleep_ok_def cond_defs pipeWrite.simps\<close>)
qed

lemma sleep_pipeRead: "sleep_ok b \<Longrightarrow> sleep_ok (snd (pipeRead b n))"
  by (auto simp: sleep_ok_def cond_defs pipeRead_def)

lemma sleep_pipeClose: "sleep_ok b \<Longrightarrow> sleep_ok (pipeClose b)"
  by (auto simp: sleep_ok_def cond_defs pipeClose_def)

section \<open>A writer and a reader\<close>

text \<open>
  One direction with its two users. The writer has calls to make, and may be inside one that
  has waited; the reader reads until the end, and may be inside a call too. \<open>accepted\<close> and
  \<open>delivered\<close> record what went in and what came out, \<open>results\<close> what the write calls returned,
  \<open>ended\<close> that a read has returned \<^verbatim>\<open>io.EOF\<close>.
\<close>

record pipe_sys =
  buf :: pipe_buf
  todo :: "byte list list"
  writing :: "(nat \<times> byte list) option"
  reading :: "nat option"
  accepted :: "byte list"
  delivered :: "byte list"
  results :: "write_outcome list"
  ended :: bool

definition startSys :: "nat \<Rightarrow> byte list list \<Rightarrow> pipe_sys" where
  "startSys cap calls = \<lparr>buf = newPipeBuf cap, todo = calls, writing = None, reading = None, accepted = [], delivered = [],
     results = [], ended = False\<rparr>"

text \<open>The effect of a stretch of \<^verbatim>\<open>Write\<close> on the system; \<open>p\<close> is the data it starts with.\<close>

definition afterWrite :: "pipe_sys \<Rightarrow> nat \<Rightarrow> byte list \<Rightarrow> pipe_sys" where
  "afterWrite s tot p =
    (case pipeWrite (buf s) tot p of (res, b) \<Rightarrow>
       let s' = s\<lparr>buf := b, accepted := accepted s @ drop (length (pbuf (buf s))) (pbuf b)\<rparr>
       in (case res of
             WWait t q \<Rightarrow> s'\<lparr>writing := Some (t, q)\<rparr>
           | _ \<Rightarrow> s'\<lparr>writing := None, results := results s @ [res]\<rparr>))"

definition afterRead :: "pipe_sys \<Rightarrow> nat \<Rightarrow> pipe_sys" where
  "afterRead s n =
    (case pipeRead (buf s) n of (res, b) \<Rightarrow>
       let s' = s\<lparr>buf := b\<rparr>
       in (case res of
             RWait \<Rightarrow> s'\<lparr>reading := Some n\<rparr>
           | RErr _ \<Rightarrow> s'\<lparr>reading := None, ended := True\<rparr>
           | RData d \<Rightarrow> s'\<lparr>reading := None, delivered := delivered s @ d\<rparr>))"

text \<open>
  What the users can do: the writer calls \<^verbatim>\<open>Write\<close> or goes on after a wake-up, the reader calls
  \<^verbatim>\<open>Read\<close> with a buffer of some size or goes on after a wake-up, and when its calls are made the
  writer closes. A user in the wait set can do nothing.
\<close>

inductive user_step :: "pipe_sys \<Rightarrow> pipe_sys \<Rightarrow> bool" where
  call: "writing s = None \<Longrightarrow> todo s = p # ps \<Longrightarrow> user_step s (afterWrite (s\<lparr>todo := ps\<rparr>) 0 p)"
| writer_woken: "writing s = Some (t, q) \<Longrightarrow> Writer \<notin> cond (buf s) \<Longrightarrow> user_step s (afterWrite s t q)"
| read: "reading s = None \<Longrightarrow> \<not> ended s \<Longrightarrow> 0 < n \<Longrightarrow> user_step s (afterRead s n)"
| reader_woken: "reading s = Some n \<Longrightarrow> Reader \<notin> cond (buf s) \<Longrightarrow> user_step s (afterRead s n)"
| finish: "writing s = None \<Longrightarrow> todo s = [] \<Longrightarrow> \<not> closed (buf s) \<Longrightarrow> user_step s (s\<lparr>buf := pipeClose (buf s)\<rparr>)"

text \<open>Besides them anyone may close, at any time, and a read may have no room for data.\<close>

inductive pstep :: "pipe_sys \<Rightarrow> pipe_sys \<Rightarrow> bool" where
  user: "user_step s s' \<Longrightarrow> pstep s s'"
| read_none: "reading s = None \<Longrightarrow> \<not> ended s \<Longrightarrow> pstep s (afterRead s 0)"
| close: "pstep s (s\<lparr>buf := pipeClose (buf s)\<rparr>)"

inductive preach :: "nat \<Rightarrow> byte list list \<Rightarrow> pipe_sys \<Rightarrow> bool" for cap calls where
  start: "preach cap calls (startSys cap calls)"
| step: "preach cap calls s \<Longrightarrow> pstep s s' \<Longrightarrow> preach cap calls s'"

text \<open>
  The invariant: the buffer is within its capacity and holds what was accepted and not yet
  delivered; what was accepted is a prefix of the data of the calls, in order; a call that
  waits, waits with the part of its data that was not accepted; nobody waits in vain; and the
  reader has seen the end only if the buffer is closed and empty.
\<close>

definition pinv :: "nat \<Rightarrow> byte list list \<Rightarrow> pipe_sys \<Rightarrow> bool" where
  "pinv cap calls s \<longleftrightarrow>
     pcap (buf s) = cap \<and> length (pbuf (buf s)) \<le> cap \<and> accepted s = delivered s @ pbuf (buf s) \<and>
     prefix (accepted s) (concat calls) \<and>
     (\<not> closed (buf s) \<longrightarrow>
        concat calls = accepted s @ (case writing s of Some (_, q) \<Rightarrow> q | None \<Rightarrow> []) @ concat (todo s)) \<and>
     sleep_ok (buf s) \<and> (ended s \<longrightarrow> closed (buf s) \<and> pbuf (buf s) = [])"

text \<open>A stretch of \<^verbatim>\<open>Write\<close> seen from the system: how much it takes and when it waits.\<close>

lemma afterWrite_spec:
  assumes "length (pbuf (buf s)) \<le> pcap (buf s)"
  shows "\<exists>k C. k \<le> length p \<and> buf (afterWrite s t p) = (buf s)\<lparr>pbuf := pbuf (buf s) @ take k p, cond := C\<rparr> \<and>
    length (pbuf (buf s)) + k \<le> pcap (buf s) \<and> (Reader \<in> C \<longleftrightarrow> k = 0 \<and> Reader \<in> cond (buf s)) \<and>
    accepted (afterWrite s t p) = accepted s @ take k p \<and> delivered (afterWrite s t p) = delivered s \<and>
    todo (afterWrite s t p) = todo s \<and> reading (afterWrite s t p) = reading s \<and> ended (afterWrite s t p) = ended s \<and>
    (closed (buf s) \<longrightarrow> k = 0) \<and> (closed (buf s) \<longrightarrow> writing (afterWrite s t p) = None) \<and>
    (\<not> closed (buf s) \<longrightarrow> (case writing (afterWrite s t p) of
        Some (u, q) \<Rightarrow> u = t + k \<and> q = drop k p \<and> Writer \<in> C \<and> results (afterWrite s t p) = results s
      | None \<Rightarrow> k = length p \<and> results (afterWrite s t p) = results s @ [WDone (t + k)]))"
proof -
  obtain k C where k: "k \<le> length p" "snd (pipeWrite (buf s) t p) = (buf s)\<lparr>pbuf := pbuf (buf s) @ take k p, cond := C\<rparr>"
    "length (pbuf (buf s)) + k \<le> pcap (buf s)" "Reader \<in> C \<longleftrightarrow> k = 0 \<and> Reader \<in> cond (buf s)" "closed (buf s) \<longrightarrow> k = 0"
    and c: "case fst (pipeWrite (buf s) t p) of
       WDone u \<Rightarrow> u = t + k \<and> k = length p
     | WErr u err \<Rightarrow> u = t + k \<and> err = ErrClosedPipe \<and> closed (buf s) \<and> p \<noteq> []
     | WWait u q \<Rightarrow> u = t + k \<and> q = drop k p \<and> q \<noteq> [] \<and> \<not> closed (buf s) \<and> length (pbuf (buf s)) + k = pcap (buf s) \<and> Writer \<in> C"
    using pipeWrite_spec [OF assms, of p t] by blast
  obtain res b' where w: "pipeWrite (buf s) t p = (res, b')" by (cases "pipeWrite (buf s) t p")
  show ?thesis
    by (rule exI [of _ k], rule exI [of _ C])
       (use k c w in \<open>auto simp: afterWrite_def Let_def split: write_outcome.splits\<close>)
qed

lemma sleep_afterWrite: "sleep_ok (buf s) \<Longrightarrow> sleep_ok (buf (afterWrite s t p))"
  using sleep_pipeWrite [of "buf s" t p] by (auto simp: afterWrite_def Let_def split: prod.split write_outcome.split)

lemma afterWrite_inv:
  assumes "pcap (buf s) = cap" "length (pbuf (buf s)) \<le> cap" "accepted s = delivered s @ pbuf (buf s)"
    and "prefix (accepted s) (concat calls)" and "\<not> closed (buf s) \<longrightarrow> concat calls = accepted s @ p @ concat (todo s)"
    and "sleep_ok (buf s)" and "ended s \<longrightarrow> closed (buf s) \<and> pbuf (buf s) = []"
  shows "pinv cap calls (afterWrite s t p)"
proof -
  have "length (pbuf (buf s)) \<le> pcap (buf s)" using assms by simp
  from afterWrite_spec [OF this, of p t] obtain k C where k:
    "k \<le> length p" "buf (afterWrite s t p) = (buf s)\<lparr>pbuf := pbuf (buf s) @ take k p, cond := C\<rparr>"
    "length (pbuf (buf s)) + k \<le> pcap (buf s)"
    "accepted (afterWrite s t p) = accepted s @ take k p" "delivered (afterWrite s t p) = delivered s"
    "todo (afterWrite s t p) = todo s" "ended (afterWrite s t p) = ended s" "closed (buf s) \<longrightarrow> k = 0"
    "\<not> closed (buf s) \<longrightarrow> (case writing (afterWrite s t p) of
        Some (u, q) \<Rightarrow> u = t + k \<and> q = drop k p \<and> Writer \<in> C \<and> results (afterWrite s t p) = results s
      | None \<Rightarrow> k = length p \<and> results (afterWrite s t p) = results s @ [WDone (t + k)])"
    by blast
  have "prefix (accepted s @ take k p) (concat calls)"
  proof (cases "closed (buf s)")
    case False
    then have "concat calls = (accepted s @ take k p) @ drop k p @ concat (todo s)" using assms(5) by simp
    then show ?thesis by (rule prefixI)
  qed (use k(8) assms(4) in auto)
  moreover have "concat calls = accepted s @ take k p @ (case writing (afterWrite s t p) of Some (_, q) \<Rightarrow> q | None \<Rightarrow> []) @ concat (todo s)"
    if "\<not> closed (buf s)"
    using that assms(5) k(9) by (auto split: option.splits)
  ultimately show ?thesis using assms k sleep_afterWrite [OF assms(6), of t p] by (simp add: pinv_def)
qed

lemma afterRead_inv: "pinv cap calls s \<Longrightarrow> pinv cap calls (afterRead s n)"
  using sleep_pipeRead [of "buf s" n] by (auto simp: pinv_def afterRead_def pipeRead_def cond_defs)

lemma close_inv: "pinv cap calls s \<Longrightarrow> pinv cap calls (s\<lparr>buf := pipeClose (buf s)\<rparr>)"
  using sleep_pipeClose [of "buf s"] by (auto simp: pinv_def pipeClose_def cond_defs)

lemma user_step_inv: "user_step s s' \<Longrightarrow> pinv cap calls s \<Longrightarrow> pinv cap calls s'"
proof (induction rule: user_step.induct)
  case (call s p ps)
  then show ?case by (intro afterWrite_inv) (auto simp: pinv_def)
next
  case (writer_woken s t q)
  then show ?case by (intro afterWrite_inv) (auto simp: pinv_def)
qed (simp_all add: afterRead_inv close_inv)

lemma pstep_inv: "pstep s s' \<Longrightarrow> pinv cap calls s \<Longrightarrow> pinv cap calls s'"
  by (induction rule: pstep.induct) (simp_all add: user_step_inv afterRead_inv close_inv)

lemma start_inv: "pinv cap calls (startSys cap calls)"
  by (simp add: pinv_def startSys_def newPipeBuf_def sleep_ok_def)

lemma preach_inv: "preach cap calls s \<Longrightarrow> pinv cap calls s"
  by (induction rule: preach.induct) (simp_all add: start_inv pstep_inv)

section \<open>Runs of the two users\<close>

text \<open>
  With nobody else closing, the buffer is closed only after all calls have returned, and every
  call that has returned has written all of its data. A waiting reader is inside a call.
\<close>

definition calls_ok :: "byte list list \<Rightarrow> pipe_sys \<Rightarrow> bool" where
  "calls_ok calls s \<longleftrightarrow>
     (closed (buf s) \<longrightarrow> writing s = None \<and> todo s = [] \<and> accepted s = concat calls) \<and>
     (Reader \<in> cond (buf s) \<longrightarrow> reading s \<noteq> None) \<and> (\<forall>n. reading s = Some n \<longrightarrow> 0 < n \<and> \<not> ended s) \<and>
     (\<exists>ps. results s = map (\<lambda>p. WDone (length p)) ps \<and>
        (case writing s of
           None \<Rightarrow> calls = ps @ todo s
         | Some (t, q) \<Rightarrow> \<exists>p. calls = ps @ p # todo s \<and> t + length q = length p))"

text \<open>What is left to do: bytes on both sides, calls, users that can run, and the close.\<close>

definition work :: "byte list list \<Rightarrow> pipe_sys \<Rightarrow> nat" where
  "work calls s =
    2 * (length (concat calls) - length (accepted s)) + 2 * (length (concat calls) - length (delivered s)) + length (todo s) +
    (if Reader \<in> cond (buf s) \<or> ended s then 0 else 1) + (if writing s \<noteq> None \<and> Writer \<notin> cond (buf s) then 1 else 0) +
    (if closed (buf s) then 0 else 2)"

lemma afterWrite_progress:
  assumes len: "length (pbuf (buf s)) \<le> pcap (buf s)" and o: "\<not> closed (buf s)" and rd: "Reader \<in> cond (buf s) \<longrightarrow> reading s \<noteq> None"
      "\<forall>n. reading s = Some n \<longrightarrow> 0 < n \<and> \<not> ended s" and all: "concat calls = accepted s @ p @ concat (todo s)"
    and ps: "results s = map (\<lambda>p. WDone (length p)) ps" "calls = ps @ p0 # todo s" "t + length p = length p0"
  shows "calls_ok calls (afterWrite s t p)"
    "work calls (afterWrite s t p) < work calls (s\<lparr>writing := None\<rparr>) + 1"
proof -
  from afterWrite_spec [OF len, of p t] obtain k C where k:
    "k \<le> length p" "buf (afterWrite s t p) = (buf s)\<lparr>pbuf := pbuf (buf s) @ take k p, cond := C\<rparr>"
    "Reader \<in> C \<longleftrightarrow> k = 0 \<and> Reader \<in> cond (buf s)"
    "accepted (afterWrite s t p) = accepted s @ take k p" "delivered (afterWrite s t p) = delivered s"
    "todo (afterWrite s t p) = todo s" "ended (afterWrite s t p) = ended s" "reading (afterWrite s t p) = reading s"
    "\<not> closed (buf s) \<longrightarrow> (case writing (afterWrite s t p) of
        Some (u, q) \<Rightarrow> u = t + k \<and> q = drop k p \<and> Writer \<in> C \<and> results (afterWrite s t p) = results s
      | None \<Rightarrow> k = length p \<and> results (afterWrite s t p) = results s @ [WDone (t + k)])"
    by blast
  show "calls_ok calls (afterWrite s t p)"
  proof (cases "writing (afterWrite s t p)")
    case None
    with k o ps rd show ?thesis unfolding calls_ok_def by (auto intro!: exI [of _ "ps @ [p0]"])
  next
    case (Some a)
    with k o ps rd show ?thesis unfolding calls_ok_def by (cases a) (auto intro!: exI [of _ ps])
  qed
  have "length (accepted s) + length p \<le> length (concat calls)" unfolding all by simp
  then have "2 * (length (concat calls) - length (accepted s @ take k p)) + (if k = 0 then 0 else 2) \<le>
      2 * (length (concat calls) - length (accepted s))"
    using k(1) by auto
  moreover have "writing (afterWrite s t p) \<noteq> None \<longrightarrow> Writer \<in> C" using k(9) o by (auto split: option.splits)
  ultimately show "work calls (afterWrite s t p) < work calls (s\<lparr>writing := None\<rparr>) + 1"
    using k(2-7) o by (auto simp: work_def split: if_splits)
qed

lemma afterRead_progress:
  assumes "pinv cap calls s" "calls_ok calls s" "Reader \<notin> cond (buf s)" "\<not> ended s" "0 < n"
  shows "calls_ok calls (afterRead s n) \<and> work calls (afterRead s n) < work calls s"
proof -
  have l: "length (delivered s) + length (pbuf (buf s)) \<le> length (concat calls)"
    using assms(1) prefix_length_le [of "accepted s" "concat calls"] by (auto simp: pinv_def)
  consider (wait) "pbuf (buf s) = []" "\<not> closed (buf s)" | (eof) "pbuf (buf s) = []" "closed (buf s)" | (data) "pbuf (buf s) \<noteq> []"
    by blast
  then show ?thesis
  proof cases
    case wait
    then have "afterRead s n = s\<lparr>buf := condWait Reader (buf s), reading := Some n\<rparr>" by (simp add: afterRead_def pipeRead_def)
    with assms show ?thesis by (auto simp: calls_ok_def work_def cond_defs split: option.splits)
  next
    case eof
    then have "afterRead s n = s\<lparr>buf := buf s, reading := None, ended := True\<rparr>" by (simp add: afterRead_def pipeRead_def)
    with assms show ?thesis by (auto simp: calls_ok_def work_def split: option.splits)
  next
    case data
    then have a: "afterRead s n = s\<lparr>buf := condBroadcast ((buf s)\<lparr>pbuf := drop n (pbuf (buf s))\<rparr>), reading := None,
        delivered := delivered s @ take n (pbuf (buf s))\<rparr>"
      by (simp add: afterRead_def pipeRead_def)
    define L where "L = length (concat calls)"
    define d where "d = length (take n (pbuf (buf s)))"
    have "0 < d" "length (delivered s) + d \<le> L" using data assms(5) l by (simp_all add: d_def L_def min_def)
    then have "2 * (L - (length (delivered s) + d)) + 2 \<le> 2 * (L - length (delivered s))" by simp
    then have "work calls (afterRead s n) < work calls s"
      using assms(3,4) unfolding a work_def L_def [symmetric] by (simp add: cond_defs d_def [symmetric] del: length_take)
    moreover have "calls_ok calls (afterRead s n)" using assms(2) unfolding a calls_ok_def by (simp add: cond_defs cong: option.case_cong)
    ultimately show ?thesis by blast
  qed
qed

lemma user_step_progress:
  assumes "user_step s s'" "pinv cap calls s" "calls_ok calls s"
  shows "calls_ok calls s' \<and> work calls s' < work calls s"
  using assms
proof (induction rule: user_step.induct)
  case (call s p ps)
  then have o: "\<not> closed (buf s)" and rd: "Reader \<in> cond (buf s) \<longrightarrow> reading s \<noteq> None" "\<forall>n. reading s = Some n \<longrightarrow> 0 < n \<and> \<not> ended s"
    by (auto simp: calls_ok_def)
  let ?s = "s\<lparr>todo := ps\<rparr>"
  obtain ds where ds: "results s = map (\<lambda>p. WDone (length p)) ds" "calls = ds @ p # ps" using call by (auto simp: calls_ok_def)
  have "length (pbuf (buf s)) \<le> pcap (buf s)" "concat calls = accepted s @ p @ concat ps" using call o by (simp_all add: pinv_def)
  then have "length (pbuf (buf ?s)) \<le> pcap (buf ?s)" "\<not> closed (buf ?s)" "Reader \<in> cond (buf ?s) \<longrightarrow> reading ?s \<noteq> None"
    "\<forall>n. reading ?s = Some n \<longrightarrow> 0 < n \<and> \<not> ended ?s" "concat calls = accepted ?s @ p @ concat (todo ?s)"
    "results ?s = map (\<lambda>p. WDone (length p)) ds" "calls = ds @ p # todo ?s" "0 + length p = length p"
    using o rd ds by simp_all
  note p = afterWrite_progress [OF this]
  moreover have "work calls (?s\<lparr>writing := None\<rparr>) + 1 = work calls s" using call by (simp add: work_def)
  ultimately show ?case by simp
next
  case (writer_woken s t q)
  then have o: "\<not> closed (buf s)" and rd: "Reader \<in> cond (buf s) \<longrightarrow> reading s \<noteq> None" "\<forall>n. reading s = Some n \<longrightarrow> 0 < n \<and> \<not> ended s"
    by (auto simp: calls_ok_def)
  obtain ds p where ds: "results s = map (\<lambda>p. WDone (length p)) ds" "calls = ds @ p # todo s" "t + length q = length p"
    using writer_woken by (auto simp: calls_ok_def)
  have "length (pbuf (buf s)) \<le> pcap (buf s)" "concat calls = accepted s @ q @ concat (todo s)"
    using writer_woken o by (simp_all add: pinv_def)
  note p = afterWrite_progress [OF this(1) o rd this(2) ds]
  moreover have "work calls (s\<lparr>writing := None\<rparr>) + 1 = work calls s" using writer_woken by (simp add: work_def)
  ultimately show ?case by simp
next
  case (finish s)
  then show ?case by (auto simp: calls_ok_def work_def pipeClose_def cond_defs pinv_def)
next
  case (read s n)
  then show ?case by (intro afterRead_progress) (auto simp: calls_ok_def)
next
  case (reader_woken s n)
  then show ?case by (intro afterRead_progress) (auto simp: calls_ok_def)
qed

lemma start_ok: "calls_ok calls (startSys cap calls)"
  by (simp add: calls_ok_def startSys_def newPipeBuf_def)

lemma user_run:
  "(user_step ^^ k) (startSys cap calls) s \<Longrightarrow>
   pinv cap calls s \<and> calls_ok calls s \<and> k + work calls s \<le> work calls (startSys cap calls)"
proof (induction k arbitrary: s)
  case 0
  then have "s = startSys cap calls" by simp
  then show ?case by (simp add: start_inv start_ok)
next
  case (Suc k)
  then obtain r where "(user_step ^^ k) (startSys cap calls) r" "user_step r s" by (auto elim: relpowp_Suc_E)
  with Suc.IH [of r] user_step_inv [of r s] user_step_progress [of r s cap calls] show ?case by fastforce
qed

text \<open>Only when everything is done can neither user do anything.\<close>

lemma user_stuck:
  assumes "pinv cap calls s" "calls_ok calls s" "0 < cap" "\<And>s'. \<not> user_step s s'"
  shows "ended s \<and> delivered s = concat calls \<and> results s = map (\<lambda>p. WDone (length p)) calls"
proof -
  have w: "\<not> (writing s = None \<and> todo s \<noteq> [])" "writing s = None \<or> Writer \<in> cond (buf s)"
    using assms(4) user_step.call [of s] user_step.writer_woken [of s] by (cases "writing s"; cases "todo s"; force)+
  have r: "ended s \<or> Reader \<in> cond (buf s)"
    using assms(4) user_step.read [of s 1] user_step.reader_woken [of s] by (cases "reading s") auto
  have c: "closed (buf s)"
  proof (rule ccontr)
    assume o: "\<not> closed (buf s)"
    then have "pbuf (buf s) = []" using r assms(1) by (auto simp: pinv_def sleep_ok_def)
    then have "Writer \<notin> cond (buf s)" using assms(1,3) by (auto simp: pinv_def sleep_ok_def)
    then have "writing s = None" "todo s = []" using w by auto
    then show False using user_step.finish [of s] assms(4) o by blast
  qed
  then have "Reader \<notin> cond (buf s)" using assms(1) by (auto simp: pinv_def sleep_ok_def)
  with r have "ended s" by blast
  with assms(1,2) c show ?thesis by (auto simp: pinv_def calls_ok_def)
qed

section \<open>Properties\<close>

text \<open>
  C12: in every interleaving of a writer, a reader and closes, whatever the calls and buffer
  sizes, the buffer stays within its capacity, and the bytes delivered so far, followed by
  the ones in the buffer, are a prefix of the concatenation of all data written: nothing is
  lost, duplicated or reordered.
\<close>

theorem pipe_fifo:
  assumes "preach cap calls s"
  shows "length (pbuf (buf s)) \<le> cap \<and> prefix (delivered s @ pbuf (buf s)) (concat calls)"
  using preach_inv [OF assms] by (auto simp: pinv_def)

text \<open>A writer that fills the buffer and waits, and the reader that wakes it.\<close>

definition demoWait :: pipe_sys where
  "demoWait = afterWrite ((startSys 2 [[1, 2, 3]])\<lparr>todo := []\<rparr>) 0 [1, 2, 3]"

lemma demoWait_reach: "preach 2 [[1, 2, 3]] demoWait"
  unfolding demoWait_def
  by (rule preach.step [OF preach.start], rule pstep.user, rule user_step.call) (simp_all add: startSys_def)

lemma demoWait_state: "buf demoWait = \<lparr>pbuf = [1, 2], pcap = 2, closed = False, cond = {Writer}\<rparr>" "reading demoWait = None" "\<not> ended demoWait"
  by (simp_all add: demoWait_def afterWrite_def startSys_def newPipeBuf_def pipeWrite.simps Let_def cond_defs)

theorem pipe_fifo_witness:
  "\<exists>s :: pipe_sys. delivered s = [1] \<and> pbuf (buf s) = [2] \<and> prefix (delivered s @ pbuf (buf s)) (concat [[1, 2, 3 :: byte]])"
proof -
  let ?s = "afterRead demoWait 1"
  have "preach 2 [[1, 2, 3]] ?s"
    by (rule preach.step [OF demoWait_reach], rule pstep.user, rule user_step.read) (simp_all add: demoWait_state)
  moreover have "delivered ?s = [1]" "pbuf (buf ?s) = [2]" by code_simp+
  ultimately show ?thesis using pipe_fifo [of 2 "[[1, 2, 3]]" ?s] by (intro exI [of _ ?s]) simp
qed

text \<open>
  C13: no wake-up is lost. In every interleaving, whoever is in the wait set of the condition
  variable still has to be there: the writer only while the buffer is full and open, the
  reader only while it is empty and open, so never both, and nobody after a close. Hence, as
  long as there is something to write or to deliver, one of the two can run.
\<close>

theorem pipe_no_deadlock:
  assumes "preach cap calls s" and "0 < cap"
  shows "(Writer \<in> cond (buf s) \<longrightarrow> length (pbuf (buf s)) = cap \<and> \<not> closed (buf s) \<and> Reader \<notin> cond (buf s)) \<and>
    (Reader \<in> cond (buf s) \<longrightarrow> pbuf (buf s) = [] \<and> \<not> closed (buf s) \<and> Writer \<notin> cond (buf s)) \<and>
    (writing s \<noteq> None \<or> todo s \<noteq> [] \<or> pbuf (buf s) \<noteq> [] \<longrightarrow> (\<exists>s'. user_step s s'))"
proof -
  note inv = preach_inv [OF assms(1), unfolded pinv_def sleep_ok_def]
  have "\<exists>s'. user_step s s'" if "Reader \<notin> cond (buf s)" "\<not> ended s"
    using that user_step.read [of s 1] user_step.reader_woken [of s] by (cases "reading s") auto
  moreover have "\<exists>s'. user_step s s'" if "Writer \<notin> cond (buf s)" "writing s \<noteq> None \<or> todo s \<noteq> []"
    using that user_step.call [of s] user_step.writer_woken [of s] by (cases "writing s") (auto simp: neq_Nil_conv)
  ultimately show ?thesis using inv assms(2) by auto
qed

theorem pipe_no_deadlock_witness:
  "Writer \<in> cond (buf demoWait) \<and> Reader \<notin> cond (buf demoWait) \<and> (\<exists>s'. user_step demoWait s')"
  using pipe_no_deadlock [OF demoWait_reach] by (simp add: demoWait_state)

text \<open>
  C14: everything written is delivered. A writer that makes its calls and then closes, and a
  reader that reads until the end, with buffers of any sizes of at least one byte: however
  the two are scheduled, the number of their steps is bounded, and the only states in which
  neither can go on are those in which every call has returned with all of its data written
  and the reader has got exactly that data, followed by the end.
\<close>

theorem pipe_delivers:
  assumes "0 < cap" and "(user_step ^^ k) (startSys cap calls) s"
  shows "k \<le> 4 * length (concat calls) + length calls + 3 \<and>
    ((\<exists>s'. user_step s s') \<or>
     delivered s = concat calls \<and> ended s \<and> results s = map (\<lambda>p. WDone (length p)) calls)"
proof -
  have "work calls (startSys cap calls) = 4 * length (concat calls) + length calls + 3"
    by (simp add: work_def startSys_def newPipeBuf_def)
  with user_run [OF assms(2)] user_stuck [OF _ _ assms(1), of calls s] show ?thesis by auto
qed

theorem pipe_delivers_witness: "\<exists>s. (user_step ^^ 1) (startSys 2 [[1, 2, 3]]) s \<and> (\<exists>s'. user_step s s')"
proof -
  have s: "(user_step ^^ 1) (startSys 2 [[1, 2, 3]]) demoWait"
    unfolding demoWait_def One_nat_def relpowp.simps
    by (rule relcomppI, rule refl, rule user_step.call) (simp_all add: startSys_def)
  moreover have "\<not> ended demoWait" by (simp add: demoWait_state)
  ultimately show ?thesis using pipe_delivers [OF _ s] by auto
qed

end
