(* ===== verification/Wire_Ints.thy ===== *)
theory Wire_Ints
  imports Rsync_Prelude
begin

text \<open>
  \<^verbatim>\<open>src/protocol/wireint.go\<close>, first half: the fixed-width integers, rsync's variable-length
  \<^verbatim>\<open>varint\<close> and \<^verbatim>\<open>varlong\<close> (protocol 30 and up) and the legacy \<^verbatim>\<open>longint\<close>. A writer is
  modelled by the bytes it passes to its \<^verbatim>\<open>io.Writer\<close>, a reader by a computation on a byte
  source. Each pair is an instance of the \<open>codec\<close> interface; the readers' behaviour on
  bytes no writer produces (truncation, lead bytes that overrun the buffer) is stated
  separately.
\<close>

section \<open>Definitions\<close>

definition intByteExtra :: "nat list" where
  "intByteExtra =
    [0, 0, 0, 0, 0, 0, 0, 0, 0, 0, 0, 0, 0, 0, 0, 0,
     0, 0, 0, 0, 0, 0, 0, 0, 0, 0, 0, 0, 0, 0, 0, 0,
     1, 1, 1, 1, 1, 1, 1, 1, 1, 1, 1, 1, 1, 1, 1, 1,
     2, 2, 2, 2, 2, 2, 2, 2, 3, 3, 3, 3, 4, 4, 5, 6]"

subsection \<open>Fixed-width integers\<close>

definition WriteInt32 :: "i32 \<Rightarrow> byte list" where
  "WriteInt32 v = le_bytes 4 v"

definition ReadInt32 :: "(src, i32) io" where
  "ReadInt32 = bnd (readFull 4) (\<lambda>b. ret (le_word b))"

definition WriteUint32 :: "u32 \<Rightarrow> byte list" where
  "WriteUint32 v = le_bytes 4 v"

definition ReadUint32 :: "(src, u32) io" where
  "ReadUint32 = bnd (readFull 4) (\<lambda>b. ret (le_word b))"

definition WriteUint16 :: "u16 \<Rightarrow> byte list" where
  "WriteUint16 v = [ucast v, ucast (drop_bit 8 v)]"

definition ReadUint16 :: "(src, u16) io" where
  "ReadUint16 = bnd (readFull 2) (\<lambda>b. ret (ucast (b ! 0) OR push_bit 8 (ucast (b ! 1))))"

subsection \<open>varint and varlong\<close>

text \<open>\<^verbatim>\<open>for cnt > min && b[cnt] == 0 { cnt-- }\<close>, the loop both writers open with.\<close>

fun trimZeros :: "byte list \<Rightarrow> nat \<Rightarrow> nat \<Rightarrow> nat" where
  "trimZeros b m 0 = 0"
| "trimZeros b m (Suc cnt) = (if m < Suc cnt \<and> b ! Suc cnt = 0 then trimZeros b m cnt else Suc cnt)"

definition WriteVarint :: "i32 \<Rightarrow> byte list" where
  "WriteVarint x =
    (let b = 0 # le_bytes 4 x;
         cnt = trimZeros b 1 4;
         bit = push_bit (7 + 1 - cnt) 1 :: byte
     in if bit \<le> b ! cnt then take (cnt + 1) (b[0 := NOT (bit - 1)])
        else if 1 < cnt then take cnt (b[0 := (b ! cnt) OR NOT (bit * 2 - 1)])
        else take cnt (b[0 := b ! 1]))"

text \<open>
  The buffer \<^verbatim>\<open>u\<close> has five bytes: \<^verbatim>\<open>u[:extra]\<close> panics for six extra bytes before anything
  more is read, \<^verbatim>\<open>u[extra]\<close> panics for five after they were.
\<close>

definition ReadVarint :: "(src, i32) io" where
  "ReadVarint =
    bnd readByte (\<lambda>ch.
      let extra = intByteExtra ! unat (ch div 4)
      in if 0 < extra then
           (if 5 < extra then fail (Panic ''slice bounds out of range'')
            else bnd (readFull extra) (\<lambda>d.
              let u = d @ replicate (5 - extra) 0;
                  bit = push_bit (8 - extra) 1 :: byte
              in if 5 \<le> extra then fail (Panic ''index out of range'')
                 else ret (le_word (take 4 (u[extra := ch AND (bit - 1)])))))
         else ret (le_word (take 4 (ch # replicate 4 0))))"

text \<open>
  \<open>minBytes\<close> is 3 or 4 at every call of the code. The shift count is
  \<^verbatim>\<open>7 - cnt + minBytes\<close>.
\<close>

definition WriteVarlong :: "i64 \<Rightarrow> nat \<Rightarrow> byte list" where
  "WriteVarlong x minBytes =
    (let b = 0 # le_bytes 8 x;
         cnt = trimZeros b minBytes 8;
         bit = push_bit (7 + minBytes - cnt) 1 :: byte
     in if bit \<le> b ! cnt then take (cnt + 1) (b[0 := NOT (bit - 1)])
        else if minBytes < cnt then take cnt (b[0 := (b ! cnt) OR NOT (bit * 2 - 1)])
        else take cnt (b[0 := b ! cnt]))"

text \<open>Go's \<^verbatim>\<open>copy(u[i:], xs)\<close>: as many bytes as fit.\<close>

definition copyAt :: "nat \<Rightarrow> byte list \<Rightarrow> byte list \<Rightarrow> byte list" where
  "copyAt i xs u = take i u @ take (length u - i) xs @ drop (i + length xs) u"

definition ReadVarlong :: "nat \<Rightarrow> (src, i64) io" where
  "ReadVarlong minBytes =
    bnd (readFull minBytes) (\<lambda>b2.
      if minBytes = 0 then fail (Panic ''index out of range'') else
      let extra = intByteExtra ! unat ((b2 ! 0) div 4);
          u = copyAt 0 (drop 1 b2) (replicate 9 0)
      in if 0 < extra then
           bnd (readFull extra) (\<lambda>buf.
             let u = copyAt (minBytes - 1) buf u;
                 bit = push_bit (8 - extra) 1 :: byte
             in if 9 \<le> minBytes + extra - 1 then fail (Panic ''index out of range'')
                else ret (le_word (take 8 (u[minBytes + extra - 1 := (b2 ! 0) AND (bit - 1)]))))
         else if 9 \<le> minBytes - 1 then fail (Panic ''index out of range'')
         else ret (le_word (take 8 (u[minBytes - 1 := b2 ! 0]))))"

subsection \<open>The legacy longint\<close>

definition WriteLongInt :: "i64 \<Rightarrow> byte list" where
  "WriteLongInt x =
    (if 0 \<le> sint x \<and> sint x \<le> 0x7FFFFFFF then le_bytes 4 (ucast x :: u32)
     else [0xFF, 0xFF, 0xFF, 0xFF] @ le_bytes 8 x)"

definition ReadLongInt :: "(src, i64) io" where
  "ReadLongInt =
    bnd (readFull 4) (\<lambda>b.
      let val32 = le_word b :: i32
      in if val32 \<noteq> -1 then ret (scast val32)
         else bnd (readFull 8) (\<lambda>b64. ret (le_word b64)))"

section \<open>The lead byte\<close>

abbreviation extraOf :: "byte \<Rightarrow> nat" where
  "extraOf c \<equiv> intByteExtra ! unat (c div 4)"

lemma lead_full:
  assumes "j \<le> 5"
  shows "extraOf (NOT (push_bit (7 - j) 1 - 1)) = Suc j \<and>
         NOT (push_bit (7 - j) 1 - 1 :: byte) AND (push_bit (7 - j) 1 - 1) = 0"
proof -
  have "list_all (\<lambda>j. extraOf (NOT (push_bit (7 - j) 1 - 1)) = Suc j \<and>
         NOT (push_bit (7 - j) 1 - 1 :: byte) AND (push_bit (7 - j) 1 - 1) = 0) [0..<6]"
    by code_simp
  with assms show ?thesis by (simp add: list_all_iff)
qed

lemma lead_shared:
  assumes "1 \<le> j" and "j \<le> 5" and "c < push_bit (7 - j) (1 :: byte)"
  shows "extraOf (c OR NOT (push_bit (7 - j) 1 * 2 - 1)) = j \<and>
         (c OR NOT (push_bit (7 - j) 1 * 2 - 1)) AND (push_bit (8 - j) 1 - 1) = c"
proof -
  have "list_all (\<lambda>j. list_all (\<lambda>n. let c = word_of_nat n :: byte in c < push_bit (7 - j) 1 \<longrightarrow>
           extraOf (c OR NOT (push_bit (7 - j) 1 * 2 - 1)) = j \<and>
           (c OR NOT (push_bit (7 - j) 1 * 2 - 1)) AND (push_bit (8 - j) 1 - 1) = c) [0..<64]) [1..<6]"
    by code_simp
  moreover have "unat c < 64"
  proof -
    from assms(1,2) consider "j = 1" | "j = 2" | "j = 3" | "j = 4" | "j = 5" by linarith
    then show ?thesis using assms(3) by cases (simp_all add: word_less_nat_alt)
  qed
  moreover have "j \<in> set [1..<6]" using assms(1,2) by auto
  ultimately have "let c = word_of_nat (unat c) :: byte in c < push_bit (7 - j) 1 \<longrightarrow>
           extraOf (c OR NOT (push_bit (7 - j) 1 * 2 - 1)) = j \<and>
           (c OR NOT (push_bit (7 - j) 1 * 2 - 1)) AND (push_bit (8 - j) 1 - 1) = c"
    unfolding list_all_iff by (elim ballE [of _ _ j] ballE [of _ _ "unat c"]) simp_all
  with assms(3) show ?thesis by simp
qed

lemma lead_plain:
  assumes "c < push_bit 7 (1 :: byte)"
  shows "extraOf c = 0"
proof -
  have "list_all (\<lambda>n. intByteExtra ! n = 0) [0..<32]"
    by code_simp
  moreover have "unat (c div 4) < 32"
    using assms by (simp add: word_less_nat_alt unat_div)
  ultimately show ?thesis by (simp add: list_all_iff)
qed

text \<open>The common shape of both writers, over the little-endian bytes \<open>ws\<close> of the value.\<close>

definition var_wire :: "nat \<Rightarrow> byte list \<Rightarrow> byte list" where
  "var_wire m ws =
    (let b = 0 # ws;
         cnt = trimZeros b m (length ws);
         bit = push_bit (7 + m - cnt) 1 :: byte
     in if bit \<le> b ! cnt then take (cnt + 1) (b[0 := NOT (bit - 1)])
        else if m < cnt then take cnt (b[0 := (b ! cnt) OR NOT (bit * 2 - 1)])
        else take cnt (b[0 := b ! cnt]))"

lemma WriteVarlong_wire: "WriteVarlong x m = var_wire m (le_bytes 8 x)"
  by (simp add: WriteVarlong_def var_wire_def)

lemma trimZeros_bounds: "m \<le> c \<Longrightarrow> m \<le> trimZeros b m c \<and> trimZeros b m c \<le> c"
  by (induction c) auto

lemma trimZeros_zero: "trimZeros b m c < i \<Longrightarrow> i \<le> c \<Longrightarrow> b ! i = 0"
proof (induction c)
  case (Suc c)
  then show ?case by (cases "i = Suc c") (auto split: if_splits)
qed simp

lemma WriteVarint_wire: "WriteVarint x = var_wire 1 (le_bytes 4 x)"
proof -
  let ?b = "0 # le_bytes 4 x"
  have "1 \<le> trimZeros ?b 1 4" using trimZeros_bounds [of 1 4] by simp
  then consider "trimZeros ?b 1 4 = 1" | "1 < trimZeros ?b 1 4" by linarith
  then show ?thesis by cases (simp_all add: WriteVarint_def var_wire_def Let_def)
qed

text \<open>
  What the lead byte says: \<open>extraOf\<close> is the number of extra bytes, the value's bytes follow
  in order, and its low bits are the last one.
\<close>

lemma var_wire_shape:
  assumes "1 \<le> m" and "m \<le> length ws" and "length ws \<le> m + 5"
  shows "\<exists>lead n. var_wire m ws = lead # take n ws \<and> n = m - 1 + extraOf lead \<and>
    extraOf lead \<le> Suc (length ws - m) \<and> n \<le> length ws \<and>
    take n ws @ (lead AND (push_bit (8 - extraOf lead) 1 - 1)) # replicate (length ws - n) 0 = ws @ [0]"
    (is "\<exists>lead n. ?P lead n")
proof -
  let ?b = "0 # ws"
  define cnt where "cnt = trimZeros ?b m (length ws)"
  define j where "j = cnt - m"
  have cnt: "m \<le> cnt" "cnt \<le> length ws"
    using trimZeros_bounds [OF assms(2)] by (auto simp: cnt_def)
  have j: "cnt = m + j" "j \<le> 5" "7 + m - cnt = 7 - j"
    using cnt assms by (auto simp: j_def)
  have zero: "ws ! i = 0" if "cnt \<le> i" "i < length ws" for i
    using trimZeros_zero [of ?b m "length ws" "Suc i"] that by (simp add: cnt_def)
  have "ws = take cnt ws @ replicate (length ws - cnt) 0"
    using cnt zero by (intro nth_equalityI) (auto simp: nth_append)
  then have tail: "take cnt ws @ 0 # replicate (length ws - cnt) 0 = ws @ [0]"
    by (metis append_assoc append_Cons append_Nil replicate_append_same)
  let ?bit = "push_bit (7 - j) 1 :: byte"
  have last: "?b ! cnt = ws ! (cnt - 1)" using cnt assms(1) by (cases cnt) auto
  have snoc: "take cnt ws = take (cnt - 1) ws @ [ws ! (cnt - 1)]"
    using cnt assms(1) by (cases cnt) (auto simp: take_Suc_conv_app_nth)
  have tail1: "take (cnt - 1) ws @ ws ! (cnt - 1) # replicate (length ws - (cnt - 1)) 0 = ws @ [0]"
    using tail snoc cnt assms(1) by (simp add: Suc_diff_le flip: replicate_Suc)
  have wire: "var_wire m ws =
     (if ?bit \<le> ?b ! cnt then take (cnt + 1) (?b[0 := NOT (?bit - 1)])
      else if 0 < j then take cnt (?b[0 := (?b ! cnt) OR NOT (?bit * 2 - 1)])
      else take cnt (?b[0 := ?b ! cnt]))"
    unfolding var_wire_def Let_def cnt_def [symmetric] j(3) by (simp add: j)
  consider (full) "?bit \<le> ?b ! cnt" | (shared) "\<not> ?bit \<le> ?b ! cnt" "0 < j" | (plain) "\<not> ?bit \<le> ?b ! cnt" "j = 0"
    by blast
  then show ?thesis
  proof cases
    case full
    let ?L = "NOT (?bit - 1)"
    note L = lead_full [OF j(2)]
    from tail L full j cnt assms(1) have "?P ?L cnt"
      by (simp add: wire)
    then show ?thesis by blast
  next
    case shared
    let ?L = "(?b ! cnt) OR NOT (?bit * 2 - 1)"
    have L: "extraOf ?L = j \<and> ?L AND (push_bit (8 - j) 1 - 1) = ?b ! cnt"
      using shared j by (intro lead_shared) auto
    note tail1
    moreover have "take cnt (?b[0 := ?L]) = ?L # take (cnt - 1) ws"
      using cnt assms(1) by (cases cnt) auto
    moreover have "j \<le> Suc (length ws - m)" "cnt - 1 \<le> length ws" using j cnt by linarith+
    ultimately have "?P ?L (cnt - 1)"
      using L shared j cnt assms(1) last by (simp add: wire)
    then show ?thesis by blast
  next
    case plain
    let ?L = "?b ! cnt"
    have L: "extraOf ?L = 0"
      using plain by (intro lead_plain) auto
    note tail1
    moreover have "take cnt (?b[0 := ?L]) = ?L # take (cnt - 1) ws"
      using cnt assms(1) by (cases cnt) auto
    moreover have "?L AND (push_bit 8 1 - 1) = ?L" by (simp add: byte_and_255)
    ultimately have "?P ?L (cnt - 1)"
      using L plain j cnt assms(1) last by (simp add: wire)
    then show ?thesis by blast
  qed
qed


lemma ReadVarint_wire:
  assumes "length ws = 4"
  shows "ReadVarint (Src (var_wire 1 ws @ rest) e) = (Inr (le_word ws), Src rest e)"
proof -
  obtain lead n where wire: "var_wire 1 ws = lead # take n ws" and n: "n = extraOf lead" "n \<le> 4"
    and ws: "take n ws @ (lead AND (push_bit (8 - n) 1 - 1)) # replicate (4 - n) 0 = ws @ [0]"
    using var_wire_shape [of 1 ws] assms by auto
  show ?thesis
  proof (cases "n = 0")
    case True
    then have "take 4 (lead # replicate 4 0) = ws"
      using ws assms by (simp add: byte_and_255)
    with True n show ?thesis unfolding wire by (simp add: ReadVarint_def bnd_def)
  next
    case False
    have "take 4 (take n ws @ (lead AND (push_bit (8 - n) 1 - 1)) # replicate (4 - n) 0) = ws"
      by (simp only: ws) (simp add: assms)
    moreover have "readFull n (Src (take n ws @ rest) e) = (Inr (take n ws), Src rest e)"
      using n assms by simp
    ultimately show ?thesis
      unfolding wire using False n assms
      by (simp add: ReadVarint_def bnd_def pad_update Let_def del: readFull.simps)
  qed
qed

lemma ReadVarlong_wire:
  assumes "length ws = 8" and "3 \<le> m" and "m \<le> 8"
  shows "ReadVarlong m (Src (var_wire m ws @ rest) e) = (Inr (le_word ws), Src rest e)"
proof -
  obtain lead n where wire: "var_wire m ws = lead # take n ws" and n: "n = m - 1 + extraOf lead" "n \<le> 8"
    and ws: "take n ws @ (lead AND (push_bit (8 - extraOf lead) 1 - 1)) # replicate (8 - n) 0 = ws @ [0]"
    using var_wire_shape [of m ws] assms by auto
  let ?x = "extraOf lead"
  let ?last = "lead AND (push_bit (8 - ?x) 1 - 1)"
  let ?u = "take (m - 1) ws @ replicate (10 - m) 0"
  have split: "take n ws = take (m - 1) ws @ drop (m - 1) (take n ws)"
    using n by (metis append_take_drop_id le_add1 min.absorb1 take_take)
  have first: "readFull m (Src (var_wire m ws @ rest) e) =
      (Inr (lead # take (m - 1) ws), Src (drop (m - 1) (take n ws) @ rest) e)"
  proof -
    have "(lead # take n ws) @ rest = (lead # take (m - 1) ws) @ drop (m - 1) (take n ws) @ rest"
      using split by (metis append_Cons append_assoc)
    moreover have "m = length (lead # take (m - 1) ws)" using assms by simp
    ultimately show ?thesis unfolding wire by (simp only: readFull_append)
  qed
  have u0: "copyAt 0 (take (m - 1) ws) (replicate 9 0) = ?u"
    using assms by (simp add: copyAt_def)
  have u1: "copyAt (m - 1) (drop (m - 1) (take n ws)) ?u = take n ws @ replicate (9 - n) 0"
    using assms n split by (simp add: copyAt_def min_def)
  have tail: "take 8 (take n ws @ ?last # replicate (8 - n) 0) = ws"
    by (simp only: ws) (simp add: assms)
  show ?thesis
  proof (cases "?x = 0")
    case True
    then have "take 8 (?u[m - 1 := lead]) = ws"
      using tail n assms by (simp add: pad_update byte_and_255)
    moreover have "\<not> 9 \<le> m - 1" "drop (m - 1) (take n ws) = []" using True n assms by auto
    ultimately show ?thesis using True first assms u0
      by (simp add: ReadVarlong_def bnd_def Let_def del: readFull.simps)
  next
    case False
    have "readFull ?x (Src (drop (m - 1) (take n ws) @ rest) e) = (Inr (drop (m - 1) (take n ws)), Src rest e)"
      using n assms by (intro readFull_append) simp
    moreover have "take 8 ((take n ws @ replicate (9 - n) 0)[m + ?x - 1 := ?last]) = ws"
      using tail n assms by (simp add: pad_update)
    moreover have "\<not> 9 \<le> m + ?x - 1" using n assms by simp
    ultimately show ?thesis using False first assms u0 u1
      by (simp add: ReadVarlong_def bnd_def Let_def del: readFull.simps)
  qed
qed

section \<open>Round trips\<close>

lemma ReadInt32_WriteInt32 [codec_simps]:
  "ReadInt32 (Src (WriteInt32 v @ rest) e) = (Inr v, Src rest e)"
  by (simp add: ReadInt32_def WriteInt32_def bnd_def)

lemma ReadUint32_WriteUint32 [codec_simps]:
  "ReadUint32 (Src (WriteUint32 v @ rest) e) = (Inr v, Src rest e)"
  by (simp add: ReadUint32_def WriteUint32_def bnd_def)

lemma ReadUint16_WriteUint16 [codec_simps]:
  "ReadUint16 (Src (WriteUint16 v @ rest) e) = (Inr v, Src rest e)"
proof -
  have "ucast (ucast v :: byte) OR push_bit 8 (ucast (ucast (drop_bit 8 v) :: byte)) = v"
    by (rule bit_word_eqI) (auto simp: bit_simps)
  then show ?thesis by (simp add: ReadUint16_def WriteUint16_def bnd_def)
qed

lemma ReadVarint_WriteVarint [codec_simps]:
  "ReadVarint (Src (WriteVarint x @ rest) e) = (Inr x, Src rest e)"
  by (simp only: WriteVarint_wire ReadVarint_wire length_le_bytes le_word_bytes_32)

lemma ReadVarlong_WriteVarlong [codec_simps]:
  "3 \<le> m \<Longrightarrow> m \<le> 8 \<Longrightarrow> ReadVarlong m (Src (WriteVarlong x m @ rest) e) = (Inr x, Src rest e)"
  by (simp only: WriteVarlong_wire ReadVarlong_wire length_le_bytes le_word_bytes_64)

lemma small_nonneg_word:
  assumes "0 \<le> sint (x :: i64)" and "sint x \<le> 0x7FFFFFFF"
  shows "scast (ucast x :: i32) = x" and "(ucast x :: i32) \<noteq> -1"
proof -
  have u: "uint x = sint x"
    using assms by (simp add: uint_sint take_bit_int_eq_self)
  then have "uint (ucast x :: i32) = sint x"
    using assms by (simp add: unsigned_ucast_eq take_bit_int_eq_self)
  then have s: "sint (ucast x :: i32) = sint x"
    using assms by (subst sint_uint) (simp add: signed_take_bit_int_eq_self)
  then have "word_of_int (sint (ucast x :: i32)) = x"
    by simp
  then show "scast (ucast x :: i32) = x"
    by (simp only: scast_eq)
  show "(ucast x :: i32) \<noteq> -1"
    using s assms(1) by auto
qed

lemma ReadLongInt_WriteLongInt [codec_simps]:
  "ReadLongInt (Src (WriteLongInt x @ rest) e) = (Inr x, Src rest e)"
proof (cases "0 \<le> sint x \<and> sint x \<le> 0x7FFFFFFF")
  case True
  then show ?thesis
    using small_nonneg_word [of x] by (simp add: ReadLongInt_def WriteLongInt_def bnd_def Let_def)
next
  case False
  have "(le_word [0xFF, 0xFF, 0xFF, 0xFF] :: i32) = -1" by simp
  moreover from False have "WriteLongInt x = [0xFF, 0xFF, 0xFF, 0xFF] @ le_bytes 8 x"
    by (simp only: WriteLongInt_def if_False)
  ultimately show ?thesis by (simp add: ReadLongInt_def bnd_def Let_def)
qed

text \<open>None of the readers takes more than it needs.\<close>

lemma streaming_ints [streaming_intros]:
  "streaming ReadInt32" "streaming ReadUint32" "streaming ReadUint16" "streaming ReadVarint"
  "streaming (ReadVarlong m)" "streaming ReadLongInt"
  unfolding ReadInt32_def ReadUint32_def ReadUint16_def ReadVarint_def ReadVarlong_def ReadLongInt_def Let_def
  by (intro streaming_intros)+

lemma consumes_ints: "consumes ReadInt32" "consumes ReadVarint"
  unfolding ReadInt32_def ReadVarint_def Let_def
  by (intro consumes_bnd consumes_readFull consumes_readByte streaming_intros; simp)+

interpretation int32: strict_codec WriteInt32 ReadInt32 "\<lambda>_. True"
  by unfold_locales (simp_all add: codec_simps streaming_intros)

interpretation uint32: strict_codec WriteUint32 ReadUint32 "\<lambda>_. True"
  by unfold_locales (simp_all add: codec_simps streaming_intros)

interpretation uint16: strict_codec WriteUint16 ReadUint16 "\<lambda>_. True"
  by unfold_locales (simp_all add: codec_simps streaming_intros)

interpretation varint: strict_codec WriteVarint ReadVarint "\<lambda>_. True"
  by unfold_locales (simp_all add: codec_simps streaming_intros)

interpretation varlong3: strict_codec "\<lambda>x. WriteVarlong x 3" "ReadVarlong 3" "\<lambda>_. True"
  by unfold_locales (simp_all add: codec_simps streaming_intros)

interpretation varlong4: strict_codec "\<lambda>x. WriteVarlong x 4" "ReadVarlong 4" "\<lambda>_. True"
  by unfold_locales (simp_all add: codec_simps streaming_intros)

interpretation longint: strict_codec WriteLongInt ReadLongInt "\<lambda>_. True"
  by unfold_locales (simp_all add: codec_simps streaming_intros)

text \<open>The same round trips in the form the larger formats compose.\<close>

lemmas reads_ints [reads_intros] =
  int32.reads_enc [OF TrueI] uint32.reads_enc [OF TrueI] uint16.reads_enc [OF TrueI]
  varint.reads_enc [OF TrueI] varlong3.reads_enc [OF TrueI] varlong4.reads_enc [OF TrueI]
  longint.reads_enc [OF TrueI]

section \<open>Sizes\<close>

lemma length_var_wire:
  assumes "1 \<le> m" and "m \<le> length ws" and "length ws \<le> m + 5"
  shows "m \<le> length (var_wire m ws) \<and> length (var_wire m ws) \<le> Suc (length ws)"
  using var_wire_shape [OF assms] assms by auto

lemma length_WriteVarint: "1 \<le> length (WriteVarint x) \<and> length (WriteVarint x) \<le> 5"
  using length_var_wire [of 1 "le_bytes 4 x"] by (simp add: WriteVarint_wire)

lemma length_WriteVarlong: "3 \<le> m \<Longrightarrow> m \<le> 8 \<Longrightarrow> m \<le> length (WriteVarlong x m) \<and> length (WriteVarlong x m) \<le> 9"
  using length_var_wire [of m "le_bytes 8 x"] by (simp add: WriteVarlong_wire)

lemma WriteVarint_small:
  assumes "x < 128"
  shows "WriteVarint x = [ucast x]"
proof -
  from assms have "drop_bit 8 x = 0"
    by (simp add: drop_bit_eq_div word_arith_nat_div word_less_nat_alt)
  then have "le_bytes 4 x = [ucast x, 0, 0, 0]"
    by (simp add: numeral_eq_Suc)
  moreover have "\<not> push_bit 7 1 \<le> (ucast x :: byte)"
    using assms by (simp add: word_le_nat_alt word_less_nat_alt unsigned_ucast_eq take_bit_nat_eq_self)
  ultimately show ?thesis
    by (simp add: WriteVarint_def Let_def numeral_eq_Suc)
qed

section \<open>Lead bytes that overrun the buffer\<close>

lemma extraOf_ge: "extraOf c = 6 \<longleftrightarrow> 0xFC \<le> c" "extraOf c = 5 \<longleftrightarrow> 0xF8 \<le> c \<and> c < 0xFC" "extraOf c \<le> 6"
proof -
  have "unat c < 2 ^ LENGTH(8)" by (rule unsigned_less)
  then have d: "unat (c div 4) < 64" "unat c < 256"
    by (simp_all add: unat_div)
  have "list_all (\<lambda>n. (intByteExtra ! n = 6 \<longleftrightarrow> n = 63) \<and> (intByteExtra ! n = 5 \<longleftrightarrow> n = 62) \<and> intByteExtra ! n \<le> 6) [0..<64]"
    by code_simp
  then have t: "(extraOf c = 6 \<longleftrightarrow> unat (c div 4) = 63) \<and> (extraOf c = 5 \<longleftrightarrow> unat (c div 4) = 62) \<and> extraOf c \<le> 6"
    using d by (simp add: list_all_iff)
  then show "extraOf c = 6 \<longleftrightarrow> 0xFC \<le> c" "extraOf c = 5 \<longleftrightarrow> 0xF8 \<le> c \<and> c < 0xFC" "extraOf c \<le> 6"
    using d by (auto simp: word_le_nat_alt word_less_nat_alt unat_div)
qed

text \<open>The reader panics exactly on these inputs; every other input is a value or an EOF.\<close>

lemma ReadVarint_panics_iff:
  "(\<exists>msg. fst (ReadVarint (Src bs EOF)) = Inl (Panic msg)) \<longleftrightarrow>
   (\<exists>c d. bs = c # d \<and> (0xFC \<le> c \<or> 0xF8 \<le> c \<and> 5 \<le> length d))"
proof (cases bs)
  case Nil
  then show ?thesis by (simp add: ReadVarint_def bnd_def)
next
  case (Cons c d)
  have x: "extraOf c \<le> 6" "5 < extraOf c \<longleftrightarrow> 0xFC \<le> c" "extraOf c = 5 \<longleftrightarrow> 0xF8 \<le> c \<and> c < 0xFC"
    using extraOf_ge [of c] by auto
  show ?thesis
    using x by (auto simp: Cons ReadVarint_def bnd_def Let_def not_le split: if_splits)
qed

lemma ReadVarlong3_no_panic: "fst (ReadVarlong 3 (Src bs EOF)) \<noteq> Inl (Panic msg)"
  using extraOf_ge(3) [of "bs ! 0"] by (auto simp: ReadVarlong_def bnd_def Let_def split: if_splits)

lemma ReadVarlong4_panics_iff:
  "(\<exists>msg. fst (ReadVarlong 4 (Src bs EOF)) = Inl (Panic msg)) \<longleftrightarrow> 0xFC \<le> bs ! 0 \<and> 10 \<le> length bs"
  using extraOf_ge [of "bs ! 0"] by (auto simp: ReadVarlong_def bnd_def Let_def not_le split: if_splits)

section \<open>Properties\<close>

text \<open>
  C26: every \<^verbatim>\<open>int32\<close> written as a varint takes one to five bytes, is read back unchanged
  with the reader left right behind it, and no strict prefix of it is read as a value.
\<close>

theorem varint_wire:
  "ReadVarint (Src (WriteVarint x @ rest) e) = (Inr x, Src rest e) \<and>
   length (WriteVarint x) \<in> {1..5} \<and>
   (\<forall>k<length (WriteVarint x). \<exists>err s'. ReadVarint (Src (take k (WriteVarint x)) e) = (Inl err, s'))"
proof (intro conjI allI impI)
  show "length (WriteVarint x) \<in> {1..5}" using length_WriteVarint [of x] by simp
  fix k assume "k < length (WriteVarint x)"
  then show "\<exists>err s'. ReadVarint (Src (take k (WriteVarint x)) e) = (Inl err, s')"
    by (intro varint.truncated [OF TrueI, of x _ "drop k (WriteVarint x)"]) simp_all
qed (rule ReadVarint_WriteVarint)

theorem varint_wire_witness:
  "ReadVarint (Src (WriteVarint 300 @ [7]) EOF) = (Inr 300, Src [7] EOF) \<and>
   (\<exists>err s'. ReadVarint (Src (take 1 (WriteVarint 300)) EOF) = (Inl err, s'))"
proof
  have "length (WriteVarint 300) = 2" by code_simp
  then show "\<exists>err s'. ReadVarint (Src (take 1 (WriteVarint 300)) EOF) = (Inl err, s')"
    using varint_wire [of 300 "[7]" EOF] by simp
qed (use varint_wire [of 300 "[7]" EOF] in simp)

text \<open>
  An \<^verbatim>\<open>int64\<close> written as a varlong of at least \<open>m\<close> bytes (3 to 8; the code uses 3 and
  4) takes \<open>m\<close> to nine bytes and is read back unchanged.
\<close>

theorem varlong_wire:
  assumes "3 \<le> m" and "m \<le> 8"
  shows "ReadVarlong m (Src (WriteVarlong x m @ rest) e) = (Inr x, Src rest e) \<and>
         length (WriteVarlong x m) \<in> {m..9}"
  using ReadVarlong_WriteVarlong [OF assms] length_WriteVarlong [OF assms] by simp

theorem varlong_wire_witness:
  "ReadVarlong 3 (Src (WriteVarlong (- 5) 3 @ [7]) EOF) = (Inr (- 5), Src [7] EOF)"
  using varlong_wire [of 3 "- 5" "[7]" EOF] by simp

text \<open>
  C32: a peer can make \<^verbatim>\<open>ReadVarint\<close> panic: its five-byte buffer is too short for every lead
  byte of 0xFC and above, and for 0xF8 to 0xFB once all five further bytes have come. These
  are the only inputs on which it does.
\<close>

theorem varint_panics:
  "(\<exists>msg. fst (ReadVarint (Src bs EOF)) = Inl (Panic msg)) \<longleftrightarrow>
   (\<exists>c d. bs = c # d \<and> (0xFC \<le> c \<or> 0xF8 \<le> c \<and> 5 \<le> length d))"
  by (rule ReadVarint_panics_iff)

text \<open>
  C33: \<^verbatim>\<open>ReadVarlong\<close> with a minimum of three bytes never panics; with four it does exactly
  when the lead byte is 0xFC or above and all ten bytes have come.
\<close>

theorem varlong_panics:
  "(\<forall>msg. fst (ReadVarlong 3 (Src bs EOF)) \<noteq> Inl (Panic msg)) \<and>
   ((\<exists>msg. fst (ReadVarlong 4 (Src bs EOF)) = Inl (Panic msg)) \<longleftrightarrow> 0xFC \<le> bs ! 0 \<and> 10 \<le> length bs)"
  by (simp add: ReadVarlong3_no_panic ReadVarlong4_panics_iff)

end
