(* ===== verification/Protocol_Constants.thy ===== *)
theory Protocol_Constants
  imports Rsync_Prelude
begin

text \<open>
  \<^verbatim>\<open>src/protocol/constants.go\<close>: protocol versions and the flag words. A Go \<^verbatim>\<open>int\<close> holding
  flags is a 64-bit word; \<open>has x f\<close> is the test \<^verbatim>\<open>x&f != 0\<close>, which for a one-bit flag is a
  bit of the word.
\<close>

type_synonym flags = "64 word"

definition has :: "flags \<Rightarrow> flags \<Rightarrow> bool" where
  "has x f \<longleftrightarrow> x AND f \<noteq> 0"

section \<open>Versions\<close>

definition MinProtocolVersion :: int where "MinProtocolVersion = 20"
definition OldProtocolVersion :: int where "OldProtocolVersion = 25"
definition CurrentProtocolVersion :: int where "CurrentProtocolVersion = 32"
definition MaxProtocolVersion :: int where "MaxProtocolVersion = 40"

section \<open>Compat flags\<close>

definition CompatIncRecurse :: flags where "CompatIncRecurse = push_bit 0 1"
definition CompatSymlinkTimes :: flags where "CompatSymlinkTimes = push_bit 1 1"
definition CompatSymlinkIconv :: flags where "CompatSymlinkIconv = push_bit 2 1"
definition CompatSafeFlist :: flags where "CompatSafeFlist = push_bit 3 1"
definition CompatAvoidXattrOptim :: flags where "CompatAvoidXattrOptim = push_bit 4 1"
definition CompatChksumSeedFix :: flags where "CompatChksumSeedFix = push_bit 5 1"
definition CompatInplacePartialDir :: flags where "CompatInplacePartialDir = push_bit 6 1"
definition CompatVarintFlistFlags :: flags where "CompatVarintFlistFlags = push_bit 7 1"
definition CompatId0Names :: flags where "CompatId0Names = push_bit 8 1"

section \<open>I/O error bits\<close>

definition IOERRGeneral :: flags where "IOERRGeneral = push_bit 0 1"
definition IOERRVanished :: flags where "IOERRVanished = push_bit 1 1"
definition IOERRDelLimit :: flags where "IOERRDelLimit = push_bit 2 1"
definition IOERRValidMask :: flags where "IOERRValidMask = IOERRGeneral OR IOERRVanished OR IOERRDelLimit"

section \<open>Transmit flags of a file-list entry\<close>

definition XmitTopDir :: flags where "XmitTopDir = push_bit 0 1"
definition XmitSameMode :: flags where "XmitSameMode = push_bit 1 1"
definition XmitExtendedFlags :: flags where "XmitExtendedFlags = push_bit 2 1"
definition XmitSameUID :: flags where "XmitSameUID = push_bit 3 1"
definition XmitSameGID :: flags where "XmitSameGID = push_bit 4 1"
definition XmitSameName :: flags where "XmitSameName = push_bit 5 1"
definition XmitLongName :: flags where "XmitLongName = push_bit 6 1"
definition XmitSameTime :: flags where "XmitSameTime = push_bit 7 1"
definition XmitSameRdevMajor :: flags where "XmitSameRdevMajor = push_bit 8 1"
definition XmitNoContentDir :: flags where "XmitNoContentDir = push_bit 8 1"
definition XmitHlinked :: flags where "XmitHlinked = push_bit 9 1"
definition XmitSameDevPre30 :: flags where "XmitSameDevPre30 = push_bit 10 1"
definition XmitUserNameFollows :: flags where "XmitUserNameFollows = push_bit 10 1"
definition XmitRdevMinor8Pre30 :: flags where "XmitRdevMinor8Pre30 = push_bit 11 1"
definition XmitGroupNameFollows :: flags where "XmitGroupNameFollows = push_bit 11 1"
definition XmitHlinkFirst :: flags where "XmitHlinkFirst = push_bit 12 1"
definition XmitIoErrorEndlist :: flags where "XmitIoErrorEndlist = push_bit 12 1"
definition XmitModNsec :: flags where "XmitModNsec = push_bit 13 1"
definition XmitSameAtime :: flags where "XmitSameAtime = push_bit 14 1"
definition XmitCrtimeEqMtime :: flags where "XmitCrtimeEqMtime = push_bit 17 1"

section \<open>Item flags of a selector\<close>

definition ItemReportAtime :: flags where "ItemReportAtime = push_bit 0 1"
definition ItemReportChange :: flags where "ItemReportChange = push_bit 1 1"
definition ItemReportSize :: flags where "ItemReportSize = push_bit 2 1"
definition ItemReportTime :: flags where "ItemReportTime = push_bit 3 1"
definition ItemReportPerms :: flags where "ItemReportPerms = push_bit 4 1"
definition ItemReportOwner :: flags where "ItemReportOwner = push_bit 5 1"
definition ItemReportGroup :: flags where "ItemReportGroup = push_bit 6 1"
definition ItemReportACL :: flags where "ItemReportACL = push_bit 7 1"
definition ItemReportXattr :: flags where "ItemReportXattr = push_bit 8 1"
definition ItemReportCrtime :: flags where "ItemReportCrtime = push_bit 10 1"
definition ItemBasisTypeFollows :: flags where "ItemBasisTypeFollows = push_bit 11 1"
definition ItemXnameFollows :: flags where "ItemXnameFollows = push_bit 12 1"
definition ItemIsNew :: flags where "ItemIsNew = push_bit 13 1"
definition ItemLocalChange :: flags where "ItemLocalChange = push_bit 14 1"
definition ItemTransfer :: flags where "ItemTransfer = push_bit 15 1"
definition ItemMissingData :: flags where "ItemMissingData = push_bit 16 1"
definition ItemDeleted :: flags where "ItemDeleted = push_bit 17 1"
definition ItemMatched :: flags where "ItemMatched = push_bit 18 1"

section \<open>Flags as bits\<close>

lemmas compat_defs = CompatIncRecurse_def CompatSymlinkTimes_def CompatSymlinkIconv_def
  CompatSafeFlist_def CompatAvoidXattrOptim_def CompatChksumSeedFix_def CompatInplacePartialDir_def
  CompatVarintFlistFlags_def CompatId0Names_def

lemmas xmit_defs = XmitTopDir_def XmitSameMode_def XmitExtendedFlags_def XmitSameUID_def
  XmitSameGID_def XmitSameName_def XmitLongName_def XmitSameTime_def XmitSameRdevMajor_def
  XmitNoContentDir_def XmitHlinked_def XmitSameDevPre30_def XmitUserNameFollows_def
  XmitRdevMinor8Pre30_def XmitGroupNameFollows_def XmitHlinkFirst_def XmitModNsec_def XmitSameAtime_def

lemmas item_defs = ItemBasisTypeFollows_def ItemXnameFollows_def ItemIsNew_def ItemTransfer_def
  ItemMissingData_def

lemma has_push_bit: "n < 64 \<Longrightarrow> has x (push_bit n 1) \<longleftrightarrow> bit x n"
  by (simp add: has_def and_exp_eq_0_iff_not_bit)

lemma bit_push_bit_one: "bit (push_bit n 1 :: 'a::len word) i \<longleftrightarrow> i = n \<and> n < LENGTH('a)"
  by (auto simp: bit_simps dest: bit_imp_le_length)

lemma push_bit_one_inj:
  assumes "n < 64"
  shows "(push_bit n 1 :: flags) = push_bit i 1 \<longleftrightarrow> n = i"
proof
  assume "(push_bit n 1 :: flags) = push_bit i 1"
  moreover have "bit (push_bit n 1 :: flags) n" using assms by (simp only: bit_push_bit_one) simp
  ultimately have "bit (push_bit i 1 :: flags) n" by (simp only:)
  then show "n = i" by (simp only: bit_push_bit_one)
qed simp

lemma bit_if: "bit (if P then x else y) i \<longleftrightarrow> (if P then bit x i else bit y i)"
  by simp

end
