(* ===== verification/Vstring_Args.thy ===== *)
theory Vstring_Args
  imports Wire_Ints Protocol_Constants
begin

text \<open>
  \<^verbatim>\<open>src/protocol/vstring.go\<close> and \<^verbatim>\<open>src/protocol/args.go\<close>: length-prefixed strings, the
  delimited argument list, and what the server derives from the client's arguments
  (client info, preserve flags, compat flags).
\<close>

section \<open>Definitions\<close>

subsection \<open>vstrings\<close>

definition WriteVstring :: "gostring \<Rightarrow> go_error + byte list" where
  "WriteVstring s =
    (if 0x7FFF < length s then Inl ErrShortWrite
     else Inr ((if 0x7F < length s
                then [word_of_nat (drop_bit 8 (length s)) OR 0x80, word_of_nat (length s)]
                else [word_of_nat (length s)]) @ s))"

definition ReadVstring :: "(src, gostring) io" where
  "ReadVstring =
    bnd readByte (\<lambda>b.
    bnd (if unat b AND 0x80 \<noteq> 0
         then bnd readByte (\<lambda>b'. ret (push_bit 8 (unat b AND 0x7F) OR unat b'))
         else ret (unat b))
    (\<lambda>len. if len = 0 then ret [] else readFull len))"

subsection \<open>Argument lists\<close>

text \<open>The delimiter: NUL from protocol 30 on, newline before.\<close>

definition argDelim :: "int \<Rightarrow> byte" where
  "argDelim version = (if 30 \<le> version then 0 else 10)"

text \<open>The read loop, one byte of the source per turn.\<close>

function readDelimitedArgs :: "byte \<Rightarrow> gostring list \<Rightarrow> gostring \<Rightarrow> (src, gostring list) io" where
  "readDelimitedArgs delim args current (Src [] e) = (Inl e, Src [] e)"
| "readDelimitedArgs delim args current (Src (b # bs) e) =
    (if b = delim then
       if current = [] then (Inr args, Src bs e)
       else readDelimitedArgs delim (args @ [current]) [] (Src bs e)
     else readDelimitedArgs delim args (current @ [b]) (Src bs e))"
  by pat_completeness auto
termination
  by (relation "measure (\<lambda>(delim, args, current, s). length (avail s))") auto

definition ReadArgs :: "int \<Rightarrow> (src, gostring list) io" where
  "ReadArgs version = readDelimitedArgs (argDelim version) [] []"

definition WriteArgs :: "gostring list \<Rightarrow> int \<Rightarrow> byte list" where
  "WriteArgs args version =
    (let delim = argDelim version
     in concat (map (\<lambda>arg. arg @ [delim]) args) @
        (if args = [] then [delim] else []) @ [delim])"

subsection \<open>What the arguments say\<close>

definition HasPrefix :: "gostring \<Rightarrow> gostring \<Rightarrow> bool" where
  "HasPrefix s p \<longleftrightarrow> take (length p) s = p"

definition isShortOption :: "gostring \<Rightarrow> bool" where
  "isShortOption arg \<longleftrightarrow> HasPrefix arg (str ''-'') \<and> \<not> HasPrefix arg (str ''--'')"

fun ExtractClientInfo :: "gostring list \<Rightarrow> gostring" where
  "ExtractClientInfo [] = []"
| "ExtractClientInfo (arg # args) =
    (if \<not> isShortOption arg then ExtractClientInfo args
     else case dropWhile (\<lambda>c. c \<noteq> of_char (CHR ''e'')) arg of
       _ # c # cs \<Rightarrow> c # cs
     | _ \<Rightarrow> ExtractClientInfo args)"

definition ExtractPreserveFlags :: "gostring list \<Rightarrow> bool \<times> bool \<times> bool" where
  "ExtractPreserveFlags args =
    (let opt = (\<lambda>ch. \<exists>arg\<in>set args. isShortOption arg \<and> of_char ch \<in> set arg)
     in (opt (CHR ''o''), opt (CHR ''g''), opt (CHR ''H'')))"

definition compatFlagOf :: "byte \<Rightarrow> flags option" where
  "compatFlagOf ch =
    (if ch = of_char (CHR ''i'') then Some CompatIncRecurse
     else if ch = of_char (CHR ''L'') then Some CompatSymlinkTimes
     else if ch = of_char (CHR ''s'') then Some CompatSymlinkIconv
     else if ch = of_char (CHR ''f'') then Some CompatSafeFlist
     else if ch = of_char (CHR ''x'') then Some CompatAvoidXattrOptim
     else if ch = of_char (CHR ''C'') then Some CompatChksumSeedFix
     else if ch = of_char (CHR ''I'') then Some CompatInplacePartialDir
     else if ch = of_char (CHR ''v'') then Some CompatVarintFlistFlags
     else if ch = of_char (CHR ''u'') then Some CompatId0Names
     else None)"

text \<open>One turn of the loop over \<^verbatim>\<open>clientInfo\<close>; the loop is a left fold.\<close>

definition resolveStep :: "flags \<Rightarrow> flags \<Rightarrow> byte \<Rightarrow> flags" where
  "resolveStep serverCaps fl ch =
    (case compatFlagOf ch of
       None \<Rightarrow> fl
     | Some flag \<Rightarrow> if has serverCaps flag then fl OR flag else fl)"

definition ResolveCompatFlags :: "flags \<Rightarrow> gostring \<Rightarrow> flags" where
  "ResolveCompatFlags serverCaps clientInfo = foldl (resolveStep serverCaps) 0 clientInfo"

section \<open>vstrings\<close>

lemma and_pow: "((n :: nat) AND 0x80 \<noteq> 0) \<longleftrightarrow> odd (n div 128)"
proof -
  have "push_bit 7 (1 :: nat) = 0x80" by (simp add: push_bit_eq_mult)
  then show ?thesis using bit_iff_and_push_bit_not_eq_0 [of n 7] by (simp add: bit_iff_odd)
qed

lemma and_mask7: "(n :: nat) AND 0x7F = n mod 128"
proof -
  have "mask 7 = (0x7F :: nat)" by (simp add: mask_eq_exp_minus_1)
  then show ?thesis using take_bit_eq_mask [of 7 n] by (simp add: take_bit_eq_mod)
qed

lemma and_80_small: "(unat (b :: byte) AND 0x80 \<noteq> 0) \<longleftrightarrow> 0x80 \<le> unat b"
proof -
  have "unat b < 256" using unsigned_less [of b] by simp
  then have "unat b div 128 = (if 0x80 \<le> unat b then 1 else 0)" by auto
  then show ?thesis unfolding and_pow by simp
qed

lemma vlen_high:
  assumes "k < 128"
  shows "unat (word_of_nat k OR 0x80 :: byte) = k + 128" and "(k + 128) AND 0x80 \<noteq> 0" and "(k + 128) AND 0x7F = k"
proof -
  have "(word_of_nat k :: byte) AND 0x80 = 0"
  proof -
    have "unat ((word_of_nat k :: byte) AND 0x80) = k AND 0x80"
      using assms by (simp add: unsigned_and_eq unat_of_nat)
    also have "\<dots> = 0" using and_pow [of k] assms by simp
    finally show ?thesis by (simp only: unsigned_eq_0_iff)
  qed
  then have "word_of_nat k OR 0x80 = (word_of_nat k + 0x80 :: byte)"
    by (metis disjunctive_add_eq_or)
  then show "unat (word_of_nat k OR 0x80 :: byte) = k + 128"
    using assms by (simp add: unat_word_ariths unat_of_nat)
  have "(k + 128) div 128 = 1" using assms by simp
  then show "(k + 128) AND 0x80 \<noteq> 0" unfolding and_pow by simp
  show "(k + 128) AND 0x7F = k" unfolding and_mask7 using assms by simp
qed

lemma push_or_mod: "push_bit 8 (n div 256) OR (n mod 256) = (n :: nat)"
proof -
  have "n div 256 = drop_bit 8 n" "n mod 256 = take_bit 8 n"
    by (simp_all add: drop_bit_eq_div take_bit_eq_mod)
  then show ?thesis by (simp only:) (rule bit_eqI, auto simp: bit_simps)
qed

lemma ReadVstring_WriteVstring:
  assumes "WriteVstring s = Inr bs"
  shows "ReadVstring (Src (bs @ rest) e) = (Inr s, Src rest e)"
proof -
  let ?n = "length s"
  have n: "?n \<le> 0x7FFF" using assms by (simp add: WriteVstring_def split: if_splits)
  have body: "(if ?n = 0 then ret [] else readFull ?n) (Src (s @ rest) e) = (Inr s, Src rest e)"
    by (cases s) (simp_all add: readFull_append)
  show ?thesis
  proof (cases "0x7F < ?n")
    case True
    let ?k = "?n div 256"
    have k: "?k < 128" using n by simp
    have "bs = [word_of_nat ?k OR 0x80, word_of_nat ?n] @ s"
      using assms n True by (auto simp: WriteVstring_def drop_bit_eq_div)
    moreover have "unat (word_of_nat ?n :: byte) = ?n mod 256"
      by (simp add: unat_of_nat)
    ultimately show ?thesis using body vlen_high [OF k] push_or_mod [of ?n]
      by (simp add: ReadVstring_def bnd_def del: push_bit_and readFull.simps)
  next
    case False
    then have "bs = word_of_nat ?n # s" using assms by (simp add: WriteVstring_def)
    moreover have "unat (word_of_nat ?n :: byte) = ?n" "\<not> 0x80 \<le> unat (word_of_nat ?n :: byte)"
      using False by (simp_all add: unat_of_nat)
    ultimately show ?thesis using body and_80_small [of "word_of_nat ?n"]
      by (simp add: ReadVstring_def bnd_def del: readFull.simps)
  qed
qed

lemma WriteVstring_Inr_iff: "(\<exists>bs. WriteVstring s = Inr bs) \<longleftrightarrow> length s \<le> 0x7FFF"
  by (auto simp: WriteVstring_def)

lemma streaming_ReadVstring [streaming_intros]: "streaming ReadVstring"
  unfolding ReadVstring_def by (intro streaming_intros)

interpretation vstring: strict_codec "\<lambda>s. case WriteVstring s of Inr bs \<Rightarrow> bs | Inl _ \<Rightarrow> []" ReadVstring
  "\<lambda>s. length s \<le> 0x7FFF"
proof unfold_locales
  fix s rest :: gostring and e assume "length s \<le> 0x7FFF"
  then obtain bs where "WriteVstring s = Inr bs" using WriteVstring_Inr_iff by blast
  then show "ReadVstring (Src ((case WriteVstring s of Inr bs \<Rightarrow> bs | Inl _ \<Rightarrow> []) @ rest) e) = (Inr s, Src rest e)"
    by (simp add: ReadVstring_WriteVstring)
qed (rule streaming_ReadVstring)

section \<open>Argument lists\<close>

definition arg_ok :: "int \<Rightarrow> gostring \<Rightarrow> bool" where
  "arg_ok version arg \<longleftrightarrow> arg \<noteq> [] \<and> argDelim version \<notin> set arg"

lemma readDelimitedArgs_word:
  "delim \<notin> set arg \<Longrightarrow> current @ arg \<noteq> [] \<Longrightarrow>
   readDelimitedArgs delim args current (Src (arg @ delim # rest) e) =
   readDelimitedArgs delim (args @ [current @ arg]) [] (Src rest e)"
  by (induction arg arbitrary: current) auto

lemma readDelimitedArgs_words:
  "(\<forall>arg\<in>set ws. arg \<noteq> [] \<and> delim \<notin> set arg) \<Longrightarrow>
   readDelimitedArgs delim args [] (Src (concat (map (\<lambda>arg. arg @ [delim]) ws) @ delim # rest) e) =
   (Inr (args @ ws), Src rest e)"
  by (induction ws arbitrary: args) (simp_all add: readDelimitedArgs_word)

lemma ReadArgs_WriteArgs:
  assumes "args \<noteq> []" and "\<forall>arg\<in>set args. arg_ok version arg"
  shows "ReadArgs version (Src (WriteArgs args version @ rest) e) = (Inr args, Src rest e)"
  using assms readDelimitedArgs_words [of args "argDelim version" "[]" rest e]
  by (simp add: ReadArgs_def WriteArgs_def Let_def arg_ok_def)

text \<open>
  An empty list is written as two delimiters and read back after the first: one delimiter
  is left in the stream.
\<close>

lemma ReadArgs_WriteArgs_empty:
  "ReadArgs version (Src (WriteArgs [] version @ rest) e) = (Inr [], Src (argDelim version # rest) e)"
  by (simp add: ReadArgs_def WriteArgs_def Let_def)

text \<open>Whatever the peer sends, no argument is empty or holds the delimiter.\<close>

lemma readDelimitedArgs_sound:
  "readDelimitedArgs delim args current s = (Inr out, s') \<Longrightarrow>
   \<forall>a\<in>set args. a \<noteq> [] \<and> delim \<notin> set a \<Longrightarrow> delim \<notin> set current \<Longrightarrow>
   (\<forall>a\<in>set out. a \<noteq> [] \<and> delim \<notin> set a) \<and> length (avail s') < length (avail s)"
proof (induction delim args current s rule: readDelimitedArgs.induct)
  case (2 delim args current b bs e)
  then show ?case by (fastforce split: if_splits)
qed simp

lemma ReadArgs_sound:
  "ReadArgs version s = (Inr out, s') \<Longrightarrow> (\<forall>a\<in>set out. arg_ok version a) \<and> length (avail s') < length (avail s)"
  using readDelimitedArgs_sound [of "argDelim version" "[]" "[]" s out s']
  by (auto simp: ReadArgs_def arg_ok_def)

section \<open>Compat flags\<close>

lemma bit_compatFlagOf:
  assumes "compatFlagOf ch = Some f"
  shows "\<exists>n<9. f = push_bit n 1"
proof -
  have "f \<in> set (map (\<lambda>n. push_bit n 1) [0..<9])"
    using assms by (auto simp: compatFlagOf_def compat_defs upt_rec split: if_splits)
  then show ?thesis by auto
qed

lemma resolve_bits:
  "bit (foldl (resolveStep caps) fl info) i \<longleftrightarrow>
   bit fl i \<or> (bit caps i \<and> (\<exists>ch\<in>set info. compatFlagOf ch = Some (push_bit i 1)))"
proof (induction info arbitrary: fl)
  case Nil
  then show ?case by simp
next
  case (Cons ch info)
  have "bit (resolveStep caps fl ch) i \<longleftrightarrow> bit fl i \<or> (bit caps i \<and> compatFlagOf ch = Some (push_bit i 1))"
  proof (cases "compatFlagOf ch")
    case (Some f)
    then obtain n where n: "n < 9" "f = push_bit n 1" using bit_compatFlagOf by blast
    then have "f = push_bit i 1 \<longleftrightarrow> n = i"
      by (simp only: push_bit_one_inj)
    with n Some show ?thesis
      by (auto simp: resolveStep_def has_push_bit bit_push_bit_one bit_or_iff simp del: push_bit_of_1)
  qed (simp add: resolveStep_def)
  then show ?case by (auto simp: Cons)
qed

lemma ResolveCompatFlags_bits:
  "bit (ResolveCompatFlags caps info) i \<longleftrightarrow>
   bit caps i \<and> (\<exists>ch\<in>set info. compatFlagOf ch = Some (push_bit i 1))"
  by (simp add: ResolveCompatFlags_def resolve_bits)

section \<open>Properties\<close>

text \<open>
  \<^verbatim>\<open>WriteVstring\<close> accepts exactly the strings of at most 0x7FFF bytes, and what it
  writes is read back unchanged.
\<close>

theorem vstring_wire:
  "(\<exists>bs. WriteVstring s = Inr bs \<and> ReadVstring (Src (bs @ rest) e) = (Inr s, Src rest e)) \<longleftrightarrow>
   length s \<le> 0x7FFF"
  using WriteVstring_Inr_iff [of s] ReadVstring_WriteVstring [of s] by blast

text \<open>
  C29: argument lists on the wire. Arguments that are not empty and free of the delimiter are
  read back unchanged, in order; the rest of the stream is untouched if there is at least one,
  while behind an empty list, which \<^verbatim>\<open>WriteArgs\<close> ends with two delimiters and \<^verbatim>\<open>ReadArgs\<close> after the
  first, one delimiter is left in front of the next message. Conversely every list \<^verbatim>\<open>ReadArgs\<close>
  returns, whatever the peer sent, has only such arguments.
\<close>

theorem args_wire:
  "((\<forall>arg\<in>set args. arg_ok version arg) \<longrightarrow>
      ReadArgs version (Src (WriteArgs args version @ rest) e) =
        (Inr args, Src (if args = [] then argDelim version # rest else rest) e)) \<and>
   (ReadArgs version s = (Inr out, s') \<longrightarrow> (\<forall>a\<in>set out. arg_ok version a))"
  using ReadArgs_WriteArgs [of args version rest e] ReadArgs_sound [of version s out s']
  by (cases "args = []") (simp_all add: ReadArgs_WriteArgs_empty)

theorem args_wire_witness:
  "ReadArgs 30 (Src (WriteArgs [str ''--server'', str ''.''] 30 @ [1]) EOF) =
     (Inr [str ''--server'', str ''.''], Src [1] EOF) \<and>
   ReadArgs 30 (Src (WriteArgs [] 30 @ [1]) EOF) = (Inr [], Src [0, 1] EOF)"
proof -
  have "\<forall>arg\<in>set [str ''--server'', str ''.'']. arg_ok 30 arg"
    by (simp add: arg_ok_def argDelim_def str_def)
  then show ?thesis
    using args_wire [of "[str ''--server'', str ''.'']" 30 "[1]" EOF] args_wire [of "[]" 30 "[1]" EOF] by (simp add: argDelim_def)
qed



end
