(* ===== verification/Go_Text.thy ===== *)
theory Go_Text
  imports Vstring_Args
begin

text \<open>
  The text functions of the Go standard library the handshake is written with: white space
  (\<^verbatim>\<open>strings.TrimSpace\<close>, \<^verbatim>\<open>strings.Fields\<close>), \<^verbatim>\<open>strings.Cut\<close>, \<^verbatim>\<open>strings.CutPrefix\<close>, \<^verbatim>\<open>strings.Join\<close>,
  decimal numbers (\<^verbatim>\<open>%d\<close>, \<^verbatim>\<open>strconv.Atoi\<close>) and \<^verbatim>\<open>base64.StdEncoding\<close>. Strings are bytes, as in
  Go; white space is \<^verbatim>\<open>unicode.IsSpace\<close> in UTF-8.
\<close>

section \<open>White space\<close>

text \<open>The UTF-8 encodings of the characters \<^verbatim>\<open>unicode.IsSpace\<close> accepts.\<close>

definition asciiSpace :: "byte \<Rightarrow> bool" where
  "asciiSpace b \<longleftrightarrow> b \<in> {9, 10, 11, 12, 13, 32}"

definition wideSpaces :: "gostring list" where
  "wideSpaces = [[0xC2, 0x85], [0xC2, 0xA0], [0xE1, 0x9A, 0x80]] @ map (\<lambda>b. [0xE2, 0x80, b]) [0x80, 0x81, 0x82, 0x83, 0x84, 0x85,
     0x86, 0x87, 0x88, 0x89, 0x8A, 0xA8, 0xA9, 0xAF] @ [[0xE2, 0x81, 0x9F], [0xE3, 0x80, 0x80]]"

text \<open>
  The length of the space a string starts with, 0 if it does not. A space never starts
  inside another character, so scanning by bytes finds the ones scanning by runes does.
\<close>

definition spaceLen :: "gostring \<Rightarrow> nat" where
  "spaceLen s =
    (case s of [] \<Rightarrow> 0
     | b # _ \<Rightarrow> if asciiSpace b then 1
               else case find (HasPrefix s) wideSpaces of Some w \<Rightarrow> length w | None \<Rightarrow> 0)"

text \<open>Trimming on the right looks for a space at the end.\<close>

definition spaceEnd :: "gostring \<Rightarrow> nat" where
  "spaceEnd s =
    (case rev s of [] \<Rightarrow> 0
     | b # _ \<Rightarrow> if asciiSpace b then 1
               else case find (\<lambda>w. HasPrefix (rev s) (rev w)) wideSpaces of Some w \<Rightarrow> length w | None \<Rightarrow> 0)"

function trimLeft :: "gostring \<Rightarrow> gostring" where
  "trimLeft s = (if spaceLen s = 0 then s else trimLeft (drop (spaceLen s) s))"
  by pat_completeness auto
termination
  by (relation "measure length") (auto simp: spaceLen_def split: list.splits)

function trimRight :: "gostring \<Rightarrow> gostring" where
  "trimRight s = (if spaceEnd s = 0 then s else trimRight (take (length s - spaceEnd s) s))"
  by pat_completeness auto
termination
proof (relation "measure length")
  fix s :: gostring assume "spaceEnd s \<noteq> 0"
  moreover from this have "0 < length s" by (auto simp: spaceEnd_def)
  ultimately show "(take (length s - spaceEnd s) s, s) \<in> measure length" by (simp del: length_greater_0_conv)
qed simp

declare trimLeft.simps [simp del] trimRight.simps [simp del]

definition TrimSpace :: "gostring \<Rightarrow> gostring" where
  "TrimSpace s = trimRight (trimLeft s)"

text \<open>\<open>cur\<close> is the field being collected.\<close>

function fieldsLoop :: "gostring \<Rightarrow> gostring \<Rightarrow> gostring list" where
  "fieldsLoop cur s =
    (if s = [] then (if cur = [] then [] else [cur])
     else if spaceLen s = 0 then fieldsLoop (cur @ [hd s]) (tl s)
     else (if cur = [] then [] else [cur]) @ fieldsLoop [] (drop (spaceLen s) s))"
  by pat_completeness auto
termination
  by (relation "measure (\<lambda>(cur, s). length s)") (auto simp: spaceLen_def split: list.splits)

declare fieldsLoop.simps [simp del]

definition Fields :: "gostring \<Rightarrow> gostring list" where
  "Fields s = fieldsLoop [] s"

section \<open>Cutting and joining\<close>

definition CutPrefix :: "gostring \<Rightarrow> gostring \<Rightarrow> gostring option" where
  "CutPrefix s p = (if HasPrefix s p then Some (drop (length p) s) else None)"

text \<open>\<^verbatim>\<open>strings.Cut\<close> at a one-byte separator; the second part is \<open>None\<close> when there is none.\<close>

definition Cut :: "gostring \<Rightarrow> byte \<Rightarrow> gostring \<times> gostring option" where
  "Cut s sep =
    (takeWhile (\<lambda>b. b \<noteq> sep) s,
     case dropWhile (\<lambda>b. b \<noteq> sep) s of [] \<Rightarrow> None | _ # r \<Rightarrow> Some r)"

fun Join :: "gostring list \<Rightarrow> gostring \<Rightarrow> gostring" where
  "Join [] sep = []"
| "Join [x] sep = x"
| "Join (x # xs) sep = x @ sep @ Join xs sep"

section \<open>Decimal numbers\<close>

fun showNat :: "nat \<Rightarrow> gostring" where
  "showNat n = (if n < 10 then [48 + word_of_nat n] else showNat (n div 10) @ [48 + word_of_nat (n mod 10)])"

declare showNat.simps [simp del]

definition showInt :: "int \<Rightarrow> gostring" where
  "showInt i = (if i < 0 then 45 # showNat (nat (- i)) else showNat (nat i))"

definition isDigit :: "byte \<Rightarrow> bool" where
  "isDigit b \<longleftrightarrow> 48 \<le> b \<and> b \<le> 57"

definition readNat :: "gostring \<Rightarrow> nat" where
  "readNat ds = foldl (\<lambda>n d. 10 * n + unat (d - 48)) 0 ds"

text \<open>\<^verbatim>\<open>strconv.Atoi\<close> on a 64-bit platform: an optional sign, at least one digit, no overflow.\<close>

definition Atoi :: "gostring \<Rightarrow> go_error + int" where
  "Atoi s =
    (let (neg, ds) = (if s \<noteq> [] \<and> hd s = 45 then (True, tl s) else if s \<noteq> [] \<and> hd s = 43 then (False, tl s) else (False, s));
         n = int (readNat ds)
     in if ds = [] \<or> \<not> list_all isDigit ds then Inl (Errorf ''invalid syntax'')
        else if neg \<and> 2 ^ 63 < n \<or> \<not> neg \<and> 2 ^ 63 \<le> n then Inl (Errorf ''value out of range'')
        else Inr (if neg then - n else n))"

section \<open>Base64\<close>

text \<open>\<^verbatim>\<open>base64.StdEncoding\<close>: the alphabet, and its inverse.\<close>

definition b64Char :: "nat \<Rightarrow> byte" where
  "b64Char n = word_of_nat (if n < 26 then 65 + n else if n < 52 then 71 + n else if n < 62 then n - 4 else if n = 62 then 43 else 47)"

definition b64Val :: "byte \<Rightarrow> nat option" where
  "b64Val c =
    (if 65 \<le> c \<and> c \<le> 90 then Some (unat c - 65)
     else if 97 \<le> c \<and> c \<le> 122 then Some (unat c - 71)
     else if 48 \<le> c \<and> c \<le> 57 then Some (unat c + 4)
     else if c = 43 then Some 62 else if c = 47 then Some 63 else None)"

fun EncodeToString :: "byte list \<Rightarrow> gostring" where
  "EncodeToString [] = []"
| "EncodeToString [a] = [b64Char (unat a div 4), b64Char (unat a mod 4 * 16), 61, 61]"
| "EncodeToString [a, b] =
    [b64Char (unat a div 4), b64Char (unat a mod 4 * 16 + unat b div 16), b64Char (unat b mod 16 * 4), 61]"
| "EncodeToString (a # b # c # r) =
    [b64Char (unat a div 4), b64Char (unat a mod 4 * 16 + unat b div 16),
     b64Char (unat b mod 16 * 4 + unat c div 64), b64Char (unat c mod 64)] @ EncodeToString r"

text \<open>
  One quantum of four characters at a time; padding ends the input. The decoder skips line
  breaks wherever they stand, and does not check the bits a padded quantum leaves over.
\<close>

fun decodeQuanta :: "gostring \<Rightarrow> byte list option" where
  "decodeQuanta [] = Some []"
| "decodeQuanta (a # b # c # d # r) =
    (case (b64Val a, b64Val b) of
       (Some x, Some y) \<Rightarrow>
         if c = 61 then (if d = 61 \<and> r = [] then Some [word_of_nat (x * 4 + y div 16)] else None)
         else (case b64Val c of
             None \<Rightarrow> None
           | Some z \<Rightarrow>
               if d = 61 then
                 (if r = [] then Some [word_of_nat (x * 4 + y div 16), word_of_nat (y mod 16 * 16 + z div 4)] else None)
               else (case (b64Val d, decodeQuanta r) of
                   (Some w, Some bs) \<Rightarrow>
                     Some ([word_of_nat (x * 4 + y div 16), word_of_nat (y mod 16 * 16 + z div 4), word_of_nat (z mod 4 * 64 + w)] @ bs)
                 | _ \<Rightarrow> None))
     | _ \<Rightarrow> None)"
| "decodeQuanta _ = None"

definition DecodeString :: "gostring \<Rightarrow> go_error + byte list" where
  "DecodeString s =
    (case decodeQuanta (filter (\<lambda>c. c \<noteq> 10 \<and> c \<noteq> 13) s) of
       Some bs \<Rightarrow> Inr bs | None \<Rightarrow> Inl (Errorf ''illegal base64 data''))"

section \<open>Facts\<close>

text \<open>Visible ASCII characters; among them nothing is trimmed or split.\<close>

definition graphic :: "byte \<Rightarrow> bool" where
  "graphic b \<longleftrightarrow> 33 \<le> b \<and> b \<le> 126"

lemma not_ascii: "graphic b \<Longrightarrow> \<not> asciiSpace b" "graphic b \<Longrightarrow> b \<noteq> 10" "graphic b \<Longrightarrow> b \<noteq> 13" "graphic b \<Longrightarrow> b \<noteq> 32"
  by (auto simp: graphic_def asciiSpace_def)

lemma wideSpaces_ends: "w \<in> set wideSpaces \<Longrightarrow> w \<noteq> [] \<and> \<not> graphic (hd w) \<and> \<not> graphic (last w)"
  by (auto simp: wideSpaces_def graphic_def)

lemma spaceLen_graphic [simp]: "graphic b \<Longrightarrow> spaceLen (b # r) = 0"
proof -
  assume g: "graphic b"
  have "\<not> HasPrefix (b # r) w" if "w \<in> set wideSpaces" for w
    using wideSpaces_ends [OF that] g by (cases w) (auto simp: HasPrefix_def)
  then have "find (HasPrefix (b # r)) wideSpaces = None" by (simp add: find_None_iff)
  with g show ?thesis by (simp add: spaceLen_def not_ascii)
qed

lemma spaceLen_blank [simp]: "spaceLen (32 # r) = 1"
  by (simp add: spaceLen_def asciiSpace_def)

lemma spaceLen_Nil [simp]: "spaceLen [] = 0"
  by (simp add: spaceLen_def)

lemma spaceEnd_graphic [simp]: "graphic b \<Longrightarrow> spaceEnd (r @ [b]) = 0"
proof -
  assume g: "graphic b"
  have "\<not> HasPrefix (b # rev r) (rev w)" if "w \<in> set wideSpaces" for w
    using wideSpaces_ends [OF that] g by (cases w rule: rev_cases) (auto simp: HasPrefix_def)
  then have "find (\<lambda>w. HasPrefix (b # rev r) (rev w)) wideSpaces = None" by (simp add: find_None_iff)
  with g show ?thesis by (simp add: spaceEnd_def not_ascii)
qed

lemma trimLeft_graphic [simp]: "graphic b \<Longrightarrow> trimLeft (b # r) = b # r"
  by (simp add: trimLeft.simps)

lemma trimRight_graphic [simp]: "graphic b \<Longrightarrow> trimRight (r @ [b]) = r @ [b]"
  by (simp add: trimRight.simps)

lemma TrimSpace_id:
  assumes "s \<noteq> []" "graphic (hd s)" "graphic (last s)"
  shows "TrimSpace s = s"
proof -
  have "trimLeft s = s" using assms by (cases s) simp_all
  moreover have "trimRight s = s" using assms by (cases s rule: rev_cases) simp_all
  ultimately show ?thesis by (simp add: TrimSpace_def)
qed

definition token :: "gostring \<Rightarrow> bool" where
  "token w \<longleftrightarrow> w \<noteq> [] \<and> list_all graphic w"

lemma fieldsLoop_word: "list_all graphic w \<Longrightarrow> fieldsLoop cur (w @ r) = fieldsLoop (cur @ w) r"
  by (induction w arbitrary: cur) (simp_all add: fieldsLoop.simps [of _ "_ # _"])

lemma fieldsLoop_blank: "fieldsLoop cur (32 # r) = (if cur = [] then [] else [cur]) @ fieldsLoop [] r"
  by (simp add: fieldsLoop.simps [of _ "_ # _"])

lemma fieldsLoop_end: "fieldsLoop cur [] = (if cur = [] then [] else [cur])"
  by (simp add: fieldsLoop.simps)

lemma Fields_Join:
  assumes "list_all token ws"
  shows "Fields (Join ws [32]) = ws" "Fields (32 # Join ws [32]) = ws"
proof -
  show f: "Fields (Join ws [32]) = ws"
    using assms unfolding Fields_def
  proof (induction ws "[32 :: byte]" rule: Join.induct)
    case (2 x)
    then show ?case using fieldsLoop_word [of x "[]" "[]"] by (simp add: token_def fieldsLoop_end)
  next
    case (3 x y xs)
    then show ?case using fieldsLoop_word [of x "[]"] by (simp add: token_def fieldsLoop_blank)
  qed (simp add: fieldsLoop_end)
  then show "Fields (32 # Join ws [32]) = ws" by (simp add: Fields_def fieldsLoop_blank)
qed

lemma CutPrefix_append [simp]: "CutPrefix (p @ s) p = Some s"
  by (simp add: CutPrefix_def HasPrefix_def)

lemma Cut_append: "sep \<notin> set a \<Longrightarrow> Cut (a @ sep # b) sep = (a, Some b)"
  by (induction a) (auto simp: Cut_def)

lemma Cut_none: "sep \<notin> set a \<Longrightarrow> Cut a sep = (a, None)"
  by (induction a) (auto simp: Cut_def)

subsection \<open>Numbers\<close>

lemma digit_cases: "k < 10 \<Longrightarrow> isDigit (48 + word_of_nat k) \<and> unat ((48 + word_of_nat k) - 48 :: byte) = k \<and> graphic (48 + word_of_nat k)"
proof -
  assume "k < 10"
  then have "unat (48 + word_of_nat k :: byte) = 48 + k" "unat (word_of_nat k :: byte) = k"
    by (simp_all add: unat_word_ariths unat_of_nat)
  with \<open>k < 10\<close> show ?thesis by (simp add: isDigit_def graphic_def word_le_nat_alt)
qed

lemma readNat_snoc: "readNat (ds @ [d]) = 10 * readNat ds + unat (d - 48)"
  by (simp add: readNat_def)

lemma showNat_props: "readNat (showNat n) = n \<and> list_all isDigit (showNat n) \<and> list_all graphic (showNat n) \<and> showNat n \<noteq> []"
proof (induction n rule: showNat.induct)
  case (1 n)
  show ?case
  proof (cases "n < 10")
    case True
    then show ?thesis using digit_cases [of n] by (simp add: showNat.simps [of n] readNat_def)
  next
    case False
    with 1 digit_cases [of "n mod 10"] show ?thesis by (simp add: showNat.simps [of n] readNat_snoc)
  qed
qed

lemma digit_not_sign: "isDigit d \<Longrightarrow> d \<noteq> 45 \<and> d \<noteq> 43 \<and> d \<noteq> 46"
  by (auto simp: isDigit_def)

lemma Atoi_showInt: "- (2 ^ 63) \<le> i \<Longrightarrow> i < 2 ^ 63 \<Longrightarrow> Atoi (showInt i) = Inr i"
proof -
  assume r: "- (2 ^ 63) \<le> i" "i < 2 ^ 63"
  note p = showNat_props [of "nat (- i)"] showNat_props [of "nat i"]
  have h: "hd (showNat n) \<noteq> 45 \<and> hd (showNat n) \<noteq> 43" for n
    using showNat_props [of n] digit_not_sign by (metis list_all_iff hd_in_set)
  show ?thesis
  proof (cases "i < 0")
    case True
    then show ?thesis using p(1) r by (simp add: Atoi_def showInt_def)
  next
    case False
    then show ?thesis using p(2) r h [of "nat i"] by (simp add: Atoi_def showInt_def)
  qed
qed

lemma showInt_token: "token (showInt i)" "46 \<notin> set (showInt i)"
proof -
  have g: "graphic 45" by (simp add: graphic_def)
  show "token (showInt i)" using showNat_props g by (simp add: token_def showInt_def)
  show "46 \<notin> set (showInt i)"
    using showNat_props digit_not_sign by (auto simp: showInt_def list_all_iff)
qed

subsection \<open>Base64\<close>

lemma b64Char_props: "n < 64 \<Longrightarrow> b64Val (b64Char n) = Some n \<and> graphic (b64Char n) \<and> b64Char n \<noteq> 61"
proof -
  have "list_all (\<lambda>n. b64Val (b64Char n) = Some n \<and> graphic (b64Char n) \<and> b64Char n \<noteq> 61) [0..<64]" by code_simp
  then show "n < 64 \<Longrightarrow> ?thesis" by (simp add: list_all_iff)
qed

text \<open>The six-bit groups of three bytes, and the bytes back.\<close>

lemma b64_groups:
  fixes a b c :: byte
  shows "unat a div 4 < 64" "unat a mod 4 * 16 < 64" "unat a mod 4 * 16 + unat b div 16 < 64"
    "unat b mod 16 * 4 < 64" "unat b mod 16 * 4 + unat c div 64 < 64" "unat c mod 64 < 64"
proof -
  have u: "unat x < 256" for x :: byte using unsigned_less [of x] by simp
  have "unat a mod 4 < 4" "unat b mod 16 < 16" by simp_all
  moreover have "unat a div 4 < 64" "unat b div 16 < 16" "unat c div 64 < 4"
    using u by (simp_all add: less_mult_imp_div_less)
  ultimately show "unat a div 4 < 64" "unat a mod 4 * 16 < 64" "unat a mod 4 * 16 + unat b div 16 < 64"
    "unat b mod 16 * 4 < 64" "unat b mod 16 * 4 + unat c div 64 < 64" "unat c mod 64 < 64" by simp_all
qed

lemma b64_bytes:
  fixes a b c :: byte
  shows "word_of_nat (unat a div 4 * 4 + (unat a mod 4 * 16 + unat b div 16) div 16) = a"
    "word_of_nat (unat a div 4 * 4 + unat a mod 4 * 16 div 16) = a"
    "word_of_nat ((unat a mod 4 * 16 + unat b div 16) mod 16 * 16 + (unat b mod 16 * 4 + unat c div 64) div 4) = b"
    "word_of_nat ((unat a mod 4 * 16 + unat b div 16) mod 16 * 16 + unat b mod 16 * 4 div 4) = b"
    "word_of_nat ((unat b mod 16 * 4 + unat c div 64) mod 4 * 64 + unat c mod 64) = c"
proof -
  have u: "unat x < 256" for x :: byte using unsigned_less [of x] by simp
  then have d: "unat b div 16 < 16" "unat c div 64 < 4" by (simp_all add: less_mult_imp_div_less)
  then have "(unat a mod 4 * 16 + unat b div 16) div 16 = unat a mod 4" "(unat a mod 4 * 16 + unat b div 16) mod 16 = unat b div 16"
    "(unat b mod 16 * 4 + unat c div 64) div 4 = unat b mod 16" "(unat b mod 16 * 4 + unat c div 64) mod 4 = unat c div 64"
    by simp_all
  then show "word_of_nat (unat a div 4 * 4 + (unat a mod 4 * 16 + unat b div 16) div 16) = a"
    "word_of_nat (unat a div 4 * 4 + unat a mod 4 * 16 div 16) = a"
    "word_of_nat ((unat a mod 4 * 16 + unat b div 16) mod 16 * 16 + (unat b mod 16 * 4 + unat c div 64) div 4) = b"
    "word_of_nat ((unat a mod 4 * 16 + unat b div 16) mod 16 * 16 + unat b mod 16 * 4 div 4) = b"
    "word_of_nat ((unat b mod 16 * 4 + unat c div 64) mod 4 * 64 + unat c mod 64) = c"
    by (simp_all del: of_nat_add of_nat_mult)
qed

lemma EncodeToString_graphic: "list_all graphic (EncodeToString bs)"
proof -
  have "graphic 61" by (simp add: graphic_def)
  then show ?thesis
    by (induction bs rule: EncodeToString.induct) (simp_all add: b64Char_props b64_groups)
qed

lemma decodeQuanta_chars:
  assumes "x < 64" "y < 64"
  shows "decodeQuanta [b64Char x, b64Char y, 61, 61] = Some [word_of_nat (x * 4 + y div 16)]"
    and "z < 64 \<Longrightarrow> decodeQuanta [b64Char x, b64Char y, b64Char z, 61] =
      Some [word_of_nat (x * 4 + y div 16), word_of_nat (y mod 16 * 16 + z div 4)]"
    and "z < 64 \<Longrightarrow> w < 64 \<Longrightarrow> decodeQuanta r = Some bs \<Longrightarrow>
      decodeQuanta ([b64Char x, b64Char y, b64Char z, b64Char w] @ r) =
      Some ([word_of_nat (x * 4 + y div 16), word_of_nat (y mod 16 * 16 + z div 4), word_of_nat (z mod 4 * 64 + w)] @ bs)"
  using assms by (simp_all add: b64Char_props)

lemma decodeQuanta_EncodeToString: "decodeQuanta (EncodeToString bs) = Some bs"
proof (induction bs rule: EncodeToString.induct)
  case (4 a b c r)
  show ?case
    unfolding EncodeToString.simps
    by (subst decodeQuanta_chars(3) [OF b64_groups(1,3,5,6) 4]) (simp only: b64_bytes append.simps)
qed (simp_all only: EncodeToString.simps decodeQuanta_chars b64_groups b64_bytes decodeQuanta.simps(1))

lemma DecodeString_EncodeToString: "DecodeString (EncodeToString bs) = Inr bs"
proof -
  have "filter (\<lambda>c. c \<noteq> 10 \<and> c \<noteq> 13) (EncodeToString bs) = EncodeToString bs"
    using EncodeToString_graphic [of bs] not_ascii by (auto simp: list_all_iff intro!: filter_True)
  then show ?thesis by (simp add: DecodeString_def decodeQuanta_EncodeToString)
qed

end
