(* ===== verification/Checksums.thy ===== *)
theory Checksums
  imports Wire_Ints
begin

text \<open>
  \<^verbatim>\<open>src/protocol/checksum.go\<close> and the rolling checksum of \<^verbatim>\<open>src/server-send.go\<close>: the weak
  checksum with its four-at-a-time loop, the seeded strong checksums, and the sum head with
  its validation. MD4 (a module outside the repository) and MD5 are parameters of the model,
  collected in the record \<open>hashes\<close>.
\<close>

section \<open>Definitions\<close>

subsection \<open>The weak checksum\<close>

text \<open>The tail loop of both functions: one byte at a time.\<close>

fun checksumTail :: "byte list \<Rightarrow> u32 \<Rightarrow> u32 \<Rightarrow> u32 \<times> u32" where
  "checksumTail [] s1 s2 = (s1, s2)"
| "checksumTail (b # bs) s1 s2 = checksumTail bs (s1 + ucast b) (s2 + (s1 + ucast b))"

text \<open>The main loop, four bytes per turn while four are left, then the tail loop.\<close>

fun checksumLoop :: "byte list \<Rightarrow> u32 \<Rightarrow> u32 \<Rightarrow> u32 \<times> u32" where
  "checksumLoop (a # b # c # d # bs) s1 s2 =
     checksumLoop bs (s1 + (ucast a + ucast b + ucast c + ucast d))
       (s2 + (4 * (s1 + ucast a) + 3 * ucast b + 2 * ucast c + ucast d))"
| "checksumLoop bs s1 s2 = checksumTail bs s1 s2"

definition Checksum1 :: "byte list \<Rightarrow> u32" where
  "Checksum1 data = (let (s1, s2) = checksumLoop data 0 0 in (s1 AND 0xffff) OR push_bit 16 s2)"

text \<open>The sender's own copy, whose loop body spells the same sum \<^verbatim>\<open>4*s1 + 4*data[i]\<close>.\<close>

fun rollingLoop :: "byte list \<Rightarrow> u32 \<Rightarrow> u32 \<Rightarrow> u32 \<times> u32" where
  "rollingLoop (a # b # c # d # bs) s1 s2 =
     rollingLoop bs (s1 + (ucast a + ucast b + ucast c + ucast d))
       (s2 + (4 * s1 + 4 * ucast a + 3 * ucast b + 2 * ucast c + ucast d))"
| "rollingLoop bs s1 s2 = checksumTail bs s1 s2"

definition rollingChecksum :: "byte list \<Rightarrow> u32 \<times> u32" where
  "rollingChecksum data = (let (s1, s2) = rollingLoop data 0 0 in (s1 AND 0xffff, s2 AND 0xffff))"

subsection \<open>The strong checksums\<close>

record hashes =
  md4 :: "byte list \<Rightarrow> byte list"
  md5 :: "byte list \<Rightarrow> byte list"

text \<open>A nil slice is the empty list.\<close>

definition Checksum2 :: "hashes \<Rightarrow> byte list \<Rightarrow> gostring \<Rightarrow> nat \<Rightarrow> i32 \<Rightarrow> bool \<Rightarrow> byte list" where
  "Checksum2 H data digest s2Length seed seedFix =
    (let seedBuf = le_bytes 4 seed;
         cut = (\<lambda>result. if s2Length < length result then take s2Length result else result)
     in if digest = str ''md4'' then
          cut (md4 H (data @ (if seed \<noteq> 0 then seedBuf else [])))
        else if digest = str ''md5'' then
          cut (md5 H ((if seed \<noteq> 0 \<and> seedFix then seedBuf else []) @ data @
                      (if seed \<noteq> 0 \<and> \<not> seedFix then seedBuf else [])))
        else [])"

definition FileChecksum :: "hashes \<Rightarrow> byte list \<Rightarrow> gostring \<Rightarrow> int \<Rightarrow> i32 \<Rightarrow> byte list" where
  "FileChecksum H data digest version seed =
    (if digest = str ''md4'' then
       md4 H ((if version < 30 \<and> seed \<noteq> 0 then le_bytes 4 seed else []) @ data)
     else if digest = str ''md5'' then md5 H data
     else [])"

definition SupportedDigests :: "gostring list" where
  "SupportedDigests = [str ''md5'', str ''md4'']"

subsection \<open>The sum head\<close>

record sum_head =
  Count :: i32
  BLength :: i32
  S2Length :: i32
  Remainder :: i32

definition WriteSumHead :: "sum_head \<Rightarrow> int \<Rightarrow> byte list" where
  "WriteSumHead sh version =
    le_bytes 4 (Count sh) @ le_bytes 4 (BLength sh) @
    (if 27 \<le> version then le_bytes 4 (S2Length sh) else []) @ le_bytes 4 (Remainder sh)"

definition maxBlockLength :: "int \<Rightarrow> i32" where
  "maxBlockLength version = (if 30 \<le> version then push_bit 17 1 else push_bit 29 1)"

definition MaxStrongHashLength :: int where
  "MaxStrongHashLength = 16"

definition ReadSumHead :: "int \<Rightarrow> (src, sum_head) io" where
  "ReadSumHead version =
    bnd (readFull (if 27 \<le> version then 16 else 12)) (\<lambda>b.
      let sh = \<lparr>Count = le_word (take 4 b), BLength = le_word (take 4 (drop 4 b)),
                S2Length = (if 27 \<le> version then le_word (take 4 (drop 8 b)) else 0),
                Remainder = (if 27 \<le> version then le_word (take 4 (drop 12 b))
                             else le_word (take 4 (drop 8 b)))\<rparr>
      in if sint (Count sh) < 0 then fail (Errorf ''invalid checksum count'')
         else if sint (BLength sh) < 0 \<or> sint (maxBlockLength version) < sint (BLength sh) then
           fail (Errorf ''invalid block length'')
         else if 0 < sint (Count sh) \<and> BLength sh = 0 then fail (Errorf ''invalid zero block length'')
         else if 0 < sint (BLength sh) \<and> 2147483647 div sint (BLength sh) < sint (Count sh) then
           fail (Errorf ''invalid checksum count (count*block length exceeds a file length)'')
         else if 27 \<le> version \<and> (sint (S2Length sh) < 0 \<or> MaxStrongHashLength < sint (S2Length sh)) then
           fail (Errorf ''invalid checksum length'')
         else ret sh)"

section \<open>The weak checksum against its definition\<close>

text \<open>The sums \<open>\<Sigma> b_i\<close> and \<open>\<Sigma> (n - i) b_i\<close> of the rsync algorithm.\<close>

definition weak1 :: "byte list \<Rightarrow> u32" where
  "weak1 bs = sum_list (map ucast bs)"

fun weak2 :: "byte list \<Rightarrow> u32" where
  "weak2 [] = 0"
| "weak2 (b # bs) = of_nat (length (b # bs)) * ucast b + weak2 bs"

lemma checksumTail_eq:
  "checksumTail bs s1 s2 = (s1 + weak1 bs, s2 + of_nat (length bs) * s1 + weak2 bs)"
  by (induction bs arbitrary: s1 s2) (simp_all add: weak1_def algebra_simps)

lemma checksumLoop_eq:
  "checksumLoop bs s1 s2 = (s1 + weak1 bs, s2 + of_nat (length bs) * s1 + weak2 bs)"
  by (induction bs s1 s2 rule: checksumLoop.induct)
    (simp_all add: checksumTail_eq weak1_def algebra_simps)

lemma rollingLoop_eq: "rollingLoop bs s1 s2 = checksumLoop bs s1 s2"
  by (induction bs s1 s2 rule: rollingLoop.induct) (simp_all add: algebra_simps)

lemma and_ffff: "w AND 0xffff = take_bit 16 (w :: u32)"
  by (simp add: take_bit_eq_mask mask_eq_exp_minus_1)

lemma Checksum1_weak: "Checksum1 data = (weak1 data AND 0xffff) OR push_bit 16 (weak2 data)"
  by (simp add: Checksum1_def checksumLoop_eq)

lemma rollingChecksum_weak: "rollingChecksum data = (weak1 data AND 0xffff, weak2 data AND 0xffff)"
  by (simp add: rollingChecksum_def rollingLoop_eq checksumLoop_eq)

lemma Checksum1_rolling:
  "Checksum1 data = fst (rollingChecksum data) OR push_bit 16 (snd (rollingChecksum data))"
  unfolding Checksum1_weak rollingChecksum_weak fst_conv snd_conv and_ffff
  by (rule bit_word_eqI) (auto simp: bit_simps)

text \<open>Sliding the window by one byte.\<close>

lemma weak1_append: "weak1 (xs @ ys) = weak1 xs + weak1 ys"
  by (simp add: weak1_def)

lemma weak2_append: "weak2 (xs @ ys) = weak2 xs + of_nat (length ys) * weak1 xs + weak2 ys"
  by (induction xs) (simp_all add: weak1_def algebra_simps)

lemma weak_roll:
  "weak1 (bs @ [c]) = weak1 (b # bs) - ucast b + ucast c"
  "weak2 (bs @ [c]) = weak2 (b # bs) - of_nat (length (b # bs)) * ucast b + weak1 (bs @ [c])"
  by (simp_all add: weak1_append weak2_append weak1_def algebra_simps)

lemma weak_shrink:
  "weak1 bs = weak1 (b # bs) - ucast b"
  "weak2 bs = weak2 (b # bs) - of_nat (length (b # bs)) * ucast b"
  by (simp_all add: weak1_def)

section \<open>The sum head\<close>

text \<open>What \<^verbatim>\<open>ReadSumHead\<close> accepts; the remainder is not among the checks.\<close>

definition sum_ok :: "int \<Rightarrow> sum_head \<Rightarrow> bool" where
  "sum_ok version sh \<longleftrightarrow>
     0 \<le> sint (Count sh) \<and> 0 \<le> sint (BLength sh) \<and> sint (BLength sh) \<le> sint (maxBlockLength version) \<and>
     (0 < sint (Count sh) \<longrightarrow> 0 < sint (BLength sh)) \<and>
     sint (Count sh) * sint (BLength sh) \<le> 2147483647 \<and>
     (27 \<le> version \<longrightarrow> 0 \<le> sint (S2Length sh) \<and> sint (S2Length sh) \<le> MaxStrongHashLength)"

definition sum_view :: "int \<Rightarrow> sum_head \<Rightarrow> sum_head" where
  "sum_view version sh = (if 27 \<le> version then sh else sh\<lparr>S2Length := 0\<rparr>)"

text \<open>The guard on the product, with Go's division, says what it means.\<close>

lemma div_guard:
  assumes "0 < (b :: int)"
  shows "m div b < c \<longleftrightarrow> m < c * b"
proof -
  have m: "m = m div b * b + m mod b" "0 \<le> m mod b" "m mod b < b"
    using assms by simp_all
  show ?thesis
  proof
    assume "m div b < c"
    then have "(m div b + 1) * b \<le> c * b" using assms by (intro mult_right_mono) auto
    then have "m div b * b + b \<le> c * b" by (simp add: distrib_right)
    then show "m < c * b" using m by linarith
  next
    assume "m < c * b"
    then have "m div b * b < c * b" using m by linarith
    then show "m div b < c" using assms by simp
  qed
qed

lemma div_guard_le: "0 < (b :: int) \<Longrightarrow> c \<le> m div b \<longleftrightarrow> c * b \<le> m"
  using div_guard [of b m c] by linarith

lemma take_le_bytes_append [simp]: "take n (le_bytes n w @ bs) = le_bytes n w" "drop n (le_bytes n w @ bs) = bs"
  by simp_all

lemma ReadSumHead_WriteSumHead:
  "\<exists>msg. ReadSumHead version (Src (WriteSumHead sh version @ rest) e) =
     (if sum_ok version sh then Inr (sum_view version sh) else Inl (Errorf msg), Src rest e)"
proof -
  let ?b = "WriteSumHead sh version"
  let ?sh = "sum_view version sh"
  have fields: "\<lparr>Count = le_word (take 4 ?b), BLength = le_word (take 4 (drop 4 ?b)),
       S2Length = (if 27 \<le> version then le_word (take 4 (drop 8 ?b)) else 0),
       Remainder = (if 27 \<le> version then le_word (take 4 (drop 12 ?b)) else le_word (take 4 (drop 8 ?b)))\<rparr> = ?sh"
    by (simp add: WriteSumHead_def sum_view_def)
  have "sum_ok version sh \<longleftrightarrow> \<not> sint (Count ?sh) < 0 \<and>
      \<not> (sint (BLength ?sh) < 0 \<or> sint (maxBlockLength version) < sint (BLength ?sh)) \<and>
      \<not> (0 < sint (Count ?sh) \<and> BLength ?sh = 0) \<and>
      \<not> (0 < sint (BLength ?sh) \<and> 2147483647 div sint (BLength ?sh) < sint (Count ?sh)) \<and>
      \<not> (27 \<le> version \<and> (sint (S2Length ?sh) < 0 \<or> MaxStrongHashLength < sint (S2Length ?sh)))"
    (is "_ \<longleftrightarrow> ?guards")
    by (cases "0 < sint (BLength sh)")
      (auto simp: sum_ok_def sum_view_def div_guard not_less signed_eq_0_iff)
  moreover have "readFull (if 27 \<le> version then 16 else 12) (Src (?b @ rest) e) = (Inr ?b, Src rest e)"
    by (rule readFull_append) (simp add: WriteSumHead_def)
  ultimately show ?thesis
    unfolding ReadSumHead_def bnd_def
    by (simp only: prod.case sum.case Let_def fields)
      (cases "sum_ok version sh"; simp only: if_True if_False ret_app fail_app de_Morgan_disj de_Morgan_conj; 
        use in \<open>auto split: if_splits\<close>)
qed

lemma streaming_ReadSumHead [streaming_intros]: "streaming (ReadSumHead version)"
  unfolding ReadSumHead_def Let_def by (intro streaming_intros)

interpretation sumhead: strict_codec "\<lambda>sh. WriteSumHead sh version" "ReadSumHead version"
  "\<lambda>sh. sum_ok version sh \<and> sum_view version sh = sh" for version
proof unfold_locales
  fix sh rest e assume "sum_ok version sh \<and> sum_view version sh = sh"
  then show "ReadSumHead version (Src (WriteSumHead sh version @ rest) e) = (Inr sh, Src rest e)"
    using ReadSumHead_WriteSumHead [of version sh rest e] by auto
qed (rule streaming_ReadSumHead)

text \<open>Whatever bytes come in, an accepted head is in range and its product fits an \<^verbatim>\<open>int32\<close>.\<close>

lemma ReadSumHead_accepts:
  assumes "ReadSumHead version s = (Inr sh, s')"
  shows "sum_ok version sh"
proof -
  obtain b t where b: "readFull (if 27 \<le> version then 16 else 12) s = (Inr b, t)"
    using assms by (auto simp: ReadSumHead_def bnd_Inr_iff)
  show ?thesis
    using assms b unfolding ReadSumHead_def bnd_def
    by (cases "0 < sint (BLength sh)")
      (auto simp: Let_def sum_ok_def div_guard_le not_less signed_eq_0_iff split: if_splits)
qed

section \<open>Properties\<close>

text \<open>
  C27: the unrolled client checksum \<^verbatim>\<open>Checksum1\<close> and the byte-at-a-time server checksum
  \<^verbatim>\<open>rollingChecksum\<close> compute the same 32-bit value, modulo wrap-around the plain sums
  \<open>\<Sum>x\<^sub>i\<close> and \<open>\<Sum>(n-i)x\<^sub>i\<close> of the bytes.
\<close>

theorem checksum1_rolling:
  "Checksum1 data = fst (rollingChecksum data) OR push_bit 16 (snd (rollingChecksum data)) \<and>
   rollingChecksum data = (weak1 data AND 0xffff, weak2 data AND 0xffff)"
  using Checksum1_rolling rollingChecksum_weak by blast

text \<open>
  C28: \<^verbatim>\<open>ReadSumHead\<close> on what \<^verbatim>\<open>WriteSumHead\<close> wrote accepts exactly the heads in range
  (\<open>sum_ok\<close>: counts and lengths bounded and the product of count and block length within
  an \<^verbatim>\<open>int32\<close>) and returns them; every head it accepts from any input is in range. The
  remainder is not part of \<open>sum_ok\<close>: it is not checked.
\<close>

theorem sumhead_wire:
  "(fst (ReadSumHead version (Src (WriteSumHead sh version @ rest) e)) = Inr (sum_view version sh) \<longleftrightarrow> sum_ok version sh) \<and>
   snd (ReadSumHead version (Src (WriteSumHead sh version @ rest) e)) = Src rest e \<and>
   (ReadSumHead version s = (Inr sh', s') \<longrightarrow> sum_ok version sh')"
  using ReadSumHead_WriteSumHead [of version sh rest e] ReadSumHead_accepts [of version s sh' s']
  by (auto split: if_splits)

theorem sumhead_wire_witness:
  "sum_ok 31 \<lparr>Count = 2, BLength = 700, S2Length = 2, Remainder = 3\<rparr>"
proof -
  have "fst (ReadSumHead 31 (Src (WriteSumHead \<lparr>Count = 2, BLength = 700, S2Length = 2, Remainder = 3\<rparr> 31 @ []) EOF)) =
      Inr (sum_view 31 \<lparr>Count = 2, BLength = 700, S2Length = 2, Remainder = 3\<rparr>)"
    by code_simp
  then show ?thesis using sumhead_wire [of 31 "\<lparr>Count = 2, BLength = 700, S2Length = 2, Remainder = 3\<rparr>" "[]" EOF] by blast
qed

end
