(* ===== verification/Greeting.thy ===== *)
theory Greeting
  imports Go_Text Checksums
begin

text \<open>
  \<^verbatim>\<open>src/protocol/greet.go\<close>: the greeting line both sides send first, and what they agree on.
\<close>

section \<open>Definitions\<close>

text \<open>\<open>Version\<close> is a Go \<^verbatim>\<open>int\<close>; no digests is the empty list.\<close>

record greeting =
  Version :: int
  SubProtocol :: byte
  Digests :: "gostring list"

definition greetPrefix :: gostring where
  "greetPrefix = str ''@RSYNCD:''"

definition ParseGreeting :: "gostring \<Rightarrow> go_error + greeting" where
  "ParseGreeting raw =
    (case CutPrefix (TrimSpace raw) greetPrefix of
       None \<Rightarrow> Inl (Errorf ''invalid greeting prefix'')
     | Some afterPrefix \<Rightarrow>
         (case Fields afterPrefix of
            [] \<Rightarrow> Inl (Errorf ''greeting missing version information'')
          | ver # digests \<Rightarrow>
              (case Cut ver 46 of (verMajor, verMinor) \<Rightarrow>
                 (case Atoi verMajor of
                    Inl err \<Rightarrow> Inl (Wrap ''invalid protocol version'' err)
                  | Inr version \<Rightarrow>
                      (case verMinor of
                         Some minor \<Rightarrow>
                           if length minor \<noteq> 1 \<or> minor ! 0 < 48 \<or> 57 < minor ! 0
                           then Inl (Errorf ''invalid subprotocol format'')
                           else Inr \<lparr>Version = version, SubProtocol = minor ! 0 - 48, Digests = digests\<rparr>
                       | None \<Rightarrow>
                           if 30 \<le> version then Inl (Errorf ''protocol version omitted the subprotocol value'')
                           else Inr \<lparr>Version = version, SubProtocol = 0, Digests = digests\<rparr>)))))"

definition ApplyDefaults :: "greeting \<Rightarrow> greeting" where
  "ApplyDefaults g =
    (let g' = (if Version g = 0 then g\<lparr>Version := CurrentProtocolVersion, SubProtocol := 0\<rparr> else g)
     in if Digests g' = [] then g'\<lparr>Digests := SupportedDigests\<rparr> else g')"

definition greetingString :: "greeting \<Rightarrow> gostring" where
  "greetingString g =
    greetPrefix @ [32] @ showInt (Version g) @ [46] @ showNat (unat (SubProtocol g)) @
    (if Digests g = [] then [] else 32 # Join (Digests g) [32]) @ [10]"

text \<open>The version two greetings agree on, before the check against the minimum.\<close>

definition negotiateVersion :: "greeting \<Rightarrow> greeting \<Rightarrow> int \<times> byte" where
  "negotiateVersion client server =
    (if Version server < Version client then
       if SubProtocol server \<noteq> 0 then (Version server - 1, 0) else (Version server, SubProtocol server)
     else if Version client = Version server then
       if SubProtocol client \<noteq> SubProtocol server then (Version client - 1, 0) else (Version client, SubProtocol client)
     else if SubProtocol client \<noteq> 0 then (Version client - 1, 0) else (Version client, SubProtocol client))"

text \<open>The labelled double loop: the first of the client's digests that the server has.\<close>

definition firstCommon :: "gostring list \<Rightarrow> gostring list \<Rightarrow> gostring" where
  "firstCommon cds sds = (case find (\<lambda>cd. cd \<in> set sds) cds of Some cd \<Rightarrow> cd | None \<Rightarrow> [])"

definition Negotiate :: "greeting \<Rightarrow> greeting \<Rightarrow> go_error + int \<times> byte \<times> gostring" where
  "Negotiate client server =
    (let (version, subProtocol) = negotiateVersion client server
     in if version < MinProtocolVersion then Inl (Errorf ''negotiated protocol version is too low'')
        else let digest = firstCommon (Digests client) (Digests server)
             in Inr (version, subProtocol,
                  if digest = [] then if 30 \<le> version then str ''md5'' else str ''md4'' else digest))"

section \<open>The line round trip\<close>

definition greeting_ok :: "greeting \<Rightarrow> bool" where
  "greeting_ok g \<longleftrightarrow> - (2 ^ 63) \<le> Version g \<and> Version g < 2 ^ 63 \<and> SubProtocol g < 10 \<and> list_all token (Digests g)"

lemma Join_Cons: "Join (x # xs) [32] = x @ (if xs = [] then [] else 32 # Join xs [32])"
  by (cases xs) simp_all

lemma Join_last_graphic: "list_all token ws \<Longrightarrow> ws \<noteq> [] \<Longrightarrow> Join ws [32] \<noteq> [] \<and> graphic (last (Join ws [32]))"
  by (induction ws "[32 :: byte]" rule: Join.induct) (auto simp: token_def list_all_iff)

lemma graphic_prefix: "graphic (hd greetPrefix)" "greetPrefix \<noteq> []"
  by (simp_all add: greetPrefix_def str_def graphic_def)

lemma showNat_digit: "n < 10 \<Longrightarrow> showNat n = [48 + word_of_nat n]"
  by (simp add: showNat.simps)

text \<open>The line without its newline, as the words it is made of.\<close>

lemma greetingString_words:
  "greetingString g = (greetPrefix @ 32 # Join ((showInt (Version g) @ [46] @ showNat (unat (SubProtocol g))) # Digests g) [32]) @ [10]"
  by (simp add: greetingString_def Join_Cons)

lemma ParseGreeting_String:
  assumes "greeting_ok g" and "line @ [10] = greetingString g"
  shows "ParseGreeting line = Inr g" "10 \<notin> set line"
proof -
  let ?v = "showInt (Version g) @ [46] @ showNat (unat (SubProtocol g))"
  let ?n = "unat (SubProtocol g)"
  have sub: "?n < 10" using assms(1) by (simp add: greeting_ok_def word_less_nat_alt)
  have tv: "token ?v" using showInt_token showNat_props [of ?n] by (simp add: token_def graphic_def)
  with assms(1) have tok: "list_all token (?v # Digests g)" by (simp add: greeting_ok_def)
  have line: "line = greetPrefix @ 32 # Join (?v # Digests g) [32]"
    using assms(2) unfolding greetingString_words by simp
  have trim: "TrimSpace line = line"
    unfolding line using Join_last_graphic [OF tok] graphic_prefix
    by (intro TrimSpace_id) (auto simp: hd_append)
  have "Fields (32 # Join (?v # Digests g) [32]) = ?v # Digests g" using Fields_Join(2) [OF tok] .
  moreover have "Cut ?v 46 = (showInt (Version g), Some [48 + SubProtocol g])"
    using Cut_append [OF showInt_token(2), of "Version g" "showNat ?n"] by (simp add: showNat_digit [OF sub])
  moreover have "isDigit (48 + SubProtocol g)" using digit_cases [OF sub] by simp
  moreover have "Atoi (showInt (Version g)) = Inr (Version g)" using assms(1) by (simp add: greeting_ok_def Atoi_showInt)
  ultimately show "ParseGreeting line = Inr g"
    by (simp add: ParseGreeting_def trim) (simp add: line isDigit_def not_less)
  have "10 \<notin> set (Join ws [32])" if "list_all token ws" for ws
    using that by (induction ws "[32 :: byte]" rule: Join.induct) (auto simp: token_def list_all_iff dest: not_ascii)
  from this [OF tok] show "10 \<notin> set line" by (auto simp: line greetPrefix_def str_def)
qed

section \<open>What is agreed on\<close>

lemma negotiateVersion_sym: "negotiateVersion client server = negotiateVersion server client"
  by (auto simp: negotiateVersion_def)

lemma firstCommon_cases:
  "firstCommon cds sds = [] \<and> set cds \<inter> set sds = {} \<or>
   (\<exists>pre post. cds = pre @ firstCommon cds sds # post \<and> firstCommon cds sds \<in> set sds \<and> set pre \<inter> set sds = {})"
proof (cases "find (\<lambda>cd. cd \<in> set sds) cds")
  case (Some d)
  have "\<exists>pre post. cds = pre @ d # post \<and> d \<in> set sds \<and> set pre \<inter> set sds = {}"
    using Some
  proof (induction cds)
    case (Cons a cds)
    show ?case
    proof (cases "a \<in> set sds")
      case True
      then show ?thesis using Cons.prems by (intro exI [of _ "[]"] exI [of _ cds]) simp
    next
      case False
      with Cons obtain pre post where "cds = pre @ d # post \<and> d \<in> set sds \<and> set pre \<inter> set sds = {}" by auto
      then show ?thesis using False by (intro exI [of _ "a # pre"] exI [of _ post]) simp
    qed
  qed simp
  with Some show ?thesis by (simp add: firstCommon_def)
next
  case None
  then have "firstCommon cds sds = []" by (simp add: firstCommon_def)
  with None show ?thesis by (auto simp: find_None_iff)
qed

text \<open>
  What a side that sends a greeting can speak: the version it names with exactly the
  sub-protocol it names, and every older version in its released form, sub-protocol 0.
\<close>

definition offers :: "greeting \<Rightarrow> int \<Rightarrow> byte \<Rightarrow> bool" where
  "offers g v s \<longleftrightarrow> v = Version g \<and> s = SubProtocol g \<or> v < Version g \<and> s = 0"

definition best_common :: "greeting \<Rightarrow> greeting \<Rightarrow> int \<Rightarrow> byte \<Rightarrow> bool" where
  "best_common a b v s \<longleftrightarrow> offers a v s \<and> offers b v s \<and> (\<forall>v' s'. offers a v' s' \<and> offers b v' s' \<longrightarrow> v' \<le> v)"

text \<open>The first of the client's digests that the server has, or the default of the version.\<close>

definition best_digest :: "gostring list \<Rightarrow> gostring list \<Rightarrow> int \<Rightarrow> gostring \<Rightarrow> bool" where
  "best_digest cds sds v d \<longleftrightarrow>
     (\<exists>pre post. cds = pre @ d # post \<and> d \<in> set sds \<and> set pre \<inter> set sds = {}) \<or>
     set cds \<inter> set sds = {} \<and> d = (if 30 \<le> v then str ''md5'' else str ''md4'')"

lemma negotiateVersion_best: "negotiateVersion client server = (v, s) \<longleftrightarrow> best_common client server v s"
proof -
  obtain v0 s0 where n: "negotiateVersion client server = (v0, s0)" by (cases "negotiateVersion client server")
  have o: "offers client v0 s0" "offers server v0 s0"
    using n by (auto simp: negotiateVersion_def offers_def split: if_splits)
  have m: "v' \<le> v0" if "offers client v' s'" "offers server v' s'" for v' s'
    using that n by (auto simp: negotiateVersion_def offers_def split: if_splits)
  have u: "s' = s''" if "offers client v' s'" "offers client v' s''" for v' s' s''
    using that by (auto simp: offers_def)
  have "v0 = v" if "best_common client server v s" using that o m [of v s] unfolding best_common_def by (meson antisym)
  moreover from this have "s0 = s" if "best_common client server v s"
    using that o(1) u [of v s0 s] unfolding best_common_def by blast
  ultimately show ?thesis unfolding n using o m by (auto simp: best_common_def)
qed

lemma best_digest_iff:
  assumes "[] \<notin> set cds"
  shows "best_digest cds sds v d \<longleftrightarrow>
    d = (if firstCommon cds sds = [] then if 30 \<le> v then str ''md5'' else str ''md4'' else firstCommon cds sds)"
  using firstCommon_cases [of cds sds]
proof
  assume e: "firstCommon cds sds = [] \<and> set cds \<inter> set sds = {}"
  then have "\<not> (\<exists>pre post. cds = pre @ d # post \<and> d \<in> set sds \<and> set pre \<inter> set sds = {})" by auto
  with e show ?thesis unfolding best_digest_def by (simp only: if_True if_False simp_thms)
next
  let ?d = "firstCommon cds sds"
  assume "\<exists>pre post. cds = pre @ ?d # post \<and> ?d \<in> set sds \<and> set pre \<inter> set sds = {}"
  then obtain pre post where f: "cds = pre @ ?d # post" "?d \<in> set sds" "set pre \<inter> set sds = {}" by blast
  then have m: "?d \<in> set cds" by (metis in_set_conv_decomp)
  with assms have n: "?d \<noteq> []" by metis
  have "d = ?d" if "cds = pre' @ d # post'" "d \<in> set sds" "set pre' \<inter> set sds = {}" for pre' post'
  proof -
    have "pre' @ d # post' = pre @ ?d # post" using that(1) f(1) by simp
    then show ?thesis using that(2,3) f(2,3) by (auto simp: append_eq_append_conv2 append_eq_Cons_conv Cons_eq_append_conv)
  qed
  moreover have "set cds \<inter> set sds \<noteq> {}" using m f(2) by blast
  ultimately show ?thesis using n f unfolding best_digest_def by auto
qed

text \<open>
  C15: what \<^verbatim>\<open>Negotiate\<close> returns, exactly. It succeeds with a version, a sub-protocol and a digest
  if and only if that version, in that sub-protocol, is the newest one both sides offer and
  not older than the oldest supported one, and the digest is the first of the client's that
  the server has, or the version's default when there is none. A greeting offers its own
  version in its own sub-protocol and all older ones as released, so a pre-release the other
  side does not share costs one version, and nothing else does. The server's side of the
  computation gives the same version.
\<close>

theorem negotiate_sound:
  assumes "[] \<notin> set (Digests client)"
  shows "(Negotiate client server = Inr (version, sub, digest) \<longleftrightarrow>
      20 \<le> version \<and> best_common client server version sub \<and> best_digest (Digests client) (Digests server) version digest) \<and>
    (Negotiate client server = Inr (version, sub, digest) \<longrightarrow> (\<exists>d. Negotiate server client = Inr (version, sub, d)))"
proof -
  have "Negotiate client server = Inr (version, sub, digest) \<longleftrightarrow>
      20 \<le> version \<and> best_common client server version sub \<and> best_digest (Digests client) (Digests server) version digest"
    unfolding best_digest_iff [OF assms] negotiateVersion_best [symmetric]
    by (auto simp: Negotiate_def Let_def MinProtocolVersion_def split: prod.split)
  moreover have "\<exists>d. Negotiate server client = Inr (version, sub, d)" if "Negotiate client server = Inr (version, sub, digest)"
    using that by (auto simp: Negotiate_def negotiateVersion_sym [of server client] Let_def split: prod.splits if_splits)
  ultimately show ?thesis by blast
qed

theorem negotiate_sound_witness:
  "best_common \<lparr>Version = 30, SubProtocol = 1, Digests = [str ''md4'']\<rparr> \<lparr>Version = 31, SubProtocol = 0, Digests = [str ''md5'', str ''md4'']\<rparr> 29 0"
proof -
  have "Negotiate \<lparr>Version = 30, SubProtocol = 1, Digests = [str ''md4'']\<rparr> \<lparr>Version = 31, SubProtocol = 0, Digests = [str ''md5'', str ''md4'']\<rparr> =
      Inr (29, 0, str ''md4'')" by code_simp
  with negotiate_sound [of "\<lparr>Version = 30, SubProtocol = 1, Digests = [str ''md4'']\<rparr>"] show ?thesis by (simp add: str_def)
qed

end
