(* ===== verification/Ndx_Codec.thy ===== *)
theory Ndx_Codec
  imports Wire_Ints
begin

text \<open>
  \<^verbatim>\<open>src/protocol/wireint.go\<close>, second half: the compressed file-index codec of protocol 30 and
  up. Writer and reader each keep the last positive and the last negated index; an index
  travels as a one- or two-byte difference to it or as an absolute value. The theory shows
  that two ends that start from \<open>NewNdxState\<close> stay in step over any sequence of indices, as
  an instance of \<open>stream_codec\<close>.
\<close>

section \<open>Definitions\<close>

abbreviation NDxDone :: i32 where "NDxDone \<equiv> - 1"
abbreviation NDXFlistEOF :: i32 where "NDXFlistEOF \<equiv> - 2"

record ndx_state =
  prevPositive :: i32
  prevNegative :: i32

definition NewNdxState :: ndx_state where
  "NewNdxState = \<lparr>prevPositive = - 1, prevNegative = 1\<rparr>"

text \<open>
  The bytes after the optional \<^verbatim>\<open>0xFF\<close> prefix; the source writes this block out once per
  sign. \<^verbatim>\<open>>>\<close> on an \<^verbatim>\<open>int32\<close> is the arithmetic shift.
\<close>

definition ndxBody :: "i32 \<Rightarrow> i32 \<Rightarrow> byte list" where
  "ndxBody diff ndx =
    (if sint diff < 0xFE \<and> 0 < sint diff then [ucast diff]
     else if sint diff < 0 \<or> 0x7FFF < sint diff then
       [0xFE, ucast (signed_drop_bit 24 ndx OR 0x80), ucast ndx,
        ucast (signed_drop_bit 8 ndx), ucast (signed_drop_bit 16 ndx)]
     else [0xFE, ucast (signed_drop_bit 8 diff), ucast diff])"

definition WriteNdx :: "ndx_state \<Rightarrow> i32 \<Rightarrow> ndx_state \<times> byte list" where
  "WriteNdx s ndx =
    (if 0 \<le> sint ndx then
       (let diff = ndx - prevPositive s in (s\<lparr>prevPositive := ndx\<rparr>, ndxBody diff ndx))
     else if ndx = NDxDone then (s, [0])
     else
       (let ndx = - ndx; diff = ndx - prevNegative s
        in (s\<lparr>prevNegative := ndx\<rparr>, 0xFF # ndxBody diff ndx)))"

text \<open>Returns the index and the new value of the tracker \<^verbatim>\<open>*prev\<close>.\<close>

definition readNdxPositive :: "byte \<Rightarrow> i32 \<Rightarrow> bool \<Rightarrow> (src, i32 \<times> i32) io" where
  "readNdxPositive firstByte prev negate =
    bnd (if firstByte = 0xFE then
           bnd (readFull 2) (\<lambda>b.
             if (b ! 0) AND 0x80 \<noteq> 0 then
               bnd (readFull 2) (\<lambda>f.
                 ret (le_word [b ! 1, f ! 0, f ! 1, (b ! 0) AND NOT 0x80] :: u32))
             else ret (push_bit 8 (ucast (b ! 0)) + ucast (b ! 1) + prev))
         else ret (ucast firstByte + prev))
     (\<lambda>num. if (2147483647 :: u32) < num then fail ErrUnexpectedEOF
            else ret (if negate then - num else num, num))"

definition ReadNdx :: "ndx_state \<Rightarrow> (src, i32 \<times> ndx_state) io" where
  "ReadNdx s =
    bnd readByte (\<lambda>b0.
      if b0 = 0xFF then
        bnd readByte (\<lambda>b1. bnd (readNdxPositive b1 (prevNegative s) True)
          (\<lambda>(r, p). ret (r, s\<lparr>prevNegative := p\<rparr>)))
      else if b0 = 0 then ret (NDxDone, s)
      else bnd (readNdxPositive b0 (prevPositive s) False)
        (\<lambda>(r, p). ret (r, s\<lparr>prevPositive := p\<rparr>)))"

section \<open>One index\<close>

lemma ndxBody_shape:
  assumes "0 \<le> sint n"
  obtains f bs where "ndxBody (n - prev) n = f # bs" and "f \<noteq> 0" and "f \<noteq> 0xFF"
    and "\<And>neg rest e. readNdxPositive f prev neg (Src (bs @ rest) e) = (Inr (if neg then - n else n, n), Src rest e)"
proof -
  let ?d = "n - prev"
  have le: "\<not> 2147483647 < n" using assms by (simp add: nonneg_le not_less)
  consider (one) "sint ?d < 0xFE \<and> 0 < sint ?d" | (abs) "sint ?d < 0 \<or> 0x7FFF < sint ?d"
    | (two) "0 \<le> sint ?d \<and> sint ?d \<le> 0x7FFF" "\<not> (sint ?d < 0xFE \<and> 0 < sint ?d)"
    by linarith
  then show thesis
  proof cases
    case one
    then have u: "0 < unat ?d" "unat ?d < 0xFE" using unat_sint [of ?d] by linarith+
    note c = ucast_small [of ?d]
    have "ucast ?d \<noteq> (0 :: byte)" "ucast ?d \<noteq> (0xFF :: byte)" "ucast ?d \<noteq> (0xFE :: byte)"
      using c(2) u by auto
    with one c(1) u le show thesis
      by (intro that [of "ucast ?d" "[]"]) (auto simp: ndxBody_def readNdxPositive_def)
  next
    case abs
    let ?h = "ucast (drop_bit 24 n OR 0x80) :: byte"
    have h: "?h AND 0x80 \<noteq> 0"
    proof -
      have "bit (?h AND 0x80) 7" by (simp add: bit_simps)
      then show ?thesis by auto
    qed
    have w: "le_word [ucast n, ucast (drop_bit 8 n), ucast (drop_bit 16 n), ?h AND NOT 0x80] = (n :: i32)"
    proof (rule bit_word_eqI)
      fix i assume "i < LENGTH(32)"
      moreover have "\<not> bit n 31" using assms by (simp add: nonneg_iff_bit)
      ultimately show "bit (le_word [ucast n, ucast (drop_bit 8 n), ucast (drop_bit 16 n), ?h AND NOT 0x80] :: i32) i \<longleftrightarrow> bit n i"
        by (cases "i = 31") (auto simp: bit_simps bit_128)
    qed
    from abs h w le show thesis
      by (intro that [of "0xFE" "[?h, ucast n, ucast (drop_bit 8 n), ucast (drop_bit 16 n)]"])
        (auto simp: ndxBody_def readNdxPositive_def nonneg_shift [OF assms] bnd_def)
  next
    case two
    then have "int (unat ?d) < 32768" using unat_sint [of ?d] by linarith
    then have "unat ?d < 32768" by linarith
    then have u: "unat ?d < 2 ^ 15" by simp
    have nb: "\<not> bit ?d i" if "15 \<le> i" for i
      using u that by (rule bit_high)
    have nb': "i < 16" if "bit ?d i" for i
      using that nb [of i] by linarith
    let ?h = "ucast (drop_bit 8 ?d) :: byte"
    have h: "?h AND 0x80 = 0"
      by (rule bit_word_eqI) (auto simp: bit_simps bit_128 nb)
    have "push_bit 8 (ucast ?h) + ucast (ucast ?d :: byte) = ?d"
    proof -
      have "push_bit 8 (ucast ?h) AND ucast (ucast ?d :: byte) = (0 :: i32)"
        by (rule bit_word_eqI) (auto simp: bit_simps)
      then have "push_bit 8 (ucast ?h) + ucast (ucast ?d :: byte) = push_bit 8 (ucast ?h) OR (ucast (ucast ?d :: byte) :: i32)"
        by (rule disjunctive_add_eq_or)
      also have "\<dots> = ?d"
        by (rule bit_word_eqI) (auto simp: bit_simps dest: nb')
      finally show ?thesis .
    qed
    then have w: "push_bit 8 (ucast ?h) + ucast (ucast ?d :: byte) + prev = n" by simp
    from two h w le show thesis
      by (intro that [of "0xFE" "[?h, ucast ?d]"])
        (auto simp: ndxBody_def readNdxPositive_def nonneg_shift bnd_def)
  qed
qed

section \<open>The two ends stay in step\<close>

definition ndx_inv :: "ndx_state \<Rightarrow> bool" where
  "ndx_inv s \<longleftrightarrow> - 1 \<le> sint (prevPositive s) \<and> 0 \<le> sint (prevNegative s)"

text \<open>\<^verbatim>\<open>-ndx\<close> wraps at the least \<^verbatim>\<open>int32\<close>, so that one index does not survive.\<close>

definition ndx_ok :: "i32 \<Rightarrow> bool" where
  "ndx_ok ndx \<longleftrightarrow> - (2 ^ 31) < sint ndx"

lemma neg_nonneg: "sint ndx < 0 \<Longrightarrow> ndx_ok ndx \<Longrightarrow> sint (- ndx) = - sint ndx"
  by (simp add: ndx_ok_def sint_word_ariths signed_take_bit_int_eq_self)

lemma ReadNdx_WriteNdx:
  assumes "ndx_ok ndx"
  shows "ReadNdx s (Src (snd (WriteNdx s ndx) @ rest) e) = (Inr (ndx, fst (WriteNdx s ndx)), Src rest e)"
proof -
  consider (pos) "0 \<le> sint ndx" | (fin) "ndx = NDxDone" | (neg) "sint ndx < 0" "ndx \<noteq> NDxDone"
    by linarith
  then show ?thesis
  proof cases
    case pos
    obtain f bs where "ndxBody (ndx - prevPositive s) ndx = f # bs" "f \<noteq> 0" "f \<noteq> 0xFF"
      "\<And>neg rest e. readNdxPositive f (prevPositive s) neg (Src (bs @ rest) e) = (Inr (if neg then - ndx else ndx, ndx), Src rest e)"
      by (rule ndxBody_shape [OF pos]) blast
    with pos show ?thesis by (simp add: ReadNdx_def WriteNdx_def bnd_def)
  next
    case fin
    then show ?thesis by (simp add: ReadNdx_def WriteNdx_def bnd_def)
  next
    case neg
    with assms have "0 \<le> sint (- ndx)" by (simp add: neg_nonneg)
    then obtain f bs where "ndxBody (- ndx - prevNegative s) (- ndx) = f # bs"
      "\<And>neg rest e. readNdxPositive f (prevNegative s) neg (Src (bs @ rest) e) = (Inr (if neg then - (- ndx) else - ndx, - ndx), Src rest e)"
      by (rule ndxBody_shape [of "- ndx" "prevNegative s"]) blast
    with neg show ?thesis by (simp add: ReadNdx_def WriteNdx_def bnd_def)
  qed
qed

lemma WriteNdx_inv: "ndx_inv s \<Longrightarrow> ndx_ok ndx \<Longrightarrow> ndx_inv (fst (WriteNdx s ndx))"
  by (auto simp: ndx_inv_def WriteNdx_def Let_def neg_nonneg not_le intro: order_trans)

lemma NewNdxState_inv: "ndx_inv NewNdxState"
  by (simp add: ndx_inv_def NewNdxState_def)

lemma ReadNdx_inv:
  assumes "ReadNdx s t = (Inr (n, s'), t')" and "ndx_inv s"
  shows "ndx_inv s' \<and> ndx_ok n"
proof -
  have pos: "0 \<le> sint p \<and> r = (if neg then - p else p)"
    if "readNdxPositive f prev neg u = (Inr (r, p), u')" for f prev neg u r p u'
    using that by (auto simp: readNdxPositive_def bnd_Inr_iff nonneg_le not_less split: if_splits)
  have "ndx_ok p \<and> ndx_ok (- p)" if "0 \<le> sint p" for p
  proof -
    have "sint (- p) = - sint p"
      using that sint_lt [of p] by (simp add: sint_word_ariths signed_take_bit_int_eq_self)
    then show ?thesis using that sint_lt [of p] by (simp add: ndx_ok_def)
  qed
  moreover have "ndx_ok NDxDone" by (simp add: ndx_ok_def)
  ultimately show ?thesis
    using assms
    by (auto simp: ReadNdx_def bnd_Inr_iff ndx_inv_def split: if_splits dest!: pos)
qed

lemma streaming_ReadNdx [streaming_intros]: "streaming (ReadNdx s)"
  unfolding ReadNdx_def readNdxPositive_def by (intro streaming_intros)

interpretation ndx: stream_codec WriteNdx ReadNdx "\<lambda>w r. r = w" "\<lambda>_. ndx_ok" "\<lambda>_ ndx. ndx"
  by unfold_locales (simp add: ReadNdx_WriteNdx)

section \<open>Properties\<close>

text \<open>
  C25: any sequence of file indices (every \<^verbatim>\<open>int32\<close> but the least) written with one
  \<^verbatim>\<open>NdxState\<close> is read back by a reader that starts in the same state; reader and writer
  end in the same state, so the exchange can go on in further sequences.
\<close>

theorem ndx_stream:
  assumes "\<forall>n\<in>set ns. ndx_ok n"
  shows "dec_all (length ns) ReadNdx s (Src (snd (enc_all WriteNdx s ns) @ rest) e) =
    (Inr (ns, fst (enc_all WriteNdx s ns)), Src rest e)"
proof -
  have "view_all WriteNdx (\<lambda>_ ndx. ndx) s ns = ns" for s
    by (simp add: view_all_uniform [where f = "\<lambda>x. x"])
  then show ?thesis
    using ndx.dec_all_enc_all [of s s ns rest e] ok_all_uniform [of ns "\<lambda>_. ndx_ok" WriteNdx s] assms
    by auto
qed

theorem ndx_stream_witness:
  "dec_all (length [0, 70000, - 2, NDxDone]) ReadNdx NewNdxState (Src (snd (enc_all WriteNdx NewNdxState [0, 70000, - 2, NDxDone]) @ [9]) EOF) =
    (Inr ([0, 70000, - 2, NDxDone], fst (enc_all WriteNdx NewNdxState [0, 70000, - 2, NDxDone])), Src [9] EOF)"
  by (rule ndx_stream) (simp add: ndx_ok_def)

end
