(* ===== verification/Selector_Codec.thy ===== *)
theory Selector_Codec
  imports Ndx_Codec Vstring_Args
begin

text \<open>
  \<^verbatim>\<open>src/protocol/selector.go\<close>: the transfer request the generator sends and the sender
  echoes. From protocol 30 on the index is compressed (and carries the \<open>ndx_state\<close> of its
  direction), below it is a plain \<^verbatim>\<open>int32\<close>; item flags travel from protocol 29 on.
\<close>

section \<open>Definitions\<close>

record selector =
  Ndx :: i32
  Iflags :: flags
  BasisType :: byte
  Xname :: gostring

definition ReadSelector :: "int \<Rightarrow> ndx_state \<Rightarrow> (src, selector \<times> ndx_state) io" where
  "ReadSelector version ndx =
    bnd (if 30 \<le> version then ReadNdx ndx else bnd ReadInt32 (\<lambda>v. ret (v, ndx)))
    (\<lambda>(ndxVal, ndx').
    bnd (if 29 \<le> version \<and> 0 \<le> sint ndxVal then bnd ReadUint16 (\<lambda>val. ret (ucast val))
         else ret (ItemTransfer OR ItemMissingData))
    (\<lambda>iflags.
    bnd (if has iflags ItemBasisTypeFollows then readByte else ret 0)
    (\<lambda>basis.
    bnd (if has iflags ItemXnameFollows then ReadVstring else ret [])
    (\<lambda>xname.
    ret (\<lparr>Ndx = ndxVal, Iflags = iflags, BasisType = basis, Xname = xname\<rparr>, ndx')))))"

text \<open>
  The bytes written so far go out even when \<^verbatim>\<open>WriteVstring\<close> rejects the name; the error is
  the first component.
\<close>

definition WriteSelector :: "int \<Rightarrow> ndx_state \<Rightarrow> selector \<Rightarrow> (go_error + unit) \<times> ndx_state \<times> byte list" where
  "WriteSelector version ndx sel =
    (let (ndx', b1) = (if 30 \<le> version then WriteNdx ndx (Ndx sel) else (ndx, WriteInt32 (Ndx sel)));
         b2 = (if 29 \<le> version \<and> 0 \<le> sint (Ndx sel) then WriteUint16 (ucast (Iflags sel)) else []);
         b3 = (if has (Iflags sel) ItemBasisTypeFollows then [BasisType sel] else [])
     in if has (Iflags sel) ItemXnameFollows then
          (case WriteVstring (Xname sel) of
             Inl err \<Rightarrow> (Inl err, ndx', b1 @ b2 @ b3)
           | Inr b4 \<Rightarrow> (Inr (), ndx', b1 @ b2 @ b3 @ b4))
        else (Inr (), ndx', b1 @ b2 @ b3))"

section \<open>Round trip\<close>

text \<open>
  What travels: below protocol 29 and for a negative index the flags do not, so the writer
  must not announce fields the reader will not expect; a field that is not announced comes
  back empty; of the flags only the low 16 bits are sent.
\<close>

definition sel_wire_flags :: "int \<Rightarrow> selector \<Rightarrow> flags" where
  "sel_wire_flags version sel =
    (if 29 \<le> version \<and> 0 \<le> sint (Ndx sel) then ucast (ucast (Iflags sel) :: u16)
     else ItemTransfer OR ItemMissingData)"

definition sel_ok :: "int \<Rightarrow> selector \<Rightarrow> bool" where
  "sel_ok version sel \<longleftrightarrow>
     ndx_ok (Ndx sel) \<and>
     (has (Iflags sel) ItemBasisTypeFollows \<or> has (Iflags sel) ItemXnameFollows \<longrightarrow>
        29 \<le> version \<and> 0 \<le> sint (Ndx sel)) \<and>
     (has (Iflags sel) ItemXnameFollows \<longrightarrow> length (Xname sel) \<le> 0x7FFF)"

definition sel_view :: "int \<Rightarrow> selector \<Rightarrow> selector" where
  "sel_view version sel =
    \<lparr>Ndx = Ndx sel, Iflags = sel_wire_flags version sel,
     BasisType = (if has (Iflags sel) ItemBasisTypeFollows then BasisType sel else 0),
     Xname = (if has (Iflags sel) ItemXnameFollows then Xname sel else [])\<rparr>"

lemma bit_ucast16: "n < 16 \<Longrightarrow> bit (ucast (ucast (x :: flags) :: u16) :: flags) n \<longleftrightarrow> bit x n"
  by (simp add: bit_simps)

lemma wire_flags_has:
  assumes "sel_ok version sel"
  shows "has (sel_wire_flags version sel) ItemBasisTypeFollows \<longleftrightarrow> has (Iflags sel) ItemBasisTypeFollows"
    and "has (sel_wire_flags version sel) ItemXnameFollows \<longleftrightarrow> has (Iflags sel) ItemXnameFollows"
  using assms
  by (auto simp: sel_ok_def sel_wire_flags_def item_defs has_push_bit bit_ucast16 bit_or_iff bit_push_bit_one
      simp del: push_bit_of_1)

lemma streaming_ReadSelector [streaming_intros]: "streaming (ReadSelector version ndx)"
  unfolding ReadSelector_def by (intro streaming_intros)

lemma ReadSelector_WriteSelector:
  assumes ok: "sel_ok version sel" and w: "WriteSelector version ndx sel = (res, ndx', bs)"
  shows "res = Inr () \<and> ReadSelector version ndx (Src (bs @ rest) e) = (Inr (sel_view version sel, ndx'), Src rest e)"
proof -
  let ?f = "sel_wire_flags version sel"
  note h = wire_flags_has [OF ok]
  obtain b1 where idx: "(if 30 \<le> version then WriteNdx ndx (Ndx sel) else (ndx, WriteInt32 (Ndx sel))) = (ndx', b1)"
    and "True" using w by (auto simp: WriteSelector_def Let_def split: prod.splits if_splits sum.splits)
  let ?b2 = "if 29 \<le> version \<and> 0 \<le> sint (Ndx sel) then WriteUint16 (ucast (Iflags sel)) else []"
  let ?b3 = "if has (Iflags sel) ItemBasisTypeFollows then [BasisType sel] else []"
  obtain b4 where b4: "if has (Iflags sel) ItemXnameFollows then WriteVstring (Xname sel) = Inr b4 else b4 = []"
    and bs: "bs = b1 @ ?b2 @ ?b3 @ b4" and res: "res = Inr ()"
    using w ok idx WriteVstring_Inr_iff [of "Xname sel"] unfolding WriteSelector_def
    by (auto simp: Let_def sel_ok_def split: if_splits sum.splits)
  have 1: "reads (if 30 \<le> version then ReadNdx ndx else bnd ReadInt32 (\<lambda>v. ret (v, ndx))) b1 (Ndx sel, ndx')"
    using idx ok ReadNdx_WriteNdx [of "Ndx sel" ndx]
    by (auto simp: sel_ok_def reads_def bnd_def ReadInt32_WriteInt32 split: if_splits)
  have 2: "reads (if 29 \<le> version \<and> 0 \<le> sint (Ndx sel) then bnd ReadUint16 (\<lambda>val. ret (ucast val))
      else ret (ItemTransfer OR ItemMissingData)) ?b2 ?f"
    by (simp add: sel_wire_flags_def reads_def bnd_def ReadUint16_WriteUint16)
  have 3: "reads (if has ?f ItemBasisTypeFollows then readByte else ret 0) ?b3 (BasisType (sel_view version sel))"
    by (simp add: h sel_view_def reads_intros)
  have 4: "reads (if has ?f ItemXnameFollows then ReadVstring else ret []) b4 (Xname (sel_view version sel))"
    using b4 by (auto simp: h sel_view_def reads_def ReadVstring_WriteVstring split: if_splits)
  have "reads (ReadSelector version ndx) (b1 @ ?b2 @ ?b3 @ b4) (sel_view version sel, ndx')"
    unfolding ReadSelector_def
    by (rule reads_bnd [OF 1], unfold prod.case, rule reads_bnd [OF 2], rule reads_bnd [OF 3], rule reads_bnd_last [OF 4])
      (simp add: reads_def sel_view_def)
  then have "reads (ReadSelector version ndx) bs (sel_view version sel, ndx')"
    by (simp only: bs)
  with res show ?thesis by (simp add: readsD)
qed

interpretation sel: stream_codec "\<lambda>w x. snd (WriteSelector v w x)" "ReadSelector v" "\<lambda>w r. r = w"
  "\<lambda>_. sel_ok v" "\<lambda>_. sel_view v" for v
proof unfold_locales
  fix w r :: ndx_state and x rest e assume "r = w" "sel_ok v x"
  then show "\<exists>r'. ReadSelector v r (Src (snd (snd (WriteSelector v w x)) @ rest) e) = (Inr (sel_view v x, r'), Src rest e) \<and>
      r' = fst (snd (WriteSelector v w x))"
    using ReadSelector_WriteSelector [of v x w] by (metis prod.collapse)
qed

section \<open>Properties\<close>

text \<open>
  C24: a sequence of selectors is written without error and read back in order, each in its
  canonical form (\<open>sel_view\<close>: item flags as they fit 16 bits, optional fields only when
  their flag is set), with both sides' index states equal at the end. The flags that
  announce the optional fields need protocol 29 and a non-negative index.
\<close>

theorem selector_stream:
  assumes "\<forall>sel\<in>set sels. sel_ok v sel"
  shows "dec_all (length sels) (ReadSelector v) ndx
      (Src (snd (enc_all (\<lambda>w x. snd (WriteSelector v w x)) ndx sels) @ rest) e) =
    (Inr (map (sel_view v) sels, fst (enc_all (\<lambda>w x. snd (WriteSelector v w x)) ndx sels)), Src rest e)"
proof -
  have "ok_all (\<lambda>w x. snd (WriteSelector v w x)) (\<lambda>_. sel_ok v) ndx sels"
    by (rule ok_all_uniform) (rule assms)
  moreover have "view_all (\<lambda>w x. snd (WriteSelector v w x)) (\<lambda>_. sel_view v) ndx sels = map (sel_view v) sels"
    by (rule view_all_uniform) simp
  ultimately show ?thesis
    using sel.dec_all_enc_all [of ndx ndx v sels rest e] by auto
qed

theorem selector_stream_witness:
  "dec_all (length [\<lparr>Ndx = 5, Iflags = ItemTransfer OR ItemXnameFollows, BasisType = 0, Xname = str ''a''\<rparr>])
      (ReadSelector 31) NewNdxState
      (Src (snd (enc_all (\<lambda>w x. snd (WriteSelector 31 w x)) NewNdxState
        [\<lparr>Ndx = 5, Iflags = ItemTransfer OR ItemXnameFollows, BasisType = 0, Xname = str ''a''\<rparr>]) @ [9]) EOF) =
    (Inr (map (sel_view 31) [\<lparr>Ndx = 5, Iflags = ItemTransfer OR ItemXnameFollows, BasisType = 0, Xname = str ''a''\<rparr>],
      fst (enc_all (\<lambda>w x. snd (WriteSelector 31 w x)) NewNdxState
        [\<lparr>Ndx = 5, Iflags = ItemTransfer OR ItemXnameFollows, BasisType = 0, Xname = str ''a''\<rparr>])), Src [9] EOF)"
  by (rule selector_stream) (simp add: sel_ok_def ndx_ok_def str_def)

end
