(* ===== verification/Delta_Stream.thy ===== *)
theory Delta_Stream
  imports Wire_Ints
begin

text \<open>
  \<^verbatim>\<open>src/protocol/delta.go\<close>: the uncompressed token stream that carries a file. Literals
  are cut into chunks of at most 32 KB by the writer and handed out in chunks of at most
  32 KB by the reader, however long the peer made them; a match token names a block of the
  receiver's basis file; a zero ends the stream.
\<close>

section \<open>Definitions\<close>

definition deltaChunkSize :: nat where
  "deltaChunkSize = 32 * 1024"

subsection \<open>The writer\<close>

function WriteLiteral :: "byte list \<Rightarrow> byte list" where
  "WriteLiteral data =
    (if data = [] then []
     else let n = min (length data) deltaChunkSize
          in le_bytes 4 (word_of_nat n :: u32) @ take n data @ WriteLiteral (drop n data))"
  by pat_completeness auto
termination
  by (relation "measure length") (auto simp: deltaChunkSize_def Let_def)

declare WriteLiteral.simps [simp del]

definition WriteMatch :: "i32 \<Rightarrow> byte list" where
  "WriteMatch blockIdx = le_bytes 4 (- blockIdx - 1)"

definition WriteEnd :: "byte list" where
  "WriteEnd = le_bytes 4 (0 :: u32)"

text \<open>\<^verbatim>\<open>DeltaToken\<close>: literal data when \<^verbatim>\<open>Literal\<close> is non-nil, else a block reference.\<close>

datatype delta_token = Literal "byte list" | BlockIdx i32

fun writeToken :: "delta_token \<Rightarrow> byte list" where
  "writeToken (Literal data) = WriteLiteral data"
| "writeToken (BlockIdx i) = WriteMatch i"

definition WriteDeltaStream :: "delta_token list \<Rightarrow> byte list" where
  "WriteDeltaStream tokens = concat (map writeToken tokens) @ WriteEnd"

subsection \<open>The reader\<close>

text \<open>
  The reader's buffer appears through its length: its bytes are handed to the caller as
  disjoint slices and never read again.
\<close>

record delta_reader =
  residue :: i32
  bufLen :: nat
  bufOff :: nat

definition NewDeltaReader :: delta_reader where
  "NewDeltaReader = \<lparr>residue = 0, bufLen = 0, bufOff = 0\<rparr>"

text \<open>The next chunk of the current literal, at most \<open>deltaChunkSize\<close> bytes.\<close>

definition readChunk :: "delta_reader \<Rightarrow> (src, (byte list option \<times> i32 \<times> bool) \<times> delta_reader) io" where
  "readChunk r =
    (let n = (if int deltaChunkSize < sint (residue r) then word_of_nat deltaChunkSize else residue r)
     in if bufLen r < bufOff r + nat (sint n) then fail (Panic ''slice bounds out of range'')
        else bnd (readFull (nat (sint n))) (\<lambda>data.
          ret ((Some data, 0, False),
               r\<lparr>residue := residue r - n, bufOff := bufOff r + nat (sint n)\<rparr>)))"

text \<open>Results are (data or nil, block index, end of stream).\<close>

definition ReadToken :: "delta_reader \<Rightarrow> (src, (byte list option \<times> i32 \<times> bool) \<times> delta_reader) io" where
  "ReadToken r =
    (if 0 < sint (residue r) then readChunk r
     else bnd (readFull 4) (\<lambda>b.
       let val = le_word b :: i32
       in if val = 0 then ret ((None, - 1, True), r)
          else if sint val < 0 then ret ((None, - val - 1, False), r)
          else readChunk \<lparr>residue = val, bufLen = nat (sint val), bufOff = 0\<rparr>))"

lemma readChunk_consumes:
  assumes "readChunk r s = (Inr x, s')" and "0 < sint (residue r)"
  shows "length (avail s') < length (avail s)"
  using assms
  by (auto simp: readChunk_def Let_def bnd_Inr_iff deltaChunkSize_def dest!: readFull_InrD split: if_splits)

lemma ReadToken_consumes:
  assumes "ReadToken r s = (Inr x, s')"
  shows "length (avail s') < length (avail s)"
proof (cases "0 < sint (residue r)")
  case True
  with assms show ?thesis by (simp add: ReadToken_def readChunk_consumes)
next
  case False
  with assms obtain b t where b: "readFull 4 s = (Inr b, t)"
    and rest: "(let val = le_word b :: i32
       in if val = 0 then ret ((None, - 1, True), r)
          else if sint val < 0 then ret ((None, - val - 1, False), r)
          else readChunk \<lparr>residue = val, bufLen = nat (sint val), bufOff = 0\<rparr>) t = (Inr x, s')"
    by (auto simp: ReadToken_def bnd_Inr_iff)
  from b have "length (avail t) < length (avail s)" by (auto dest!: readFull_InrD)
  moreover have "length (avail s') \<le> length (avail t)"
    using rest readChunk_consumes [of _ t x s'] sint_pos [of "le_word b :: i32"]
    by (auto simp: Let_def less_imp_le split: if_splits)
  ultimately show ?thesis by linarith
qed

text \<open>The loop of \<^verbatim>\<open>ParseDeltaStream\<close>; every token takes bytes from the source, so it ends.\<close>

function parseDelta :: "delta_reader \<Rightarrow> delta_token list \<Rightarrow> (src, delta_token list) io" where
  "parseDelta dr tokens s =
    (case ReadToken dr s of
       (Inl err, s') \<Rightarrow> (Inl err, s')
     | (Inr ((data, blockIdx, isEnd), dr'), s') \<Rightarrow>
         if isEnd then (Inr tokens, s')
         else case data of
           Some d \<Rightarrow> parseDelta dr' (tokens @ [Literal d]) s'
         | None \<Rightarrow> parseDelta dr' (tokens @ [BlockIdx blockIdx]) s')"
  by pat_completeness auto
termination
  by (relation "measure (\<lambda>(dr, tokens, s). length (avail s))") (auto dest!: sym [of _ "ReadToken _ _"] intro: ReadToken_consumes)

declare parseDelta.simps [simp del]

definition ParseDeltaStream :: "(src, delta_token list) io" where
  "ParseDeltaStream = parseDelta NewDeltaReader []"

section \<open>Round trip\<close>

text \<open>How a literal of any length reaches the caller.\<close>

function literal_chunks :: "byte list \<Rightarrow> byte list list" where
  "literal_chunks d =
    (if d = [] then [] else take deltaChunkSize d # literal_chunks (drop deltaChunkSize d))"
  by pat_completeness auto
termination
  by (relation "measure length") (auto simp: deltaChunkSize_def)

declare literal_chunks.simps [simp del]

lemma literal_chunks_Nil [simp]: "literal_chunks [] = []"
  by (simp add: literal_chunks.simps)

lemma literal_chunks_step: "d \<noteq> [] \<Longrightarrow> literal_chunks d = take deltaChunkSize d # literal_chunks (drop deltaChunkSize d)"
  by (simp add: literal_chunks.simps)

lemma concat_literal_chunks [simp]: "concat (literal_chunks d) = d"
proof (induction d rule: literal_chunks.induct)
  case (1 d)
  then show ?case by (cases "d = []") (simp_all add: literal_chunks_step)
qed

lemma literal_chunks_size: "c \<in> set (literal_chunks d) \<Longrightarrow> 0 < length c \<and> length c \<le> deltaChunkSize"
proof (induction d rule: literal_chunks.induct)
  case (1 d)
  then show ?case by (cases "d = []") (auto simp: literal_chunks_step deltaChunkSize_def)
qed

fun token_view :: "delta_token \<Rightarrow> delta_token list" where
  "token_view (Literal d) = map Literal (literal_chunks d)"
| "token_view (BlockIdx i) = [BlockIdx i]"

fun token_ok :: "delta_token \<Rightarrow> bool" where
  "token_ok (Literal d) = True"
| "token_ok (BlockIdx i) = (0 \<le> sint i)"

abbreviation idle :: "delta_reader \<Rightarrow> bool" where
  "idle r \<equiv> \<not> 0 < sint (residue r)"

lemma sint_word_of_nat: "n < 2 ^ 31 \<Longrightarrow> sint (word_of_nat n :: i32) = int n"
  by (simp add: signed_of_nat signed_take_bit_int_eq_self)

lemma readChunk_step:
  assumes "residue r = word_of_nat (length d)" and "0 < length d" and "length d < 2 ^ 31"
    and "bufOff r + length d = bufLen r"
  shows "readChunk r (Src (d @ rest) e) =
    (Inr ((Some (take deltaChunkSize d), 0, False),
          r\<lparr>residue := word_of_nat (length d - deltaChunkSize), bufOff := bufOff r + min (length d) deltaChunkSize\<rparr>),
     Src (drop deltaChunkSize d @ rest) e)"
proof -
  let ?n = "if int deltaChunkSize < sint (residue r) then word_of_nat deltaChunkSize else residue r :: i32"
  let ?k = "min (length d) deltaChunkSize"
  have n: "?n = word_of_nat ?k"
    using assms by (simp add: sint_word_of_nat min_def)
  then have k: "nat (sint ?n) = ?k"
    using assms by (simp add: sint_word_of_nat)
  have r: "residue r - ?n = word_of_nat (length d - deltaChunkSize)"
    using assms(1) n by (cases "length d \<le> deltaChunkSize") (simp_all add: min_def of_nat_diff)
  have "readFull ?k (Src (d @ rest) e) = (Inr (take deltaChunkSize d), Src (drop deltaChunkSize d @ rest) e)"
    by (cases "length d \<le> deltaChunkSize") (simp_all add: min_def)
  then show ?thesis
    using assms(4) by (simp add: readChunk_def Let_def k r bnd_def del: readFull.simps)
qed

lemma parseDelta_literal:
  "parseDelta r toks s = parseDelta r' (toks @ [Literal d]) s'"
  if "ReadToken r s = (Inr ((Some d, i, False), r'), s')"
  using that by (simp add: parseDelta.simps [of r])

lemma parse_residue:
  assumes "residue r = word_of_nat (length d)" and "0 < length d" and "length d < 2 ^ 31"
    and "bufOff r + length d = bufLen r"
  shows "\<exists>r'. idle r' \<and> parseDelta r toks (Src (d @ rest) e) =
    parseDelta r' (toks @ map Literal (literal_chunks d)) (Src rest e)"
  using assms
proof (induction d arbitrary: r toks rule: literal_chunks.induct)
  case (1 d)
  let ?d = "drop deltaChunkSize d"
  let ?r = "r\<lparr>residue := word_of_nat (length ?d), bufOff := bufOff r + min (length d) deltaChunkSize\<rparr>"
  have ne: "d \<noteq> []" using "1.prems" by simp
  have "ReadToken r (Src (d @ rest) e) = (Inr ((Some (take deltaChunkSize d), 0, False), ?r), Src (?d @ rest) e)"
    using "1.prems" readChunk_step [of r d rest e] by (simp add: ReadToken_def sint_word_of_nat)
  note step = parseDelta_literal [OF this, of toks]
  show ?case
  proof (cases "?d = []")
    case True
    then have "idle ?r" "literal_chunks d = [take deltaChunkSize d]"
      using ne by (simp_all add: literal_chunks_step)
    with step True show ?thesis by (intro exI [of _ ?r]) simp
  next
    case False
    have "\<exists>r'. idle r' \<and> parseDelta ?r (toks @ [Literal (take deltaChunkSize d)]) (Src (?d @ rest) e) =
      parseDelta r' ((toks @ [Literal (take deltaChunkSize d)]) @ map Literal (literal_chunks ?d)) (Src rest e)"
      using False "1.prems" ne by (intro "1.IH") auto
    with step ne show ?thesis by (simp add: literal_chunks_step)
  qed
qed

lemma parse_wire_literal:
  assumes "idle r" and "0 < length d" and "length d < 2 ^ 31"
  shows "\<exists>r'. idle r' \<and> parseDelta r toks (Src (le_bytes 4 (word_of_nat (length d) :: u32) @ d @ rest) e) =
    parseDelta r' (toks @ map Literal (literal_chunks d)) (Src rest e)"
proof -
  let ?q = "\<lparr>residue = word_of_nat (length d), bufLen = length d, bufOff = 0\<rparr>"
  have len: "0 < sint (word_of_nat (length d) :: i32)" "nat (sint (word_of_nat (length d) :: i32)) = length d"
    using assms by (simp_all add: sint_word_of_nat)
  then have nz: "(word_of_nat (length d) :: i32) \<noteq> 0" by auto
  have "ReadToken r (Src (le_bytes 4 (word_of_nat (length d) :: u32) @ d @ rest) e) = ReadToken ?q (Src (d @ rest) e)"
    using assms(1) len nz by (simp add: ReadToken_def bnd_def Let_def)
  then have "parseDelta r toks (Src (le_bytes 4 (word_of_nat (length d) :: u32) @ d @ rest) e) = parseDelta ?q toks (Src (d @ rest) e)"
    by (simp add: parseDelta.simps [of r] parseDelta.simps [of ?q])
  then show ?thesis using parse_residue [of ?q d toks rest e] assms by simp
qed

lemma parse_WriteLiteral:
  "idle r \<Longrightarrow> \<exists>r'. idle r' \<and> parseDelta r toks (Src (WriteLiteral d @ rest) e) =
    parseDelta r' (toks @ map Literal (literal_chunks d)) (Src rest e)"
proof (induction d arbitrary: r toks rule: literal_chunks.induct)
  case (1 d)
  show ?case
  proof (cases "d = []")
    case True
    then show ?thesis using "1.prems" by (auto simp: WriteLiteral.simps)
  next
    case False
    let ?c = "take deltaChunkSize d" and ?d = "drop deltaChunkSize d"
    have c: "0 < length ?c" "length ?c < 2 ^ 31" "literal_chunks ?c = [?c]"
      using False by (auto simp: deltaChunkSize_def literal_chunks_step)
    have w: "WriteLiteral d = le_bytes 4 (word_of_nat (length ?c) :: u32) @ ?c @ WriteLiteral ?d"
      using False by (cases "length d \<le> deltaChunkSize") (simp_all add: WriteLiteral.simps [of d] Let_def min_def)
    from parse_wire_literal [OF "1.prems" c(1,2), of toks "WriteLiteral ?d @ rest" e]
    obtain r1 where r1: "idle r1" "parseDelta r toks (Src (WriteLiteral d @ rest) e) =
      parseDelta r1 (toks @ [Literal ?c]) (Src (WriteLiteral ?d @ rest) e)"
      by (auto simp: w c)
    from "1.IH" [OF False r1(1), of "toks @ [Literal ?c]"] r1(2) show ?thesis
      using False by (simp add: literal_chunks_step)
  qed
qed

lemma parse_token:
  assumes "idle r" and "token_ok t"
  shows "\<exists>r'. idle r' \<and> parseDelta r toks (Src (writeToken t @ rest) e) =
    parseDelta r' (toks @ token_view t) (Src rest e)"
proof (cases t)
  case (Literal d)
  then show ?thesis using parse_WriteLiteral [OF assms(1)] by simp
next
  case (BlockIdx i)
  have s: "sint (- i - 1) = - sint i - 1"
    using assms(2) BlockIdx sint_lt [of i]
    by (simp add: sint_word_ariths signed_take_bit_int_eq_self signed_take_bit_diff)
  with assms BlockIdx have "sint (- i - 1) < 0" "- i - 1 \<noteq> 0" by auto
  then have "ReadToken r (Src (WriteMatch i @ rest) e) = (Inr ((None, i, False), r), Src rest e)"
    using assms(1) by (simp add: ReadToken_def WriteMatch_def bnd_def Let_def)
  with assms(1) BlockIdx show ?thesis by (auto simp: parseDelta.simps [of r])
qed

lemma parse_tokens:
  assumes "idle r" and "\<forall>t\<in>set ts. token_ok t"
  shows "parseDelta r toks (Src (concat (map writeToken ts) @ WriteEnd @ rest) e) =
    (Inr (toks @ concat (map token_view ts)), Src rest e)"
  using assms
proof (induction ts arbitrary: r toks)
  case Nil
  then show ?case
    by (simp add: parseDelta.simps [of r] ReadToken_def WriteEnd_def bnd_def Let_def)
next
  case (Cons t ts)
  from parse_token [of r t toks "concat (map writeToken ts) @ WriteEnd @ rest" e] Cons.prems
  obtain r' where "idle r'" "parseDelta r toks (Src (writeToken t @ concat (map writeToken ts) @ WriteEnd @ rest) e) =
     parseDelta r' (toks @ token_view t) (Src (concat (map writeToken ts) @ WriteEnd @ rest) e)"
    by auto
  with Cons show ?case by simp
qed

lemma ParseDelta_WriteDelta:
  assumes "\<forall>t\<in>set ts. token_ok t"
  shows "ParseDeltaStream (Src (WriteDeltaStream ts @ rest) e) = (Inr (concat (map token_view ts)), Src rest e)"
  using parse_tokens [of NewDeltaReader ts "[]" rest e] assms
  by (simp add: ParseDeltaStream_def WriteDeltaStream_def NewDeltaReader_def)

section \<open>What a stream rebuilds\<close>

text \<open>The file a token stream describes, over a basis file's blocks.\<close>

fun token_data :: "(i32 \<Rightarrow> byte list) \<Rightarrow> delta_token \<Rightarrow> byte list" where
  "token_data basis (Literal d) = d"
| "token_data basis (BlockIdx i) = basis i"

definition rebuild :: "(i32 \<Rightarrow> byte list) \<Rightarrow> delta_token list \<Rightarrow> byte list" where
  "rebuild basis ts = concat (map (token_data basis) ts)"

lemma rebuild_token_view: "rebuild basis (token_view t) = token_data basis t"
  by (cases t) (simp_all add: rebuild_def comp_def)

lemma rebuild_append [simp]: "rebuild basis (xs @ ys) = rebuild basis xs @ rebuild basis ys"
  by (simp add: rebuild_def)

lemma rebuild_Nil [simp]: "rebuild basis [] = []"
  by (simp add: rebuild_def)

lemma rebuild_views: "rebuild basis (concat (map token_view ts)) = rebuild basis ts"
proof (induction ts)
  case (Cons t ts)
  have "rebuild basis (t # ts) = token_data basis t @ rebuild basis ts" by (simp add: rebuild_def)
  with Cons show ?case by (simp add: rebuild_token_view)
qed simp

section \<open>Properties\<close>

text \<open>
  C23: a delta stream of literals of any length and non-negative block indices is parsed
  back: literals come in chunks of at most 32 KiB, matches as they were, the reader stops
  right behind the end marker, and with any basis blocks the parsed tokens rebuild the same
  file as the written ones.
\<close>

theorem delta_stream:
  assumes "\<forall>t\<in>set ts. token_ok t"
  shows "\<exists>out. ParseDeltaStream (Src (WriteDeltaStream ts @ rest) e) = (Inr out, Src rest e) \<and>
    (\<forall>basis. rebuild basis out = rebuild basis ts) \<and>
    (\<forall>d. Literal d \<in> set out \<longrightarrow> d \<noteq> [] \<and> length d \<le> deltaChunkSize)"
proof (intro exI conjI allI impI)
  show "ParseDeltaStream (Src (WriteDeltaStream ts @ rest) e) = (Inr (concat (map token_view ts)), Src rest e)"
    by (rule ParseDelta_WriteDelta [OF assms])
  show "rebuild basis (concat (map token_view ts)) = rebuild basis ts" for basis
    by (rule rebuild_views)
  fix d assume "Literal d \<in> set (concat (map token_view ts))"
  then obtain t where "Literal d \<in> set (token_view t)" by auto
  then obtain d' where "d \<in> set (literal_chunks d')" by (cases t) auto
  then show "d \<noteq> []" "length d \<le> deltaChunkSize" using literal_chunks_size by blast+
qed

theorem delta_stream_witness:
  "\<exists>out. ParseDeltaStream (Src (WriteDeltaStream [Literal [1, 2], BlockIdx 3] @ [9]) EOF) = (Inr out, Src [9] EOF) \<and>
    (\<forall>basis. rebuild basis out = rebuild basis [Literal [1, 2], BlockIdx 3])"
  using delta_stream [of "[Literal [1, 2], BlockIdx 3]" "[9]" EOF] by auto

end
