(* ===== verification/Delta_Match.thy ===== *)
theory Delta_Match
  imports Checksums Delta_Stream
begin

text \<open>
  The sender's delta algorithm of \<^verbatim>\<open>src/server-send.go\<close>: the generator's block checksums
  (\<^verbatim>\<open>receiveSums\<close>), the search of a file for those blocks with the rolling checksum
  (\<^verbatim>\<open>hashSearch\<close>), and the delta stream made of it (\<^verbatim>\<open>matchSums\<close>). Go's \<^verbatim>\<open>int\<close> offsets are
  \<open>int\<close>; an index or slice out of range is a \<open>Panic\<close>. The search hands tokens to the delta
  writer; the bytes are those of \<open>Delta_Stream\<close>.
\<close>

section \<open>Definitions\<close>

record block_sum =
  sum1 :: u32
  sum2 :: "byte list"
  blockLen :: i32

definition readBlockSum :: "nat \<Rightarrow> i32 \<Rightarrow> (src, block_sum) io" where
  "readBlockSum s2len bl =
    bnd (wrapping ''read block sum1'' ReadInt32) (\<lambda>s1.
    bnd (wrapping ''read block sum2'' (readFull s2len)) (\<lambda>s2.
      ret \<lparr>sum1 = s1, sum2 = s2, blockLen = bl\<rparr>))"

definition setLastLen :: "i32 \<Rightarrow> block_sum list \<Rightarrow> block_sum list" where
  "setLastLen n sums = sums[length sums - 1 := (last sums)\<lparr>blockLen := n\<rparr>]"

definition receiveSums :: "int \<Rightarrow> (src, sum_head \<times> block_sum list) io" where
  "receiveSums ver =
    bnd (wrapping ''read sum head'' (ReadSumHead ver)) (\<lambda>sh.
      if sint (Count sh) \<le> 0 then ret (sh, [])
      else let s2len = (if sint (S2Length sh) \<le> 0 then 16 else unat (S2Length sh))
           in bnd (readN (unat (Count sh)) (readBlockSum s2len (BLength sh))) (\<lambda>sums.
                ret (sh, if Remainder sh \<noteq> 0 then setLastLen (Remainder sh) sums else sums)))"

subsection \<open>The block search\<close>

text \<open>What \<^verbatim>\<open>hashSearch\<close> uses of the transfer state: the strong hash and its parameters.\<close>

record hash_conf =
  hashFns :: hashes
  digestName :: gostring
  hseed :: i32
  hseedFix :: bool

text \<open>
  The hash table: \<open>table\<close> holds the last block index put into a slot (-1 for none), \<open>chain\<close>
  the index each block displaced.
\<close>

definition sumSlot :: "u32 \<Rightarrow> nat" where
  "sumSlot s = unat (((s AND 0xFFFF) + drop_bit 16 s) AND 0xFFFF)"

fun buildLoop :: "nat \<Rightarrow> block_sum list \<Rightarrow> (nat \<Rightarrow> int) \<times> int list \<Rightarrow> (nat \<Rightarrow> int) \<times> int list" where
  "buildLoop i [] tc = tc"
| "buildLoop i (s # sums) (table, chain) =
    (let entry = sumSlot (sum1 s)
     in buildLoop (Suc i) sums (table(entry := int i), chain @ [table entry]))"

definition buildTable :: "block_sum list \<Rightarrow> (nat \<Rightarrow> int) \<times> int list" where
  "buildTable sums = buildLoop 0 sums (\<lambda>_. -1, [])"

text \<open>
  The walk down a chain to the first block that passes the test. Chains go strictly down
  (\<open>chain_down\<close> below); the guard only makes the recursion evident.
\<close>

function chainFind :: "(nat \<Rightarrow> bool) \<Rightarrow> int list \<Rightarrow> int \<Rightarrow> nat option" where
  "chainFind P chain i =
    (if i < 0 then None
     else if P (nat i) then Some (nat i)
     else if chain ! nat i < i then chainFind P chain (chain ! nat i)
     else None)"
  by pat_completeness auto
termination
  by (relation "measure (\<lambda>(P, chain, i). nat (i + 1))") auto

declare chainFind.simps [simp del]

definition minInt :: "int \<Rightarrow> int \<Rightarrow> int" where
  "minInt a b = (if a < b then a else b)"

definition bytesEqual :: "byte list \<Rightarrow> byte list \<Rightarrow> bool" where
  "bytesEqual a b \<longleftrightarrow> length a = length b \<and> list_all (\<lambda>i. a ! i = b ! i) [0..<length a]"

lemma minInt_min [simp]: "minInt a b = min a b"
  by (simp add: minInt_def min_def)

lemma bytesEqual_iff [simp]: "bytesEqual a b \<longleftrightarrow> a = b"
  by (auto simp: bytesEqual_def list_all_iff intro: nth_equalityI)

text \<open>The test of block \<open>i\<close> against the data at \<open>offset\<close>.\<close>

definition blockMatches :: "hash_conf \<Rightarrow> byte list \<Rightarrow> int \<Rightarrow> block_sum list \<Rightarrow> int \<Rightarrow> u32 \<Rightarrow> u32 \<Rightarrow> nat \<Rightarrow> bool" where
  "blockMatches hc data blenI sums offset s1 s2 i =
    (let s = sums ! i; l = minInt blenI (int (length data) - offset)
     in sum1 s = (s1 OR s2) \<and> sint (blockLen s) = l \<and>
        bytesEqual (Checksum2 (hashFns hc) (take (nat l) (drop (nat offset) data)) (digestName hc)
          (length (sum2 s)) (hseed hc) (hseedFix hc)) (sum2 s))"

text \<open>
  Rolling the window one byte: the byte at \<open>offset\<close> leaves, the one at \<open>offset + k\<close> enters
  unless the data ends there, in which case the window shrinks.
\<close>

definition rollWindow :: "byte list \<Rightarrow> int \<Rightarrow> int \<Rightarrow> u32 \<Rightarrow> u32 \<Rightarrow> int \<times> u32 \<times> u32" where
  "rollWindow data offset k s1 s2 =
    (let b0 = ucast (data ! nat offset);
         s1' = s1 - b0;
         s2' = s2 - word_of_int k * b0
     in if offset + k < int (length data)
        then let s1'' = s1' + ucast (data ! nat (offset + k)) in (k, s1'', s2' + s1'')
        else (k - 1, s1', s2'))"

definition literalFill :: "byte list \<Rightarrow> int \<Rightarrow> int \<Rightarrow> delta_token list" where
  "literalFill data a b =
    (if b \<le> a then [] else [Literal (take (nat (b - a)) (drop (nat a) data))])"

text \<open>
  The search loop with its variables \<^verbatim>\<open>offset\<close>, \<^verbatim>\<open>lastMatch\<close>, \<^verbatim>\<open>k\<close>, \<^verbatim>\<open>s1\<close>, \<^verbatim>\<open>s2\<close> and the tokens sent so
  far. A match of a block that is not longer than zero bytes would not advance and is
  marked as such; it does not occur for a sum head that passed its checks.
\<close>

function hashLoop :: "hash_conf \<Rightarrow> byte list \<Rightarrow> int \<Rightarrow> block_sum list \<Rightarrow> (nat \<Rightarrow> int) \<Rightarrow> int list \<Rightarrow> int \<Rightarrow>
    int \<Rightarrow> int \<Rightarrow> int \<Rightarrow> u32 \<Rightarrow> u32 \<Rightarrow> delta_token list \<Rightarrow> go_error + delta_token list" where
  "hashLoop hc data blenI sums table chain end offset lastMatch k s1 s2 out =
    (case chainFind (blockMatches hc data blenI sums offset s1 s2) chain (table ((unat s1 + unat s2) mod 65536)) of
       Some idx \<Rightarrow>
         let matchLen = sint (blockLen (sums ! idx));
             out' = out @ literalFill data lastMatch offset @ [BlockIdx (word_of_nat idx)];
             lastMatch' = offset + matchLen;
             offset' = lastMatch' - 1;
             k' = max 0 (minInt blenI (int (length data) - offset'))
         in if matchLen \<le> 0 then Inl (Panic ''does not return'')
            else if offset' < 0 \<or> int (length data) \<le> offset' then Inl (Panic ''index out of range'')
            else let (s1f, s2f) = rollingChecksum (take (nat k') (drop (nat offset') data));
                     (k'', s1'', s2'') = rollWindow data offset' k' s1f s2f
                 in if end \<le> offset' + 1 then Inr (out' @ literalFill data lastMatch' (int (length data)))
                    else hashLoop hc data blenI sums table chain end (offset' + 1) lastMatch' k'' s1'' s2'' out'
     | None \<Rightarrow>
         if offset < 0 \<or> int (length data) \<le> offset then Inl (Panic ''index out of range'')
         else let (k', s1', s2') = rollWindow data offset k s1 s2;
                  early = (blenI + int deltaChunkSize \<le> offset - lastMatch \<and> int deltaChunkSize < end - offset);
                  out' = (if early then out @ literalFill data lastMatch (offset - blenI) else out);
                  lastMatch' = (if early then offset - blenI else lastMatch)
              in if end \<le> offset + 1 then Inr (out' @ literalFill data lastMatch' (int (length data)))
                 else hashLoop hc data blenI sums table chain end (offset + 1) lastMatch' k' s1' s2' out')"
  by pat_completeness auto
termination
  by (relation "measure (\<lambda>(hc, data, blenI, sums, table, chain, end, offset, lastMatch, k, s1, s2, out). nat (end - offset))")
     auto

declare hashLoop.simps [simp del]

definition hashSearch :: "hash_conf \<Rightarrow> byte list \<Rightarrow> i32 \<Rightarrow> block_sum list \<Rightarrow> go_error + delta_token list" where
  "hashSearch hc data blen sums =
    (if sums = [] \<or> sint blen < 0 then Inl (Panic ''index out of range'')
     else let (table, chain) = buildTable sums;
         blenI = sint blen;
         k = minInt (int (length data)) blenI;
         (s1, s2) = rollingChecksum (take (nat k) data);
         end = int (length data) + 1 - sint (blockLen (last sums))
     in hashLoop hc data blenI sums table chain end 0 0 k s1 s2 [])"

definition matchTokens :: "hash_conf \<Rightarrow> byte list \<Rightarrow> sum_head \<Rightarrow> block_sum list \<Rightarrow> go_error + delta_token list" where
  "matchTokens hc data sh sums =
    (if data \<noteq> [] \<and> 0 < sint (Count sh) then hashSearch hc data (BLength sh) sums
     else Inr [Literal data])"

definition matchSums :: "hash_conf \<Rightarrow> int \<Rightarrow> byte list \<Rightarrow> sum_head \<Rightarrow> block_sum list \<Rightarrow> go_error + byte list" where
  "matchSums hc ver data sh sums =
    (case matchTokens hc data sh sums of
       Inl err \<Rightarrow> Inl err
     | Inr ts \<Rightarrow> Inr (concat (map writeToken ts) @ WriteEnd @
                      FileChecksum (hashFns hc) data (digestName hc) ver (hseed hc)))"

section \<open>The hash table\<close>

definition table_ok :: "nat \<Rightarrow> (nat \<Rightarrow> int) \<times> int list \<Rightarrow> bool" where
  "table_ok n tc \<longleftrightarrow> length (snd tc) = n \<and> (\<forall>e. fst tc e < int n) \<and> (\<forall>i<n. snd tc ! i < int i)"

lemma buildLoop_ok: "table_ok i tc \<Longrightarrow> table_ok (i + length sums) (buildLoop i sums tc)"
proof (induction i sums tc rule: buildLoop.induct)
  case (2 i s sums table chain)
  have "table_ok (Suc i) (table(sumSlot (sum1 s) := int i), chain @ [table (sumSlot (sum1 s))])"
    using "2.prems" by (auto simp: table_ok_def nth_append less_Suc_eq intro: less_trans)
  from "2.IH" [OF refl this] show ?case by (simp add: Let_def)
qed simp

lemma chain_down: "table_ok (length sums) (buildTable sums)"
  unfolding buildTable_def using buildLoop_ok [of 0 "(\<lambda>_. -1, [])" sums] by (simp add: table_ok_def)

lemma chainFind_sound:
  assumes "chainFind P chain i = Some j" and "table_ok n (table, chain)" and "i < int n"
  shows "P j \<and> j < n"
  using assms
proof (induction P chain i rule: chainFind.induct)
  case (1 P chain i)
  have "\<not> i < 0" using "1.prems"(1) by (simp add: chainFind.simps [of P chain i] split: if_splits)
  then have n: "nat i < n" using "1.prems"(3) by simp
  show ?case
  proof (cases "P (nat i)")
    case True
    then show ?thesis using "1.prems"(1) \<open>\<not> i < 0\<close> n by (simp add: chainFind.simps [of P chain i])
  next
    case False
    have d: "chain ! nat i < i" using "1.prems"(2) n \<open>\<not> i < 0\<close> by (auto simp: table_ok_def)
    have "chainFind P chain (chain ! nat i) = Some j"
      using "1.prems"(1) False d \<open>\<not> i < 0\<close> by (simp add: chainFind.simps [of P chain i])
    from "1.IH" [OF \<open>\<not> i < 0\<close> False d this "1.prems"(2)] d "1.prems"(3) show ?thesis by simp
  qed
qed

text \<open>
  The walk finds a block exactly when one of the blocks filed under the slot passes the
  test: the table is a complete index.
\<close>

function chainSet :: "int list \<Rightarrow> int \<Rightarrow> nat set" where
  "chainSet chain i =
    (if i < 0 then {} else insert (nat i) (if chain ! nat i < i then chainSet chain (chain ! nat i) else {}))"
  by pat_completeness auto
termination
  by (relation "measure (\<lambda>(chain, i). nat (i + 1))") auto

declare chainSet.simps [simp del]

lemma chainFind_None: "chainFind P chain i = None \<longleftrightarrow> (\<forall>j\<in>chainSet chain i. \<not> P j)"
proof (induction P chain i rule: chainFind.induct)
  case (1 P chain i)
  then show ?case
    by (cases "i < 0"; cases "P (nat i)"; cases "chain ! nat i < i")
       (simp_all add: chainFind.simps [of P chain i] chainSet.simps [of chain i])
qed

lemma chainSet_append: "table_ok n (table, chain) \<Longrightarrow> i < int n \<Longrightarrow> chainSet (chain @ ext) i = chainSet chain i"
proof (induction chain i rule: chainSet.induct)
  case (1 chain i)
  show ?case
  proof (cases "i < 0")
    case True
    then show ?thesis by (simp add: chainSet.simps)
  next
    case False
    then have n: "nat i < length chain" using "1.prems" by (auto simp: table_ok_def)
    have "\<forall>j<length chain. chain ! j < int j" using "1.prems"(1) by (auto simp: table_ok_def)
    then have "chain ! nat i < int (nat i)" using n by blast
    then have d: "chain ! nat i < i" using False by simp
    with "1.IH" [OF False d "1.prems"(1)] "1.prems"(2) False n show ?thesis
      by (subst (1 2) chainSet.simps) (simp add: nth_append)
  qed
qed

definition slotsOf :: "nat \<Rightarrow> block_sum list \<Rightarrow> nat \<Rightarrow> nat set" where
  "slotsOf i sums e = {i + j | j. j < length sums \<and> sumSlot (sum1 (sums ! j)) = e}"

lemma slotsOf_Cons:
  "slotsOf i (s # sums) e = (if sumSlot (sum1 s) = e then {i} else {}) \<union> slotsOf (Suc i) sums e"
  unfolding slotsOf_def by (auto simp: less_Suc_eq_0_disj)

lemma buildLoop_index:
  "table_ok i tc \<Longrightarrow>
   chainSet (snd (buildLoop i sums tc)) (fst (buildLoop i sums tc) e) =
     chainSet (snd tc) (fst tc e) \<union> slotsOf i sums e"
proof (induction i sums tc rule: buildLoop.induct)
  case (1 i tc)
  then show ?case by (simp add: slotsOf_def)
next
  case (2 i s sums table chain)
  let ?e = "sumSlot (sum1 s)"
  let ?tc = "(table(?e := int i), chain @ [table ?e])"
  have ok: "table_ok (Suc i) ?tc"
    using "2.prems" by (auto simp: table_ok_def nth_append less_Suc_eq intro: less_trans)
  have len: "length chain = i" using "2.prems" by (simp add: table_ok_def)
  have lt: "table x < int i" for x using "2.prems" by (simp add: table_ok_def)
  have "chainSet (chain @ [table ?e]) (int i) = insert i (chainSet chain (table ?e))"
    using lt [of ?e] chainSet_append [OF "2.prems" lt]
    by (subst chainSet.simps) (simp add: len nth_append)
  then have "chainSet (snd ?tc) (fst ?tc e) =
      chainSet chain (table e) \<union> (if ?e = e then {i} else {})"
    using chainSet_append [OF "2.prems" lt] by auto
  with "2.IH" [OF refl ok] show ?case
    by (simp add: Let_def slotsOf_Cons Un_ac)
qed

lemma lookup_complete:
  assumes "buildTable sums = (table, chain)"
  shows "chainFind P chain (table e) = None \<longleftrightarrow>
    (\<forall>i<length sums. sumSlot (sum1 (sums ! i)) = e \<longrightarrow> \<not> P i)"
proof -
  have "chainSet chain (table e) = slotsOf 0 sums e"
    using buildLoop_index [of 0 "(\<lambda>_. -1, [])" sums e] assms
    by (simp add: buildTable_def table_ok_def chainSet.simps [of _ "-1"])
  then show ?thesis by (auto simp: chainFind_None slotsOf_def)
qed

section \<open>The rolling window\<close>

text \<open>Only the low 16 bits of the running sums matter, and they follow the window.\<close>

abbreviation low16 :: "u32 \<Rightarrow> u16" where "low16 \<equiv> ucast"

lemma low16_arith:
  "low16 (a + b) = low16 a + low16 b" "low16 (a - b) = low16 a - low16 b" "low16 (a * b) = low16 a * low16 b"
  by (simp_all add: word_uint_eq_iff unsigned_ucast_eq uint_word_ariths take_bit_eq_mod mod_simps mod_mod_cancel)

lemma low16_and: "low16 (a AND 0xffff) = low16 a"
  unfolding and_ffff by (rule bit_word_eqI) (simp add: bit_simps)

definition window :: "byte list \<Rightarrow> int \<Rightarrow> int \<Rightarrow> byte list" where
  "window data offset k = take (nat k) (drop (nat offset) data)"

definition sums_of :: "byte list \<Rightarrow> u32 \<Rightarrow> u32 \<Rightarrow> bool" where
  "sums_of bs s1 s2 \<longleftrightarrow> low16 s1 = low16 (weak1 bs) \<and> low16 s2 = low16 (weak2 bs)"

lemma sums_of_rolling: "rollingChecksum bs = (s1, s2) \<Longrightarrow> sums_of bs s1 s2"
  by (auto simp: rollingChecksum_weak sums_of_def low16_and)

lemma window_Cons:
  assumes "0 \<le> offset" "offset < int (length data)" "0 < k"
  shows "window data offset k = data ! nat offset # window data (offset + 1) (k - 1)"
proof -
  obtain n where n: "nat k = Suc n" "nat (k - 1) = n"
    using assms(3) by (cases "nat k") auto
  have "drop (nat offset) data = data ! nat offset # drop (nat (offset + 1)) data"
  proof -
    have "nat offset < length data" "nat (offset + 1) = Suc (nat offset)" using assms by simp_all
    then show ?thesis by (simp only: Cons_nth_drop_Suc)
  qed
  then show ?thesis by (simp add: window_def n)
qed

lemma window_snoc:
  assumes "0 \<le> offset" "0 \<le> k" "offset + k < int (length data)"
  shows "window data offset (k + 1) = window data offset k @ [data ! nat (offset + k)]"
proof -
  have "nat (k + 1) = Suc (nat k)" "nat (offset + k) = nat offset + nat k" using assms by simp_all
  then show ?thesis using assms by (simp add: window_def take_Suc_conv_app_nth nat_less_iff)
qed

lemma rollWindow_ok:
  assumes "0 \<le> offset" "offset < int (length data)" "0 < blenI"
    and k: "k = min blenI (int (length data) - offset)"
    and s: "sums_of (window data offset k) s1 s2"
    and r: "rollWindow data offset k s1 s2 = (k', s1', s2')"
  shows "k' = min blenI (int (length data) - (offset + 1)) \<and> sums_of (window data (offset + 1) k') s1' s2'"
proof -
  have kp: "0 < k" using assms(2-4) by simp
  let ?b = "data ! nat offset" and ?bs = "window data (offset + 1) (k - 1)"
  have W: "window data offset k = ?b # ?bs" by (rule window_Cons [OF assms(1,2) kp])
  have len: "word_of_int k = (of_nat (length (?b # ?bs)) :: u32)"
  proof -
    have "length (window data offset k) = nat k" using assms(1,2) k kp by (simp add: window_def)
    then have "k = int (length (?b # ?bs))" using kp unfolding W by simp
    then show ?thesis by (metis of_int_of_nat_eq)
  qed
  show ?thesis
  proof (cases "offset + k < int (length data)")
    case True
    let ?c = "data ! nat (offset + k)"
    have W': "window data (offset + 1) k = ?bs @ [?c]"
      using window_snoc [of "offset + 1" "k - 1" data] assms(1) kp True by (simp add: algebra_simps)
    have "k' = k" "s1' = s1 - ucast ?b + ucast ?c" "s2' = s2 - word_of_int k * ucast ?b + (s1 - ucast ?b + ucast ?c)"
      using r True by (auto simp: rollWindow_def Let_def)
    then show ?thesis
      using s True k unfolding sums_of_def W W' \<open>k' = k\<close> weak_roll [of ?bs ?c ?b] len by (auto simp: low16_arith)
  next
    case False
    have "k' = k - 1" "s1' = s1 - ucast ?b" "s2' = s2 - word_of_int k * ucast ?b"
      using r False by (auto simp: rollWindow_def Let_def)
    then show ?thesis
      using s False k unfolding sums_of_def W \<open>k' = k - 1\<close> weak_shrink [of ?bs ?b] len by (auto simp: low16_arith)
  qed
qed

section \<open>The search rebuilds the file\<close>

text \<open>
  The one assumption of the rsync algorithm: a stretch of the sender's file that has a
  block's length and strong checksum is that block of the receiver's basis.
\<close>

definition no_collision :: "hash_conf \<Rightarrow> byte list \<Rightarrow> block_sum list \<Rightarrow> (i32 \<Rightarrow> byte list) \<Rightarrow> bool" where
  "no_collision hc data sums basis \<longleftrightarrow>
    (\<forall>i<length sums. \<forall>off\<le>length data. \<forall>n\<le>length data.
       int n = sint (blockLen (sums ! i)) \<and>
       Checksum2 (hashFns hc) (take n (drop off data)) (digestName hc) (length (sum2 (sums ! i))) (hseed hc) (hseedFix hc)
         = sum2 (sums ! i) \<longrightarrow>
       take n (drop off data) = basis (word_of_nat i))"

text \<open>The loop invariant.\<close>

definition search_inv :: "byte list \<Rightarrow> int \<Rightarrow> (i32 \<Rightarrow> byte list) \<Rightarrow> int \<Rightarrow> int \<Rightarrow> int \<Rightarrow> u32 \<Rightarrow> u32 \<Rightarrow> delta_token list \<Rightarrow> bool" where
  "search_inv data blenI basis offset lastMatch k s1 s2 out \<longleftrightarrow>
     0 \<le> lastMatch \<and> lastMatch \<le> offset \<and> offset < int (length data) \<and>
     k = min blenI (int (length data) - offset) \<and> sums_of (window data offset k) s1 s2 \<and>
     rebuild basis out = take (nat lastMatch) data \<and> (\<forall>t\<in>set out. token_ok t)"

lemma rebuild_literalFill:
  assumes "rebuild basis out = take (nat a) data" "0 \<le> a" "a \<le> b" "b \<le> int (length data)"
  shows "rebuild basis (out @ literalFill data a b) = take (nat b) data"
proof -
  have "nat b = nat a + nat (b - a)" using assms by simp
  then have "take (nat b) data = take (nat a) data @ take (nat (b - a)) (drop (nat a) data)"
    by (simp only: take_add)
  then show ?thesis using assms by (auto simp: literalFill_def rebuild_def)
qed

lemma literalFill_ok: "t \<in> set (literalFill data a b) \<Longrightarrow> token_ok t"
  by (auto simp: literalFill_def split: if_splits)

lemma sint_index: "i < n \<Longrightarrow> n < 2 ^ 31 \<Longrightarrow> 0 \<le> sint (word_of_nat i :: i32)"
  by (simp add: sint_word_of_nat)

text \<open>One turn of the loop, for both outcomes of the lookup.\<close>

lemma search_no_match:
  assumes inv: "search_inv data blenI basis offset lastMatch k s1 s2 out" and b: "0 < blenI"
    and r: "rollWindow data offset k s1 s2 = (k', s1', s2')"
    and early: "early \<longrightarrow> blenI + int deltaChunkSize \<le> offset - lastMatch"
    and nxt: "offset + 1 < int (length data)"
  shows "search_inv data blenI basis (offset + 1) (if early then offset - blenI else lastMatch) k' s1' s2'
    (if early then out @ literalFill data lastMatch (offset - blenI) else out)"
  using rollWindow_ok [OF _ _ b _ _ r] inv early nxt b rebuild_literalFill [of basis out lastMatch data "offset - blenI"]
  by (auto simp: search_inv_def literalFill_ok)

lemma search_match:
  assumes inv: "search_inv data blenI basis offset lastMatch k s1 s2 out" and b: "0 < blenI"
    and coll: "no_collision hc data sums basis"
    and idx: "idx < length sums" "length sums < 2 ^ 31"
    and m: "blockMatches hc data blenI sums offset s1 s2 idx"
  defines "n \<equiv> sint (blockLen (sums ! idx))"
  defines "out' \<equiv> out @ literalFill data lastMatch offset @ [BlockIdx (word_of_nat idx)]"
  shows "0 < n" and "offset + n \<le> int (length data)"
    and "rebuild basis out' = take (nat (offset + n)) data" and "\<forall>t\<in>set out'. token_ok t"
proof -
  have o: "0 \<le> offset" "offset < int (length data)" "0 \<le> lastMatch" "lastMatch \<le> offset"
    using inv by (simp_all add: search_inv_def)
  have n: "n = min blenI (int (length data) - offset)"
    and cs: "Checksum2 (hashFns hc) (take (nat n) (drop (nat offset) data)) (digestName hc)
         (length (sum2 (sums ! idx))) (hseed hc) (hseedFix hc) = sum2 (sums ! idx)"
    using m by (auto simp: blockMatches_def Let_def n_def)
  show p: "0 < n" and le: "offset + n \<le> int (length data)" using n b o by auto
  have block: "take (nat n) (drop (nat offset) data) = basis (word_of_nat idx)"
    using coll [unfolded no_collision_def, rule_format, of idx "nat offset" "nat n"] idx(1) cs o p le
    by (simp add: n_def [symmetric])
  have "rebuild basis (out @ literalFill data lastMatch offset) = take (nat offset) data"
    using inv o by (intro rebuild_literalFill) (simp_all add: search_inv_def)
  moreover have "nat (offset + n) = nat offset + nat n" using o p by simp
  ultimately show "rebuild basis out' = take (nat (offset + n)) data"
    by (simp add: out'_def rebuild_def take_add block)
  show "\<forall>t\<in>set out'. token_ok t"
    using inv sint_index [OF idx] by (auto simp: out'_def search_inv_def literalFill_ok)
qed

lemma hashLoop_ok:
  assumes "0 < blenI" and "end \<le> int (length data)" and "no_collision hc data sums basis"
    and "buildTable sums = (table, chain)" and "length sums < 2 ^ 31"
    and "search_inv data blenI basis offset lastMatch k s1 s2 out"
  shows "\<exists>ts. hashLoop hc data blenI sums table chain end offset lastMatch k s1 s2 out = Inr ts \<and>
     rebuild basis ts = data \<and> (\<forall>t\<in>set ts. token_ok t)"
  using assms(6)
proof (induction "nat (end - offset)" arbitrary: offset lastMatch k s1 s2 out rule: less_induct)
  case less
  note inv = less.prems
  have o: "0 \<le> offset" "offset < int (length data)" "0 \<le> lastMatch" "lastMatch \<le> offset"
    using inv by (simp_all add: search_inv_def)
  let ?find = "chainFind (blockMatches hc data blenI sums offset s1 s2) chain (table ((unat s1 + unat s2) mod 65536))"
  show ?case
  proof (cases ?find)
    case None
    obtain k' s1' s2' where r: "rollWindow data offset k s1 s2 = (k', s1', s2')" by (cases "rollWindow data offset k s1 s2")
    define early where "early \<longleftrightarrow> blenI + int deltaChunkSize \<le> offset - lastMatch \<and> int deltaChunkSize < end - offset"
    define l where "l = (if early then offset - blenI else lastMatch)"
    define out' where "out' = (if early then out @ literalFill data lastMatch (offset - blenI) else out)"
    have step: "hashLoop hc data blenI sums table chain end offset lastMatch k s1 s2 out =
        (if end \<le> offset + 1 then Inr (out' @ literalFill data l (int (length data)))
         else hashLoop hc data blenI sums table chain end (offset + 1) l k' s1' s2' out')"
      using o by (subst hashLoop.simps) (simp add: None r Let_def early_def [symmetric] out'_def l_def)
    have e: "rebuild basis out' = take (nat l) data" "0 \<le> l" "l \<le> int (length data)" "\<forall>t\<in>set out'. token_ok t"
      using inv o assms(1) rebuild_literalFill [of basis out lastMatch data "offset - blenI"]
      by (auto simp: out'_def l_def early_def search_inv_def literalFill_ok)
    show ?thesis
    proof (cases "end \<le> offset + 1")
      case True
      then show ?thesis
        using step e rebuild_literalFill [of basis out' l data "int (length data)"] literalFill_ok by auto
    next
      case False
      then have "search_inv data blenI basis (offset + 1) l k' s1' s2' out'"
        using search_no_match [OF inv assms(1) r, of early] assms(2) by (simp add: early_def l_def out'_def)
      with less.hyps [of "offset + 1"] False show ?thesis by (simp add: step)
    qed
  next
    case (Some idx)
    have "chainFind (blockMatches hc data blenI sums offset s1 s2) chain (table ((unat s1 + unat s2) mod 65536)) = Some idx"
      by (rule Some)
    moreover have tok: "table_ok (length sums) (table, chain)" using chain_down [of sums] assms(4) by simp
    moreover have "table ((unat s1 + unat s2) mod 65536) < int (length sums)" using tok by (simp add: table_ok_def)
    ultimately have m: "blockMatches hc data blenI sums offset s1 s2 idx" "idx < length sums"
      using chainFind_sound by blast+
    let ?n = "sint (blockLen (sums ! idx))"
    let ?out = "out @ literalFill data lastMatch offset @ [BlockIdx (word_of_nat idx)]"
    note M = search_match [OF inv assms(1,3) m(2) assms(5) m(1)]
    let ?o = "offset + ?n - 1"
    let ?k = "max 0 (min blenI (int (length data) - ?o))"
    obtain s1f s2f where rc: "rollingChecksum (take (nat ?k) (drop (nat ?o) data)) = (s1f, s2f)"
      by (cases "rollingChecksum (take (nat ?k) (drop (nat ?o) data))")
    obtain k' s1' s2' where r: "rollWindow data ?o ?k s1f s2f = (k', s1', s2')" by (cases "rollWindow data ?o ?k s1f s2f")
    have in_range: "0 \<le> ?o" "?o < int (length data)" using o M(1,2) by simp_all
    have step: "hashLoop hc data blenI sums table chain end offset lastMatch k s1 s2 out =
        (if end \<le> ?o + 1 then Inr (?out @ literalFill data (?o + 1) (int (length data)))
         else hashLoop hc data blenI sums table chain end (?o + 1) (?o + 1) k' s1' s2' ?out)"
      using M(1) in_range by (subst hashLoop.simps) (simp add: Some rc r Let_def)
    have k: "?k = min blenI (int (length data) - ?o)" using in_range assms(1) by simp
    show ?thesis
    proof (cases "end \<le> ?o + 1")
      case True
      then show ?thesis
        using step M rebuild_literalFill [of basis ?out "?o + 1" data "int (length data)"] literalFill_ok in_range
        by auto
    next
      case False
      have "k' = min blenI (int (length data) - (?o + 1)) \<and> sums_of (window data (?o + 1) k') s1' s2'"
        by (rule rollWindow_ok [OF in_range assms(1) k _ r]) (use sums_of_rolling [OF rc] in \<open>simp add: window_def\<close>)
      then have kk: "k' = min blenI (int (length data) - (?o + 1))"
        and ss: "sums_of (window data (?o + 1) k') s1' s2'" by blast+
      have "search_inv data blenI basis (?o + 1) (?o + 1) k' s1' s2' ?out"
        unfolding search_inv_def
        by (intro conjI kk ss) (use M in_range False assms(2) in \<open>simp_all\<close>)
      moreover have "nat (end - (?o + 1)) < nat (end - offset)" using M(1) False by simp
      ultimately show ?thesis using less.hyps [of "?o + 1"] False by (simp only: step) simp
    qed
  qed
qed

text \<open>
  With a positive block length and a last block that is not longer than it says it is, the
  search never panics and its tokens rebuild the data.
\<close>

lemma hashSearch_ok:
  assumes "data \<noteq> []" and "0 < sint blen" and "sums \<noteq> []" and "0 < sint (blockLen (last sums))"
    and "no_collision hc data sums basis" and "length sums < 2 ^ 31"
  shows "\<exists>ts. hashSearch hc data blen sums = Inr ts \<and> rebuild basis ts = data \<and> (\<forall>t\<in>set ts. token_ok t)"
proof -
  obtain table chain where t: "buildTable sums = (table, chain)" by (cases "buildTable sums")
  let ?k = "min (int (length data)) (sint blen)"
  obtain s1 s2 where r: "rollingChecksum (take (nat ?k) data) = (s1, s2)" by (cases "rollingChecksum (take (nat ?k) data)")
  have "search_inv data (sint blen) basis 0 0 ?k s1 s2 []"
    using assms(1,2) sums_of_rolling [OF r] by (simp add: search_inv_def window_def min.commute)
  from hashLoop_ok [OF assms(2) _ assms(5) t assms(6) this] assms(2-4) show ?thesis
    by (simp add: hashSearch_def t r Let_def)
qed

lemma matchTokens_ok:
  assumes "0 < sint (Count sh) \<longrightarrow> 0 < sint (BLength sh) \<and> sums \<noteq> [] \<and> 0 < sint (blockLen (last sums))"
    and "no_collision hc data sums basis" and "length sums < 2 ^ 31"
  shows "\<exists>ts. matchTokens hc data sh sums = Inr ts \<and> rebuild basis ts = data \<and> (\<forall>t\<in>set ts. token_ok t)"
  using hashSearch_ok [OF _ _ _ _ assms(2,3)] assms(1)
  by (auto simp: matchTokens_def rebuild_def)

text \<open>What \<^verbatim>\<open>receiveSums\<close> guarantees of the block list; a negative remainder gets through.\<close>

lemma readN_length: "readN n m s = (Inr xs, s') \<Longrightarrow> length xs = n"
  by (induction n arbitrary: s s' xs) (auto simp: bnd_Inr_iff)

lemma readN_all: "readN n m s = (Inr xs, s') \<Longrightarrow> (\<And>t x t'. m t = (Inr x, t') \<Longrightarrow> P x) \<Longrightarrow> x \<in> set xs \<Longrightarrow> P x"
  by (induction n arbitrary: s s' xs) (auto simp: bnd_Inr_iff)

lemma receiveSums_ok:
  assumes "receiveSums ver s = (Inr (sh, sums), s')"
  shows "sum_ok ver sh \<and> length sums = nat (sint (Count sh)) \<and> length sums < 2 ^ 31 \<and>
    (sums \<noteq> [] \<longrightarrow> 0 < sint (BLength sh) \<and>
       blockLen (last sums) = (if Remainder sh \<noteq> 0 then Remainder sh else BLength sh) \<and>
       (\<forall>i<length sums - 1. blockLen (sums ! i) = BLength sh))"
proof -
  obtain sh' t where h: "ReadSumHead ver s = (Inr sh', t)"
    using assms by (auto simp: receiveSums_def bnd_Inr_iff wrapping_def split: prod.splits sum.splits)
  note ok = ReadSumHead_accepts [OF h]
  have c: "0 < sint (Count sh') \<Longrightarrow> nat (sint (Count sh')) = unat (Count sh') \<and> 0 < unat (Count sh') \<and> unat (Count sh') < 2 ^ 31"
  proof -
    assume p: "0 < sint (Count sh')"
    then have "nat (sint (Count sh')) = unat (Count sh')" by (metis less_imp_le nat_int unat_sint)
    with p sint_lt [of "Count sh'"] show ?thesis by auto
  qed
  show ?thesis
  proof (cases "sint (Count sh') \<le> 0")
    case True
    then have "sh = sh'" "sums = []"
      using assms h by (auto simp: receiveSums_def bnd_def wrapping_def)
    with ok True show ?thesis by simp
  next
    case False
    obtain xs u n where x: "readN (unat (Count sh')) (readBlockSum n (BLength sh')) t = (Inr xs, u)"
      and e: "sh = sh'" "sums = (if Remainder sh' \<noteq> 0 then setLastLen (Remainder sh') xs else xs)"
      using assms h False by (auto simp: receiveSums_def bnd_Inr_iff wrapping_def Let_def)
    have len: "length xs = unat (Count sh')" by (rule readN_length [OF x])
    have bl: "\<forall>b\<in>set xs. blockLen b = BLength sh'"
    proof
      fix b assume "b \<in> set xs"
      then show "blockLen b = BLength sh'"
        by (rule readN_all [OF x, rotated]) (auto simp: readBlockSum_def bnd_Inr_iff)
    qed
    have "xs \<noteq> []" using c False len by auto
    then have "last xs \<in> set xs" "\<And>i. i < length xs - 1 \<Longrightarrow> xs ! i \<in> set xs" by auto
    with bl ok e c False len \<open>xs \<noteq> []\<close> show ?thesis
      by (auto simp: sum_ok_def setLastLen_def last_conv_nth)
  qed
qed

text \<open>
  A negative remainder makes the scan limit lie beyond the data; the loop then runs off
  the end and panics, whatever the data.
\<close>

definition scan_inv :: "byte list \<Rightarrow> int \<Rightarrow> bool" where
  "scan_inv data offset \<longleftrightarrow> 0 \<le> offset \<and> offset \<le> int (length data)"

lemma hashLoop_panics:
  assumes "0 < blenI" and "int (length data) + 1 < end"
    and "buildTable sums = (table, chain)" and "\<forall>i<length sums. blockLen (sums ! i) \<noteq> 0"
    and "scan_inv data offset"
  shows "hashLoop hc data blenI sums table chain end offset lastMatch k s1 s2 out = Inl (Panic ''index out of range'')"
  using assms(5)
proof (induction "nat (end - offset)" arbitrary: offset lastMatch k s1 s2 out rule: less_induct)
  case less
  have o: "0 \<le> offset" "offset \<le> int (length data)" using less.prems by (simp_all add: scan_inv_def)
  let ?find = "chainFind (blockMatches hc data blenI sums offset s1 s2) chain (table ((unat s1 + unat s2) mod 65536))"
  show ?case
  proof (cases ?find)
    case None
    obtain k' s1' s2' where r: "rollWindow data offset k s1 s2 = (k', s1', s2')" by (cases "rollWindow data offset k s1 s2")
    show ?thesis
    proof (cases "offset = int (length data)")
      case True
      show ?thesis
        unfolding True using None [unfolded True] by (subst hashLoop.simps) simp
    next
      case False
      with o assms(2) have "scan_inv data (offset + 1)" "nat (end - (offset + 1)) < nat (end - offset)" "\<not> end \<le> offset + 1"
        by (simp_all add: scan_inv_def)
      with less.hyps [of "offset + 1"] o False show ?thesis
        by (subst hashLoop.simps) (simp add: None r Let_def)
    qed
  next
    case (Some idx)
    have tok: "table_ok (length sums) (table, chain)" using chain_down [of sums] assms(3) by simp
    moreover have "table ((unat s1 + unat s2) mod 65536) < int (length sums)" using tok by (simp add: table_ok_def)
    ultimately have m: "blockMatches hc data blenI sums offset s1 s2 idx" "idx < length sums"
      using chainFind_sound [OF Some] by blast+
    let ?n = "sint (blockLen (sums ! idx))"
    have n: "?n = min blenI (int (length data) - offset)" using m(1) by (simp add: blockMatches_def Let_def)
    have False: "\<not> ?n \<le> 0"
      using n o assms(1) assms(4) m(2) by (auto simp: min_def signed_eq_0_iff split: if_splits)
    show ?thesis
    proof -
      let ?o = "offset + ?n - 1"
      let ?k = "max 0 (min blenI (int (length data) - ?o))"
      obtain s1f s2f where rc: "rollingChecksum (take (nat ?k) (drop (nat ?o) data)) = (s1f, s2f)"
        by (cases "rollingChecksum (take (nat ?k) (drop (nat ?o) data))")
      obtain k' s1' s2' where r: "rollWindow data ?o ?k s1f s2f = (k', s1', s2')" by (cases "rollWindow data ?o ?k s1f s2f")
      have "scan_inv data (?o + 1)" "nat (end - (?o + 1)) < nat (end - offset)" "\<not> end \<le> ?o + 1"
          "0 \<le> ?o" "?o < int (length data)"
        using o n False assms(1,2) by (auto simp: scan_inv_def min_def split: if_splits)
      with less.hyps [of "?o + 1"] False show ?thesis
        by (subst hashLoop.simps) (simp add: Some rc r Let_def)
    qed
  qed
qed

text \<open>
  A correctly computed weak checksum of a block can pass the sender's comparison
  \<^verbatim>\<open>s.sum1 != s1|s2\<close> only when the second sum is zero: the halves are combined there without
  the shift that \<^verbatim>\<open>Checksum1\<close> applies.
\<close>

lemma weak_compare:
  assumes "rollingChecksum bs = (s1, s2)" and "Checksum1 bs = s1 OR s2"
  shows "s2 = 0"
proof -
  have s: "s1 = take_bit 16 (weak1 bs)" "s2 = take_bit 16 (weak2 bs)"
    using assms(1) unfolding rollingChecksum_weak and_ffff by simp_all
  have eq: "s1 OR s2 = s1 OR push_bit 16 s2"
    using Checksum1_rolling [of bs] assms by simp
  have "\<not> bit s2 i" for i
  proof
    assume b: "bit s2 i"
    then have i: "i < 16" unfolding s(2) by (simp add: bit_simps)
    have "bit (s1 OR push_bit 16 s2) (i + 16)" using b i by (simp add: bit_simps)
    then have "bit (s1 OR s2) (i + 16)" by (simp only: eq)
    then show False unfolding s by (simp add: bit_simps)
  qed
  then show "s2 = 0" by (intro bit_word_eqI) simp
qed

section \<open>Properties\<close>

lemma parse_match_stream:
  assumes "\<forall>t\<in>set ts. token_ok t"
  shows "ParseDeltaStream (Src ((concat (map writeToken ts) @ WriteEnd @ csum) @ rest) e) =
    (Inr (concat (map token_view ts)), Src (csum @ rest) e)"
  using ParseDelta_WriteDelta [OF assms, of "csum @ rest" e] by (simp add: WriteDeltaStream_def)

text \<open>
  C19: for every sum struct the sender accepts whose remainder is not negative, the delta
  it sends for a file is complete: the search never panics, and a receiver that parses the
  stream and takes matched blocks from its basis gets exactly the file, followed by the
  whole-file checksum. The only assumption is that strong checksums do not collide.
\<close>

theorem delta_rebuilds:
  assumes "receiveSums ver s = (Inr (sh, sums), s')" and "0 \<le> sint (Remainder sh)"
    and "no_collision hc data sums basis"
  shows "\<exists>bs ts. matchSums hc ver data sh sums = Inr bs \<and>
    ParseDeltaStream (Src (bs @ rest) e) =
      (Inr ts, Src (FileChecksum (hashFns hc) data (digestName hc) ver (hseed hc) @ rest) e) \<and>
    rebuild basis ts = data"
proof -
  note r = receiveSums_ok [OF assms(1)]
  have "0 < sint (Count sh) \<longrightarrow> 0 < sint (BLength sh) \<and> sums \<noteq> [] \<and> 0 < sint (blockLen (last sums))"
    using r assms(2) sint_pos [of "Remainder sh"] by auto
  from matchTokens_ok [OF this assms(3)] r obtain ts where
    ts: "matchTokens hc data sh sums = Inr ts" "rebuild basis ts = data" "\<forall>t\<in>set ts. token_ok t"
    by blast
  show ?thesis
    using ts parse_match_stream [OF ts(3)] rebuild_views [of basis ts] by (simp add: matchSums_def)
qed

definition demoHash :: hash_conf where
  "demoHash = \<lparr>hashFns = \<lparr>md4 = (\<lambda>bs. replicate 16 9), md5 = (\<lambda>bs. replicate 16 9)\<rparr>,
    digestName = str ''md4'', hseed = 0, hseedFix = False\<rparr>"

theorem delta_rebuilds_witness:
  "\<exists>sh sums s' bs ts. receiveSums 31 (Src [1, 0, 0, 0, 3, 0, 0, 0, 2, 0, 0, 0, 0, 0, 0, 0, 6, 0, 10, 0, 7, 7] EOF) = (Inr (sh, sums), s') \<and>
     matchSums demoHash 31 [1, 2, 3] sh sums = Inr bs \<and>
     ParseDeltaStream (Src (bs @ []) EOF) = (Inr ts, Src (FileChecksum (hashFns demoHash) [1, 2, 3] (str ''md4'') 31 0 @ []) EOF) \<and>
     rebuild (\<lambda>_. []) ts = [1, 2, 3]"
proof -
  let ?sh = "\<lparr>Count = 1, BLength = 3, S2Length = 2, Remainder = 0\<rparr>"
  let ?sums = "[\<lparr>sum1 = 655366, sum2 = [7, 7], blockLen = 3\<rparr>]"
  have r: "receiveSums 31 (Src [1, 0, 0, 0, 3, 0, 0, 0, 2, 0, 0, 0, 0, 0, 0, 0, 6, 0, 10, 0, 7, 7] EOF) = (Inr (?sh, ?sums), Src [] EOF)"
    by code_simp
  have "no_collision demoHash [1, 2, 3] ?sums (\<lambda>_. [])"
    by (simp add: no_collision_def demoHash_def Checksum2_def Let_def)
  from delta_rebuilds [OF r _ this, of "[]" EOF] r show ?thesis
    by (simp add: demoHash_def)
qed

text \<open>
  C36: the sum head's remainder is not validated. With a negative one and at least one block,
  the scan limit lies behind the end of the data and the sender's index expression panics
  for every non-empty file.
\<close>

theorem negative_remainder_panics:
  assumes "receiveSums ver s = (Inr (sh, sums), s')" and "0 < sint (Count sh)"
    and "sint (Remainder sh) < 0" and "data \<noteq> []"
  shows "matchSums hc ver data sh sums = Inl (Panic ''index out of range'')"
proof -
  note r = receiveSums_ok [OF assms(1)]
  have s: "sums \<noteq> []" "0 < sint (BLength sh)" "blockLen (last sums) = Remainder sh"
    using r assms(2,3) by auto
  have nz: "blockLen (sums ! i) \<noteq> 0" if "i < length sums" for i
  proof (cases "i = length sums - 1")
    case True
    then show ?thesis using s assms(3) by (auto simp: last_conv_nth)
  next
    case False
    then have "blockLen (sums ! i) = BLength sh" using r s(1) that by auto
    then show ?thesis using s(2) by auto
  qed
  obtain table chain where t: "buildTable sums = (table, chain)" by (cases "buildTable sums")
  let ?k = "min (int (length data)) (sint (BLength sh))"
  obtain s1 s2 where c: "rollingChecksum (take (nat ?k) data) = (s1, s2)" by (cases "rollingChecksum (take (nat ?k) data)")
  have "hashSearch hc data (BLength sh) sums = Inl (Panic ''index out of range'')"
    using hashLoop_panics [OF s(2) _ t, of data "int (length data) + 1 - sint (Remainder sh)" 0] nz s assms(3)
    by (simp add: hashSearch_def t c Let_def scan_inv_def)
  then show ?thesis using assms(2,4) by (simp add: matchSums_def matchTokens_def)
qed

theorem negative_remainder_panics_witness:
  "\<exists>sh sums s'. receiveSums 31 (Src [1, 0, 0, 0, 3, 0, 0, 0, 2, 0, 0, 0, 255, 255, 255, 255, 6, 0, 10, 0, 7, 7] EOF) = (Inr (sh, sums), s') \<and>
     matchSums demoHash 31 [1, 2, 3] sh sums = Inl (Panic ''index out of range'')"
proof -
  let ?sh = "\<lparr>Count = 1, BLength = 3, S2Length = 2, Remainder = - 1\<rparr>"
  have r: "receiveSums 31 (Src [1, 0, 0, 0, 3, 0, 0, 0, 2, 0, 0, 0, 255, 255, 255, 255, 6, 0, 10, 0, 7, 7] EOF) =
      (Inr (?sh, [\<lparr>sum1 = 655366, sum2 = [7, 7], blockLen = - 1\<rparr>]), Src [] EOF)"
    by code_simp
  from negative_remainder_panics [OF r, of "[1, 2, 3]" demoHash] r show ?thesis by simp
qed

text \<open>
  The chained hash table is a complete index of the block list: following the chain
  of a slot finds a block that passes a test if and only if some block filed under that
  slot passes it, and what it finds is a block of the list that passes.
\<close>

theorem hash_lookup:
  assumes "buildTable sums = (table, chain)"
  shows "(chainFind P chain (table e) = None \<longleftrightarrow>
           (\<forall>i<length sums. sumSlot (sum1 (sums ! i)) = e \<longrightarrow> \<not> P i)) \<and>
         (\<forall>j. chainFind P chain (table e) = Some j \<longrightarrow> j < length sums \<and> P j)"
proof -
  have tok: "table_ok (length sums) (table, chain)" using chain_down [of sums] assms by simp
  then have "table e < int (length sums)" by (simp add: table_ok_def)
  with tok lookup_complete [OF assms, of P e] chainFind_sound [of P chain "table e"] show ?thesis by blast
qed

theorem hash_lookup_witness:
  "chainFind (\<lambda>i. i = 0) [-1, 0] 1 = Some 0"
proof -
  let ?s = "\<lparr>sum1 = 5, sum2 = [], blockLen = 1\<rparr>"
  have b: "buildTable [?s, ?s] = ((\<lambda>_. -1)(5 := 0, 5 := 1), [-1, 0])"
    by (simp add: buildTable_def Let_def sumSlot_def)
  have "sumSlot 5 = 5" by code_simp
  with hash_lookup [OF b, of "\<lambda>i. i = 0" 5] show ?thesis by (force simp: less_Suc_eq)
qed

text \<open>
  C37: a file of one block that the receiver already has is sent again. The sender combines the
  two rolling sums without the shift by sixteen bits that the checksum has, so for a block
  whose second sum is not zero the correct weak checksum does not pass its comparison, and the
  whole file goes out as literal data, whatever the strong checksum says.
\<close>

theorem unchanged_file_resent:
  assumes "rollingChecksum data = (s1, s2)" and "s2 \<noteq> 0" and "0 < sint (Count sh)"
    and "int (length data) \<le> sint (BLength sh)" and "sint n = int (length data)"
  shows "matchSums hc ver data sh [\<lparr>sum1 = Checksum1 data, sum2 = strong, blockLen = n\<rparr>] =
    Inr (writeToken (Literal data) @ WriteEnd @ FileChecksum (hashFns hc) data (digestName hc) ver (hseed hc))"
proof -
  let ?s = "\<lparr>sum1 = Checksum1 data, sum2 = strong, blockLen = n\<rparr>"
  have d: "data \<noteq> []" using assms(1,2) by (auto simp: rollingChecksum_def)
  have b: "0 < sint (BLength sh)" using d assms(4) by (cases data) auto
  obtain table chain where t: "buildTable [?s] = (table, chain)" by (cases "buildTable [?s]")
  have tok: "table_ok 1 (table, chain)" using chain_down [of "[?s]"] t by simp
  have "\<not> blockMatches hc data (sint (BLength sh)) [?s] 0 s1 s2 0"
    using weak_compare [OF assms(1)] assms(2) by (auto simp: blockMatches_def Let_def)
  then have c: "chainFind (blockMatches hc data (sint (BLength sh)) [?s] 0 s1 s2) chain (table e) = None" for e
    using chainFind_sound [OF _ tok, of "blockMatches hc data (sint (BLength sh)) [?s] 0 s1 s2" "table e"] tok
    by (cases "chainFind (blockMatches hc data (sint (BLength sh)) [?s] 0 s1 s2) chain (table e)") (auto simp: table_ok_def)
  have k: "min (int (length data)) (sint (BLength sh)) = int (length data)" using assms(4) by simp
  have "hashSearch hc data (BLength sh) [?s] = Inr [Literal data]"
    using d b c by (simp add: hashSearch_def t k assms(1,5) hashLoop.simps [of _ _ _ _ _ _ _ 0] literalFill_def split: prod.split)
  then show ?thesis using d assms(3) by (simp add: matchSums_def matchTokens_def)
qed

theorem unchanged_file_resent_witness:
  "matchSums demoHash 31 [1, 2, 3] \<lparr>Count = 1, BLength = 700, S2Length = 2, Remainder = 3\<rparr>
     [\<lparr>sum1 = Checksum1 [1, 2, 3], sum2 = [9, 9], blockLen = 3\<rparr>] =
   Inr (writeToken (Literal [1, 2, 3]) @ WriteEnd @ FileChecksum (hashFns demoHash) [1, 2, 3] (digestName demoHash) 31 (hseed demoHash))"
  by (rule unchanged_file_resent [of _ 6 10]) code_simp+

end
