(* ===== verification/Flist_Codec.thy ===== *)
theory Flist_Codec
  imports Wire_Ints Protocol_Constants
begin

text \<open>
  \<^verbatim>\<open>src/protocol/flist.go\<close>: the file list. An entry is delta-encoded against the previous
  one: a word of transmission flags says which fields repeat, and the name is cut to the
  part behind the common prefix. Reader and writer keep the previous values in their
  structs; \<^verbatim>\<open>ReadEntry\<close> and \<^verbatim>\<open>WriteEntry\<close> are given here field by field, in the order of the
  code, and the round trip of a whole entry is put together from those of the fields.
\<close>

section \<open>Definitions\<close>

definition MaxPathLen :: int where "MaxPathLen = 4096"

record flist_entry =
  Name :: gostring
  Mode :: u32
  Size :: i64
  Mtime :: i64
  ModNsec :: i32
  Atime :: i64
  UID :: i32
  GID :: i32
  UserName :: gostring
  GroupName :: gostring
  RdevMajor :: u32
  RdevMinor :: u32
  LinkTarget :: gostring
  HlinkNdx :: i32
  Nlink :: i64
  Dev :: i64
  Ino :: i64
  Checksum :: "byte list"
  TopDir :: bool
  NoContentDir :: bool

definition emptyEntry :: flist_entry where
  "emptyEntry =
    \<lparr>Name = [], Mode = 0, Size = 0, Mtime = 0, ModNsec = 0, Atime = 0, UID = 0, GID = 0,
     UserName = [], GroupName = [], RdevMajor = 0, RdevMinor = 0, LinkTarget = [], HlinkNdx = 0,
     Nlink = 0, Dev = 0, Ino = 0, Checksum = [], TopDir = False, NoContentDir = False\<rparr>"

text \<open>
  The fields \<^verbatim>\<open>FlistReader\<close> and \<^verbatim>\<open>FlistWriter\<close> have in common, and the two structs. The
  reader's \<^verbatim>\<open>lastDir\<close> is never used by the code.
\<close>

record flist_state =
  fversion :: int
  varintFlistFlags :: bool
  hasAtimes :: bool
  hasCrtimes :: bool
  preserveUID :: bool
  preserveGID :: bool
  preserveDevices :: bool
  preserveLinks :: bool
  preserveHardlinks :: bool
  alwaysChecksum :: bool
  lastMode :: u32
  lastUID :: i32
  lastGID :: i32
  lastMtime :: i64
  lastAtime :: i64
  lastRdevMajor :: u32
  lastName :: gostring

record flist_reader = flist_state +
  incRecurse :: bool
  used :: int
  lastDir :: i64

record flist_writer = flist_state +
  id0Names :: bool
  lastDev :: i64

definition NewFlistReader :: "int \<Rightarrow> bool \<Rightarrow> flist_reader" where
  "NewFlistReader v varintFlags =
    \<lparr>fversion = v, varintFlistFlags = varintFlags, hasAtimes = False, hasCrtimes = False,
     preserveUID = True, preserveGID = True, preserveDevices = True, preserveLinks = True,
     preserveHardlinks = True, alwaysChecksum = False,
     lastMode = 0, lastUID = 0, lastGID = 0, lastMtime = 0, lastAtime = 0, lastRdevMajor = 0,
     lastName = [], incRecurse = False, used = 0, lastDir = 0\<rparr>"

definition NewFlistWriter :: "int \<Rightarrow> bool \<Rightarrow> flist_writer" where
  "NewFlistWriter v varintFlags =
    \<lparr>fversion = v, varintFlistFlags = varintFlags, hasAtimes = False, hasCrtimes = False,
     preserveUID = True, preserveGID = True, preserveDevices = True, preserveLinks = True,
     preserveHardlinks = True, alwaysChecksum = False,
     lastMode = 0, lastUID = 0, lastGID = 0, lastMtime = 0, lastAtime = 0, lastRdevMajor = 0,
     lastName = [], id0Names = False, lastDev = 0\<rparr>"

text \<open>The option setters, shared by both structs.\<close>

definition SetAtimes :: "bool \<Rightarrow> 'a flist_state_scheme \<Rightarrow> 'a flist_state_scheme" where
  "SetAtimes enabled r = r\<lparr>hasAtimes := enabled\<rparr>"
definition SetCrtimes :: "bool \<Rightarrow> 'a flist_state_scheme \<Rightarrow> 'a flist_state_scheme" where
  "SetCrtimes enabled r = r\<lparr>hasCrtimes := enabled\<rparr>"
definition SetPreserveUID :: "bool \<Rightarrow> 'a flist_state_scheme \<Rightarrow> 'a flist_state_scheme" where
  "SetPreserveUID enabled r = r\<lparr>preserveUID := enabled\<rparr>"
definition SetPreserveGID :: "bool \<Rightarrow> 'a flist_state_scheme \<Rightarrow> 'a flist_state_scheme" where
  "SetPreserveGID enabled r = r\<lparr>preserveGID := enabled\<rparr>"
definition SetPreserveDevices :: "bool \<Rightarrow> 'a flist_state_scheme \<Rightarrow> 'a flist_state_scheme" where
  "SetPreserveDevices enabled r = r\<lparr>preserveDevices := enabled\<rparr>"
definition SetPreserveLinks :: "bool \<Rightarrow> 'a flist_state_scheme \<Rightarrow> 'a flist_state_scheme" where
  "SetPreserveLinks enabled r = r\<lparr>preserveLinks := enabled\<rparr>"
definition SetPreserveHardlinks :: "bool \<Rightarrow> 'a flist_state_scheme \<Rightarrow> 'a flist_state_scheme" where
  "SetPreserveHardlinks enabled r = r\<lparr>preserveHardlinks := enabled\<rparr>"
definition SetAlwaysChecksum :: "bool \<Rightarrow> 'a flist_state_scheme \<Rightarrow> 'a flist_state_scheme" where
  "SetAlwaysChecksum enabled r = r\<lparr>alwaysChecksum := enabled\<rparr>"
definition SetIncRecurse :: "bool \<Rightarrow> flist_reader \<Rightarrow> flist_reader" where
  "SetIncRecurse enabled r = r\<lparr>incRecurse := enabled\<rparr>"
definition SetID0Names :: "bool \<Rightarrow> flist_writer \<Rightarrow> flist_writer" where
  "SetID0Names enabled w = w\<lparr>id0Names := enabled\<rparr>"

text \<open>File types, the bits \<^verbatim>\<open>0o170000\<close> of a mode.\<close>

definition fileType :: "u32 \<Rightarrow> u32" where
  "fileType mode = mode AND 0xF000"

abbreviation isDir :: "u32 \<Rightarrow> bool" where "isDir mode \<equiv> fileType mode = 0x4000"
abbreviation isReg :: "u32 \<Rightarrow> bool" where "isReg mode \<equiv> fileType mode = 0x8000"
abbreviation isSymlink :: "u32 \<Rightarrow> bool" where "isSymlink mode \<equiv> fileType mode = 0xA000"
abbreviation isDevice :: "u32 \<Rightarrow> bool" where
  "isDevice mode \<equiv> fileType mode = 0x2000 \<or> fileType mode = 0x6000"

subsection \<open>Reading an entry\<close>

definition readXflags :: "flist_reader \<Rightarrow> (src, flags) io" where
  "readXflags r =
    (if varintFlistFlags r then bnd ReadVarint (\<lambda>v. ret (scast v))
     else bnd readByte (\<lambda>b.
       if b = 0 then ret 0
       else if 28 \<le> fversion r \<and> bit b 2
            then bnd readByte (\<lambda>high. ret (ucast b OR push_bit 8 (ucast high)))
            else ret (ucast b)))"

definition readName :: "flist_reader \<Rightarrow> flags \<Rightarrow> (src, gostring) io" where
  "readName r xflags =
    bnd (if has xflags XmitSameName then bnd readByte (\<lambda>b. ret (unat b)) else ret 0) (\<lambda>l1.
    bnd (if has xflags XmitLongName then bnd ReadVarint (\<lambda>v. ret (sint v))
         else bnd readByte (\<lambda>b. ret (uint b))) (\<lambda>l2.
      if l2 < 0 \<or> MaxPathLen < int l1 + l2 then fail (Errorf ''overflow'')
      else bnd (if 0 < l2 then readFull (nat l2) else ret []) (\<lambda>suffix.
        if length (lastName r) < l1 then fail (Panic ''slice bounds out of range'')
        else ret (take l1 (lastName r) @ suffix))))"

text \<open>The abbreviated hard-link reference of protocol 30 and later.\<close>

definition hlinkAbbrev :: "flist_reader \<Rightarrow> flags \<Rightarrow> bool" where
  "hlinkAbbrev r xflags \<longleftrightarrow>
     30 \<le> fversion r \<and> preserveHardlinks r \<and> has xflags XmitHlinked \<and> \<not> has xflags XmitHlinkFirst"

definition readHlinkNdx :: "flist_reader \<Rightarrow> (src, i32) io" where
  "readHlinkNdx r =
    bnd ReadVarint (\<lambda>ndx.
      if sint ndx < 0 \<or> sint (word_of_int (used r + 1) :: i32) \<le> sint ndx
      then fail (Errorf ''hard-link reference out of range'')
      else if sint ndx < 1 then fail (Errorf ''hard-link gnum precedes flist start 1'')
      else ret ndx)"

definition readSize :: "flist_reader \<Rightarrow> (src, i64) io" where
  "readSize r = (if fversion r < 30 then ReadLongInt else ReadVarlong 3)"

definition readMtime :: "flist_reader \<Rightarrow> flags \<Rightarrow> (src, i64) io" where
  "readMtime r xflags =
    (if \<not> has xflags XmitSameTime then
       if 30 \<le> fversion r then ReadVarlong 4 else bnd ReadUint32 (\<lambda>v. ret (ucast v))
     else ret (lastMtime r))"

definition readModNsec :: "flags \<Rightarrow> (src, i32) io" where
  "readModNsec xflags = (if has xflags XmitModNsec then ReadVarint else ret 0)"

definition readMode :: "flist_reader \<Rightarrow> flags \<Rightarrow> (src, u32) io" where
  "readMode r xflags = (if \<not> has xflags XmitSameMode then ReadUint32 else ret (lastMode r))"

text \<open>The two guards on a mode: its type, and that the transfer root is a directory.\<close>

definition modeValid :: "u32 \<Rightarrow> bool" where
  "modeValid mode \<longleftrightarrow>
     mode = 0 \<or> fileType mode \<in> {0x8000, 0x4000, 0xA000, 0x2000, 0x6000, 0x1000, 0xC000}"

definition isRootName :: "gostring \<Rightarrow> bool" where
  "isRootName name \<longleftrightarrow> name = str ''.'' \<or> name = str ''/.''"

definition checkMode :: "gostring \<Rightarrow> u32 \<Rightarrow> (src, unit) io" where
  "checkMode name mode =
    (if \<not> modeValid mode then fail (Errorf ''invalid file mode'')
     else if isRootName name \<and> \<not> isDir mode
          then fail (Errorf ''rejecting non-directory transfer-root entry'')
     else ret ())"

definition readAtime :: "flist_reader \<Rightarrow> flags \<Rightarrow> u32 \<Rightarrow> (src, i64) io" where
  "readAtime r xflags mode =
    (if hasAtimes r \<and> \<not> isDir mode then
       if \<not> has xflags XmitSameAtime then ReadVarlong 4 else ret (lastAtime r)
     else ret 0)"

text \<open>An id and, from protocol 30 on, the name that may follow it.\<close>

definition readIdName :: "(src, gostring) io" where
  "readIdName = bnd readByte (\<lambda>b. if 0 < b then readFull (unat b) else ret [])"

definition readUID :: "flist_reader \<Rightarrow> flags \<Rightarrow> (src, i32 \<times> gostring) io" where
  "readUID r xflags =
    (if preserveUID r \<and> \<not> has xflags XmitSameUID then
       if 30 \<le> fversion r then
         bnd ReadVarint (\<lambda>uid.
           if has xflags XmitUserNameFollows then bnd readIdName (\<lambda>name. ret (uid, name)) else ret (uid, []))
       else bnd ReadUint32 (\<lambda>v. ret (v, []))
     else if preserveUID r then ret (lastUID r, []) else ret (0, []))"

definition readGID :: "flist_reader \<Rightarrow> flags \<Rightarrow> (src, i32 \<times> gostring) io" where
  "readGID r xflags =
    (if preserveGID r \<and> \<not> has xflags XmitSameGID then
       if 30 \<le> fversion r then
         bnd ReadVarint (\<lambda>gid.
           if has xflags XmitGroupNameFollows then bnd readIdName (\<lambda>name. ret (gid, name)) else ret (gid, []))
       else bnd ReadUint32 (\<lambda>v. ret (v, []))
     else if preserveGID r then ret (lastGID r, []) else ret (0, []))"

definition readRdev :: "flist_reader \<Rightarrow> flags \<Rightarrow> u32 \<Rightarrow> (src, u32 \<times> u32) io" where
  "readRdev r xflags mode =
    (if preserveDevices r \<and> isDevice mode then
       if fversion r < 28 then
         if \<not> has xflags XmitSameRdevMajor
         then bnd ReadUint32 (\<lambda>v. ret (drop_bit 8 v, v AND 0xFF))
         else ret (0, 0)
       else if fversion r < 30 then
         bnd (if \<not> has xflags XmitSameRdevMajor then ReadUint32 else ret (lastRdevMajor r)) (\<lambda>major.
         bnd (if has xflags XmitRdevMinor8Pre30 then bnd readByte (\<lambda>b. ret (ucast b)) else ReadUint32) (\<lambda>minor.
           ret (major, minor)))
       else
         bnd (if \<not> has xflags XmitSameRdevMajor then ReadVarint else ret (lastRdevMajor r)) (\<lambda>major.
         bnd ReadVarint (\<lambda>minor. ret (major, minor)))
     else ret (0, 0))"

definition readLinkTarget :: "flist_reader \<Rightarrow> u32 \<Rightarrow> (src, gostring) io" where
  "readLinkTarget r mode =
    (if preserveLinks r \<and> isSymlink mode then
       bnd (if fversion r < 30 then ReadInt32 else ReadVarint) (\<lambda>lenVal.
         if 0 < sint lenVal then readFull (unat lenVal) else ret [])
     else ret [])"

definition readDevIno :: "flist_reader \<Rightarrow> flags \<Rightarrow> u32 \<Rightarrow> (src, i64 \<times> i64) io" where
  "readDevIno r xflags mode =
    (if fversion r < 30 \<and> preserveHardlinks r \<and>
        (fversion r < 28 \<and> isReg mode \<or> 28 \<le> fversion r \<and> has xflags XmitHlinked) then
       if fversion r < 26 then
         bnd ReadUint32 (\<lambda>v1. bnd ReadUint32 (\<lambda>v2. ret (ucast v1, ucast v2)))
       else
         bnd (if \<not> has xflags XmitSameDevPre30 then ReadLongInt else ret 0) (\<lambda>dev.
         bnd ReadLongInt (\<lambda>ino. ret (dev, ino)))
     else ret (0, 0))"

definition readChecksum :: "flist_reader \<Rightarrow> u32 \<Rightarrow> (src, byte list) io" where
  "readChecksum r mode =
    (if alwaysChecksum r \<and> (isReg mode \<or> fversion r < 28) then readFull 16 else ret [])"

text \<open>
  The fields behind the name, in the order of the code, with the entry and the reader's
  new previous values. \<^verbatim>\<open>lastRdevMajor\<close> is read but never set.
\<close>

definition readFields :: "flist_reader \<Rightarrow> flags \<Rightarrow> gostring \<Rightarrow> (src, flist_entry \<times> flist_reader) io" where
  "readFields r xflags name =
    bnd (readSize r) (\<lambda>sz.
    bnd (readMtime r xflags) (\<lambda>mtime.
    bnd (readModNsec xflags) (\<lambda>nsec.
    bnd (readMode r xflags) (\<lambda>mode.
    bnd (checkMode name mode) (\<lambda>_.
    bnd (readAtime r xflags mode) (\<lambda>atime.
    bnd (readUID r xflags) (\<lambda>(uid, uname).
    bnd (readGID r xflags) (\<lambda>(gid, gname).
    bnd (readRdev r xflags mode) (\<lambda>(major, minor).
    bnd (readLinkTarget r mode) (\<lambda>target.
    bnd (readDevIno r xflags mode) (\<lambda>(dev, ino).
    bnd (readChecksum r mode) (\<lambda>csum.
      ret (\<lparr>Name = name, Mode = mode, Size = sz, Mtime = mtime, ModNsec = nsec, Atime = atime,
            UID = uid, GID = gid, UserName = uname, GroupName = gname,
            RdevMajor = major, RdevMinor = minor, LinkTarget = target, HlinkNdx = 0,
            Nlink = 0, Dev = dev, Ino = ino, Checksum = csum,
            TopDir = isDir mode \<and> has xflags XmitTopDir,
            NoContentDir = isDir mode \<and> has xflags XmitNoContentDir\<rparr>,
           r\<lparr>lastName := name, lastMtime := mtime, lastMode := mode,
             lastAtime := (if hasAtimes r \<and> \<not> isDir mode then atime else lastAtime r),
             lastUID := (if preserveUID r then uid else lastUID r),
             lastGID := (if preserveGID r then gid else lastGID r),
             used := used r + 1\<rparr>)))))))))))))"

text \<open>
  The end of the list: after a zero flag word in varint form the \<^verbatim>\<open>io_error\<close> value is read
  and both it and its error are dropped; \<^verbatim>\<open>io.EOF\<close> is the end-of-list result.
\<close>

definition readEndOfList :: "flist_reader \<Rightarrow> (src, flist_entry \<times> flist_reader) io" where
  "readEndOfList r s =
    (if varintFlistFlags r
     then case ReadVarint s of
            (Inl (Panic m), s') \<Rightarrow> (Inl (Panic m), s')
          | (_, s') \<Rightarrow> (Inl EOF, s')
     else (Inl EOF, s))"

definition ReadEntry :: "flist_reader \<Rightarrow> (src, flist_entry \<times> flist_reader) io" where
  "ReadEntry r =
    bnd (readXflags r) (\<lambda>xflags.
      if xflags = 0 then readEndOfList r
      else bnd (readName r xflags) (\<lambda>name.
        if hlinkAbbrev r xflags
        then bnd (readHlinkNdx r) (\<lambda>ndx.
               ret (emptyEntry\<lparr>Name := name, HlinkNdx := ndx\<rparr>, r\<lparr>lastName := name, used := used r + 1\<rparr>))
        else readFields r xflags name))"

subsection \<open>Writing an entry\<close>

definition packRdev :: "u32 \<Rightarrow> u32 \<Rightarrow> u32" where
  "packRdev major minor = push_bit 8 major OR (minor AND 0xFF)"

text \<open>The loop of \<^verbatim>\<open>commonPrefixLen\<close>, with \<open>m\<close> the number of bytes it still compares.\<close>

fun prefixLoop :: "nat \<Rightarrow> gostring \<Rightarrow> gostring \<Rightarrow> nat" where
  "prefixLoop (Suc m) (x # a) (y # b) = (if x \<noteq> y then 0 else Suc (prefixLoop m a b))"
| "prefixLoop _ _ _ = 0"

definition commonPrefixLen :: "gostring \<Rightarrow> gostring \<Rightarrow> nat" where
  "commonPrefixLen a b = prefixLoop (min (min (length a) (length b)) 255) a b"

definition flagIf :: "bool \<Rightarrow> flags \<Rightarrow> flags" where
  "flagIf c f = (if c then f else 0)"

definition dirFlags :: "int \<Rightarrow> flist_entry \<Rightarrow> flags" where
  "dirFlags v e =
    (if isDir (Mode e) then
       if 30 \<le> v \<and> NoContentDir e then XmitNoContentDir OR flagIf (TopDir e) XmitTopDir
       else flagIf (TopDir e) XmitTopDir
     else 0)"

definition hlinkFlagged :: "flist_writer \<Rightarrow> flist_entry \<Rightarrow> bool" where
  "hlinkFlagged w e \<longleftrightarrow>
     28 \<le> fversion w \<and> fversion w < 30 \<and> preserveHardlinks w \<and> \<not> isDir (Mode e) \<and> 1 < sint (Nlink e)"

definition computeXflags :: "flist_writer \<Rightarrow> flist_entry \<Rightarrow> flags \<times> flist_writer" where
  "computeXflags w e =
    (let l1 = commonPrefixLen (lastName w) (Name e);
         l2 = length (Name e) - l1;
         xflags = dirFlags (fversion w) e
           OR flagIf (Mode e = lastMode w) XmitSameMode
           OR flagIf (\<not> preserveUID w \<or> lastName w \<noteq> [] \<and> UID e = lastUID w) XmitSameUID
           OR flagIf (\<not> preserveGID w \<or> lastName w \<noteq> [] \<and> GID e = lastGID w) XmitSameGID
           OR flagIf (Mtime e = lastMtime w) XmitSameTime
           OR flagIf (0 < l1) XmitSameName
           OR flagIf (255 < l2) XmitLongName
           OR flagIf (31 \<le> fversion w \<and> ModNsec e \<noteq> 0) XmitModNsec
           OR flagIf (hasAtimes w \<and> \<not> isDir (Mode e) \<and> Atime e = lastAtime w) XmitSameAtime
     in if hlinkFlagged w e
        then (xflags OR flagIf (Dev e = lastDev w) XmitSameDevPre30 OR XmitHlinked, w\<lparr>lastDev := Dev e\<rparr>)
        else (xflags, w))"

definition writeXflags :: "flags \<Rightarrow> u32 \<Rightarrow> int \<Rightarrow> bool \<Rightarrow> byte list" where
  "writeXflags xflags mode v varintFlags =
    (if varintFlags then WriteVarint (ucast (if xflags = 0 then XmitExtendedFlags else xflags))
     else if 28 \<le> v then
       let xf = (if xflags = 0 \<and> \<not> isDir mode then xflags OR XmitTopDir else xflags)
       in if xf AND 0xFF00 \<noteq> 0 \<or> xf = 0 then WriteUint16 (ucast (xf OR XmitExtendedFlags))
          else [ucast xf]
     else [ucast (if xflags = 0 then if isDir mode then XmitLongName else XmitTopDir else xflags)])"

definition writeName :: "flist_writer \<Rightarrow> flags \<Rightarrow> gostring \<Rightarrow> byte list" where
  "writeName w xflags name =
    (let l1 = commonPrefixLen (lastName w) name;
         l2 = length name - l1
     in (if has xflags XmitSameName then [word_of_nat l1] else []) @
        (if has xflags XmitLongName then WriteVarint (word_of_nat l2) else [word_of_nat l2]) @
        (if 0 < l2 then drop l1 name else []))"

definition writeSize :: "flist_writer \<Rightarrow> i64 \<Rightarrow> byte list" where
  "writeSize w sz = (if fversion w < 30 then WriteLongInt sz else WriteVarlong sz 3)"

definition writeMtime :: "flist_writer \<Rightarrow> flags \<Rightarrow> i64 \<Rightarrow> byte list" where
  "writeMtime w xflags mtime =
    (if \<not> has xflags XmitSameTime
     then if 30 \<le> fversion w then WriteVarlong mtime 4 else WriteUint32 (ucast mtime)
     else [])"

definition writeModNsec :: "flags \<Rightarrow> i32 \<Rightarrow> byte list" where
  "writeModNsec xflags nsec = (if has xflags XmitModNsec then WriteVarint nsec else [])"

definition writeMode :: "flags \<Rightarrow> u32 \<Rightarrow> byte list" where
  "writeMode xflags mode = (if \<not> has xflags XmitSameMode then WriteUint32 mode else [])"

definition writeAtime :: "flist_writer \<Rightarrow> flags \<Rightarrow> flist_entry \<Rightarrow> byte list" where
  "writeAtime w xflags e =
    (if hasAtimes w \<and> \<not> isDir (Mode e) \<and> \<not> has xflags XmitSameAtime then WriteVarlong (Atime e) 4 else [])"

definition writeUID :: "flist_writer \<Rightarrow> flags \<Rightarrow> flist_entry \<Rightarrow> byte list" where
  "writeUID w xflags e =
    (if preserveUID w \<and> \<not> has xflags XmitSameUID then
       if 30 \<le> fversion w then
         WriteVarint (UID e) @
         (if has xflags XmitUserNameFollows then word_of_nat (length (UserName e)) # UserName e else [])
       else WriteUint32 (UID e)
     else [])"

definition writeGID :: "flist_writer \<Rightarrow> flags \<Rightarrow> flist_entry \<Rightarrow> byte list" where
  "writeGID w xflags e =
    (if preserveGID w \<and> \<not> has xflags XmitSameGID then
       if 30 \<le> fversion w then
         WriteVarint (GID e) @
         (if has xflags XmitGroupNameFollows then word_of_nat (length (GroupName e)) # GroupName e else [])
       else WriteUint32 (GID e)
     else [])"

definition writeRdev :: "flist_writer \<Rightarrow> flags \<Rightarrow> flist_entry \<Rightarrow> byte list" where
  "writeRdev w xflags e =
    (if preserveDevices w \<and> isDevice (Mode e) then
       if fversion w < 28 then
         (if \<not> has xflags XmitSameRdevMajor then WriteUint32 (packRdev (RdevMajor e) (RdevMinor e)) else [])
       else if fversion w < 30 then
         (if \<not> has xflags XmitSameRdevMajor then WriteUint32 (RdevMajor e) else []) @
         (if has xflags XmitRdevMinor8Pre30 then [ucast (RdevMinor e)] else WriteUint32 (RdevMinor e))
       else
         (if \<not> has xflags XmitSameRdevMajor then WriteVarint (RdevMajor e) else []) @
         WriteVarint (RdevMinor e)
     else [])"

definition writeLinkTarget :: "flist_writer \<Rightarrow> flist_entry \<Rightarrow> byte list" where
  "writeLinkTarget w e =
    (if preserveLinks w \<and> isSymlink (Mode e) then
       (if fversion w < 30 then WriteInt32 (word_of_nat (length (LinkTarget e)))
        else WriteVarint (word_of_nat (length (LinkTarget e)))) @
       LinkTarget e
     else [])"

definition writeDevIno :: "flist_writer \<Rightarrow> flags \<Rightarrow> flist_entry \<Rightarrow> byte list" where
  "writeDevIno w xflags e =
    (if fversion w < 30 \<and>
        (fversion w < 28 \<and> preserveHardlinks w \<and> isReg (Mode e) \<or>
         28 \<le> fversion w \<and> has xflags XmitHlinked) then
       if fversion w < 26 then WriteUint32 (ucast (Dev e)) @ WriteUint32 (ucast (Ino e))
       else (if \<not> has xflags XmitSameDevPre30 then WriteLongInt (Dev e) else []) @ WriteLongInt (Ino e)
     else [])"

definition writeChecksum :: "flist_writer \<Rightarrow> flist_entry \<Rightarrow> byte list" where
  "writeChecksum w e =
    (if alwaysChecksum w \<and> (isReg (Mode e) \<or> fversion w < 28)
     then if Checksum e = [] then replicate 16 0 else Checksum e
     else [])"

text \<open>
  The whole entry. A field's previous value is replaced exactly when the field was sent;
  the abbreviated hard-link branch keeps all of them but the name.
\<close>

definition WriteEntry :: "flist_writer \<Rightarrow> flist_entry \<Rightarrow> flist_writer \<times> byte list" where
  "WriteEntry w e =
    (let (xflags, w1) = computeXflags w e;
         hd = writeXflags xflags (Mode e) (fversion w) (varintFlistFlags w) @ writeName w xflags (Name e);
         w2 = w1\<lparr>lastName := Name e\<rparr>
     in if 30 \<le> fversion w \<and> has xflags XmitHlinked \<and> \<not> has xflags XmitHlinkFirst \<and> 0 \<le> sint (HlinkNdx e)
        then (w2, hd @ WriteVarint (HlinkNdx e))
        else
          (w2\<lparr>lastMtime := (if \<not> has xflags XmitSameTime then Mtime e else lastMtime w),
              lastMode := (if \<not> has xflags XmitSameMode then Mode e else lastMode w),
              lastAtime := (if hasAtimes w \<and> \<not> isDir (Mode e) \<and> \<not> has xflags XmitSameAtime
                            then Atime e else lastAtime w),
              lastUID := (if preserveUID w \<and> \<not> has xflags XmitSameUID then UID e else lastUID w),
              lastGID := (if preserveGID w \<and> \<not> has xflags XmitSameGID then GID e else lastGID w),
              lastRdevMajor := (if preserveDevices w \<and> isDevice (Mode e) \<and> 28 \<le> fversion w \<and>
                                   \<not> has xflags XmitSameRdevMajor
                                then RdevMajor e else lastRdevMajor w)\<rparr>,
           hd @ writeSize w (Size e) @ writeMtime w xflags (Mtime e) @ writeModNsec xflags (ModNsec e) @
           writeMode xflags (Mode e) @ writeAtime w xflags e @ writeUID w xflags e @ writeGID w xflags e @
           writeRdev w xflags e @ writeLinkTarget w e @ writeDevIno w xflags e @ writeChecksum w e))"

text \<open>What follows the last entry.\<close>

definition WriteIDLists :: "flist_writer \<Rightarrow> byte list" where
  "WriteIDLists w =
    concat (map (\<lambda>preserve.
        if \<not> preserve then []
        else (if 30 \<le> fversion w then WriteVarint 0 else WriteInt32 0) @ (if id0Names w then [0] else []))
      [preserveUID w, preserveGID w])"

definition WriteIOErrorTrailer :: "flist_writer \<Rightarrow> int \<Rightarrow> byte list" where
  "WriteIOErrorTrailer w ioError = (if 30 \<le> fversion w then [] else WriteInt32 (word_of_int ioError))"

definition WriteEndMarker :: "flist_writer \<Rightarrow> byte list" where
  "WriteEndMarker w = (if varintFlistFlags w then WriteVarint 0 @ WriteVarint 0 else [0])"

section \<open>The transmission flags\<close>

lemma bit_flagIf: "n < 64 \<Longrightarrow> bit (flagIf c (push_bit n 1)) i \<longleftrightarrow> c \<and> i = n"
  unfolding flagIf_def by (simp add: bit_push_bit_one del: push_bit_of_1)

lemma bit_dirFlags:
  "bit (dirFlags v e) i \<longleftrightarrow>
     isDir (Mode e) \<and> (i = 0 \<and> TopDir e \<or> i = 8 \<and> 30 \<le> v \<and> NoContentDir e)"
  unfolding dirFlags_def XmitNoContentDir_def XmitTopDir_def
  by (simp only: bit_if bit_flagIf bit_or_iff bit_push_bit_one bit_0_eq bot_apply bot_bool_def) auto

lemma bit_flag: "n < 64 \<Longrightarrow> bit (push_bit n 1 :: flags) i \<longleftrightarrow> i = n"
  by (simp only: bit_push_bit_one) simp

text \<open>Which flag bits the writer computes, and from what.\<close>

definition xflagBit :: "flist_writer \<Rightarrow> flist_entry \<Rightarrow> nat \<Rightarrow> bool" where
  "xflagBit w e i \<longleftrightarrow>
     i = 0 \<and> isDir (Mode e) \<and> TopDir e \<or>
     i = 1 \<and> Mode e = lastMode w \<or>
     i = 3 \<and> (\<not> preserveUID w \<or> lastName w \<noteq> [] \<and> UID e = lastUID w) \<or>
     i = 4 \<and> (\<not> preserveGID w \<or> lastName w \<noteq> [] \<and> GID e = lastGID w) \<or>
     i = 5 \<and> 0 < commonPrefixLen (lastName w) (Name e) \<or>
     i = 6 \<and> 255 < length (Name e) - commonPrefixLen (lastName w) (Name e) \<or>
     i = 7 \<and> Mtime e = lastMtime w \<or>
     i = 8 \<and> isDir (Mode e) \<and> 30 \<le> fversion w \<and> NoContentDir e \<or>
     i = 9 \<and> hlinkFlagged w e \<or>
     i = 10 \<and> hlinkFlagged w e \<and> Dev e = lastDev w \<or>
     i = 13 \<and> 31 \<le> fversion w \<and> ModNsec e \<noteq> 0 \<or>
     i = 14 \<and> hasAtimes w \<and> \<not> isDir (Mode e) \<and> Atime e = lastAtime w"

lemma bit_flag_sum:
  "bit (d OR flagIf c1 (push_bit 1 1) OR flagIf c3 (push_bit 3 1) OR flagIf c4 (push_bit 4 1)
      OR flagIf c7 (push_bit 7 1) OR flagIf c5 (push_bit 5 1) OR flagIf c6 (push_bit 6 1)
      OR flagIf c13 (push_bit 13 1) OR flagIf c14 (push_bit 14 1) :: flags) i \<longleftrightarrow>
    bit d i \<or> i = 1 \<and> c1 \<or> i = 3 \<and> c3 \<or> i = 4 \<and> c4 \<or> i = 5 \<and> c5 \<or> i = 6 \<and> c6 \<or>
    i = 7 \<and> c7 \<or> i = 13 \<and> c13 \<or> i = 14 \<and> c14"
  by (simp only: bit_or_iff bit_flagIf rel_simps) argo

lemma bit_computeXflags: "bit (fst (computeXflags w e)) i \<longleftrightarrow> xflagBit w e i"
proof (cases "hlinkFlagged w e")
  case True
  show ?thesis
    unfolding computeXflags_def Let_def xflagBit_def
      XmitSameMode_def XmitSameUID_def XmitSameGID_def XmitSameTime_def XmitSameName_def XmitLongName_def
      XmitModNsec_def XmitSameAtime_def XmitSameDevPre30_def XmitHlinked_def if_P [OF True] fst_conv
      bit_or_iff [of "_ OR _" "_ OR _"]
    by (simp only: bit_flag_sum bit_or_iff [of _ "push_bit _ _"] bit_flagIf bit_flag bit_dirFlags rel_simps True simp_thms) argo
next
  case False
  show ?thesis
    unfolding computeXflags_def Let_def xflagBit_def
      XmitSameMode_def XmitSameUID_def XmitSameGID_def XmitSameTime_def XmitSameName_def XmitLongName_def
      XmitModNsec_def XmitSameAtime_def if_not_P [OF False] fst_conv bit_flag_sum
    by (simp only: bit_dirFlags False simp_thms) argo
qed

text \<open>What the reader makes of the written flags.\<close>

definition wireXflags :: "flags \<Rightarrow> u32 \<Rightarrow> int \<Rightarrow> bool \<Rightarrow> flags" where
  "wireXflags xf mode v varintFlags =
    (if varintFlags then if xf = 0 then XmitExtendedFlags else xf
     else if 28 \<le> v then
       let xf1 = (if xf = 0 \<and> \<not> isDir mode then XmitTopDir else xf)
       in if xf1 AND 0xFF00 \<noteq> 0 \<or> xf1 = 0 then xf1 OR XmitExtendedFlags else xf1
     else if xf = 0 then if isDir mode then XmitLongName else XmitTopDir else xf)"

definition narrow :: "nat \<Rightarrow> flags \<Rightarrow> bool" where
  "narrow n xf \<longleftrightarrow> take_bit n xf = xf"

lemma narrowI: "(\<And>i. bit xf i \<Longrightarrow> i < n) \<Longrightarrow> narrow n xf"
  unfolding narrow_def by (rule bit_word_eqI) (auto simp: bit_simps)

lemma narrowD: "narrow n xf \<Longrightarrow> bit xf i \<Longrightarrow> i < n"
  unfolding narrow_def by (metis bit_take_bit_iff)

lemma narrow_ucast8: "narrow 8 xf \<Longrightarrow> ucast (ucast xf :: byte) = xf"
  by (rule bit_word_eqI) (auto simp: bit_simps dest: narrowD)

lemma narrow_ucast8_zero: "narrow 8 xf \<Longrightarrow> (ucast xf :: byte) = 0 \<longleftrightarrow> xf = 0"
  by (metis narrow_ucast8 unsigned_0)

lemma narrow_scast: "narrow 16 xf \<Longrightarrow> scast (ucast xf :: i32) = xf"
  by (rule bit_word_eqI) (auto simp: bit_simps min_def dest: narrowD)

lemma high_byte_zero:
  assumes "narrow 16 xf" and "xf AND 0xFF00 = 0"
  shows "narrow 8 xf"
proof (rule narrowI, rule ccontr)
  fix i assume i: "bit xf i" and "\<not> i < 8"
  have m: "0xFF00 = (push_bit 8 (mask 8) :: flags)"
    by (simp add: mask_eq_exp_minus_1)
  have "bit (xf AND 0xFF00) i"
    unfolding m using i \<open>\<not> i < 8\<close> narrowD [OF assms(1) i] by (auto simp only: bit_simps) auto
  with assms(2) show False by simp
qed

lemma narrow_consts: "narrow 8 XmitTopDir" "narrow 8 XmitExtendedFlags" "narrow 8 XmitLongName" "narrow 16 0" "narrow 8 0"
  unfolding xmit_defs
  by (rule narrowI; simp only: bit_push_bit_one bit_0_eq bot_apply bot_bool_def; simp)+

lemma narrow_or: "narrow n a \<Longrightarrow> narrow n b \<Longrightarrow> narrow n (a OR b)"
  unfolding narrow_def by (simp add: take_bit_or)

lemma narrow_mono: "narrow m a \<Longrightarrow> m \<le> n \<Longrightarrow> narrow n a"
  by (rule narrowI) (auto dest: narrowD)

text \<open>
  The flag word survives the three wire forms: the reader gets \<open>wireXflags\<close>, which is never
  the end-of-list marker.
\<close>

lemma ext_nonzero [simp]: "XmitExtendedFlags \<noteq> 0" "XmitLongName \<noteq> 0" "XmitTopDir \<noteq> 0"
  by (simp_all add: xmit_defs)

lemma bit_xmit:
  "bit XmitExtendedFlags i \<longleftrightarrow> i = 2" "bit XmitLongName i \<longleftrightarrow> i = 6" "bit XmitTopDir i \<longleftrightarrow> i = 0"
  unfolding xmit_defs by (simp_all only: bit_flag rel_simps)

lemma reads_single_flag:
  assumes "narrow 8 xf" and "xf \<noteq> 0" and "\<not> bit xf 2" and "\<not> varintFlistFlags r"
  shows "reads (readXflags r) [ucast xf] xf"
proof -
  have "\<not> bit (ucast xf :: byte) 2" using assms(3) by (simp add: bit_simps)
  then show ?thesis
    using assms by (simp add: reads_def readXflags_def bnd_def narrow_ucast8_zero narrow_ucast8)
qed

lemma reads_double_flag:
  assumes "narrow 16 xf" and "bit xf 2" and "\<not> varintFlistFlags r" and "28 \<le> fversion r"
  shows "reads (readXflags r) (WriteUint16 (ucast xf)) xf"
proof -
  have b2: "bit (ucast (ucast xf :: u16) :: byte) 2" using assms(2) by (simp add: bit_simps)
  then have nz: "(ucast (ucast xf :: u16) :: byte) \<noteq> 0" by auto
  have "ucast (ucast (ucast xf :: u16) :: byte) OR push_bit 8 (ucast (ucast (drop_bit 8 (ucast xf :: u16)) :: byte)) = xf"
    by (rule bit_word_eqI) (auto simp: bit_simps dest: narrowD [OF assms(1)])
  with b2 nz assms(3,4) show ?thesis
    by (simp add: reads_def readXflags_def bnd_def WriteUint16_def)
qed

lemma reads_readXflags:
  assumes n: "narrow 16 xf" and "\<not> bit xf 2"
    and "fversion r < 28 \<longrightarrow> varintFlistFlags r \<or> narrow 8 xf"
  shows "reads (readXflags r) (writeXflags xf mode (fversion r) (varintFlistFlags r))
           (wireXflags xf mode (fversion r) (varintFlistFlags r))"
proof (cases "varintFlistFlags r")
  case True
  let ?x = "if xf = 0 then XmitExtendedFlags else xf"
  have "narrow 16 ?x" using n narrow_consts(2) by (auto intro: narrow_mono)
  then have "scast (ucast ?x :: i32) = ?x" by (rule narrow_scast)
  then show ?thesis
    using True by (simp add: readXflags_def writeXflags_def wireXflags_def reads_def bnd_def codec_simps)
next
  case False
  note r = reads_single_flag [OF _ _ _ False] reads_double_flag [OF _ _ False]
  show ?thesis
  proof (cases "28 \<le> fversion r")
    case True
    define x where "x = (if xf = 0 \<and> \<not> isDir mode then XmitTopDir else xf)"
    have x: "narrow 16 x" "\<not> bit x 2" "(if xf = 0 \<and> \<not> isDir mode then xf OR XmitTopDir else xf) = x"
      using n assms(2) narrow_consts(1) by (auto simp: x_def bit_xmit intro: narrow_mono)
    have "narrow 16 (x OR XmitExtendedFlags)" "bit (x OR XmitExtendedFlags) 2"
      using x narrow_consts(2) by (auto intro!: narrow_or intro: narrow_mono simp: bit_or_iff bit_xmit)
    then show ?thesis
      using True False x high_byte_zero [OF x(1)] r
      by (auto simp: writeXflags_def wireXflags_def Let_def x_def [symmetric])
  next
    case v: False
    let ?x = "if xf = 0 then if isDir mode then XmitLongName else XmitTopDir else xf"
    have "narrow 8 ?x" "\<not> bit ?x 2" "?x \<noteq> 0"
      using v False assms narrow_consts by (auto simp: bit_xmit)
    then show ?thesis
      using v False r(1) by (simp add: writeXflags_def wireXflags_def)
  qed
qed

lemma wireXflags_nonzero: "wireXflags xf mode v varintFlags \<noteq> 0"
proof -
  have "x OR XmitExtendedFlags \<noteq> 0" for x
    by (metis bit_0_eq bit_or_iff bit_xmit(1) bot_apply bot_bool_def)
  then show ?thesis by (auto simp: wireXflags_def Let_def)
qed

lemma bit_wireXflags:
  "i \<noteq> 0 \<Longrightarrow> i \<noteq> 2 \<Longrightarrow> i \<noteq> 6 \<Longrightarrow> bit (wireXflags xf mode v varintFlags) i \<longleftrightarrow> bit xf i"
  "isDir mode \<Longrightarrow> bit (wireXflags xf mode v varintFlags) 0 \<longleftrightarrow> bit xf 0"
  "bit (wireXflags xf mode v varintFlags) 6 \<longleftrightarrow>
     bit xf 6 \<or> xf = 0 \<and> v < 28 \<and> \<not> varintFlags \<and> isDir mode"
  by (auto simp: wireXflags_def Let_def bit_or_iff bit_xmit)

lemma has_xmit:
  "has x XmitTopDir \<longleftrightarrow> bit x 0" "has x XmitSameMode \<longleftrightarrow> bit x 1" "has x XmitSameUID \<longleftrightarrow> bit x 3"
  "has x XmitSameGID \<longleftrightarrow> bit x 4" "has x XmitSameName \<longleftrightarrow> bit x 5" "has x XmitLongName \<longleftrightarrow> bit x 6"
  "has x XmitSameTime \<longleftrightarrow> bit x 7" "has x XmitSameRdevMajor \<longleftrightarrow> bit x 8" "has x XmitNoContentDir \<longleftrightarrow> bit x 8"
  "has x XmitHlinked \<longleftrightarrow> bit x 9" "has x XmitSameDevPre30 \<longleftrightarrow> bit x 10" "has x XmitUserNameFollows \<longleftrightarrow> bit x 10"
  "has x XmitRdevMinor8Pre30 \<longleftrightarrow> bit x 11" "has x XmitGroupNameFollows \<longleftrightarrow> bit x 11"
  "has x XmitHlinkFirst \<longleftrightarrow> bit x 12" "has x XmitModNsec \<longleftrightarrow> bit x 13" "has x XmitSameAtime \<longleftrightarrow> bit x 14"
  unfolding xmit_defs by (simp_all only: has_push_bit rel_simps)

section \<open>Reader and writer in step\<close>

text \<open>
  The reader and the writer are configured alike and agree on the previous values. The
  previous device number is left out: the reader does not track it, and the writer never
  sends the flag that would make it use it.
\<close>

definition in_sync :: "flist_writer \<Rightarrow> flist_reader \<Rightarrow> bool" where
  "in_sync w r \<longleftrightarrow>
     fversion r = fversion w \<and> varintFlistFlags r = varintFlistFlags w \<and> hasAtimes r = hasAtimes w \<and>
     preserveUID r = preserveUID w \<and> preserveGID r = preserveGID w \<and>
     preserveDevices r = preserveDevices w \<and> preserveLinks r = preserveLinks w \<and>
     preserveHardlinks r = preserveHardlinks w \<and> alwaysChecksum r = alwaysChecksum w \<and>
     lastMode r = lastMode w \<and> lastUID r = lastUID w \<and> lastGID r = lastGID w \<and>
     lastMtime r = lastMtime w \<and> lastAtime r = lastAtime w \<and> lastName r = lastName w"

text \<open>
  What the format can carry: lengths within bounds, a valid type, fields that fit the
  narrower encodings of old protocols. Access times need a flag bit that one-byte flag
  words do not have, and a one-byte flag word that comes out zero for a directory is sent
  with the long-name bit, which is harmless for suffixes below 128 bytes only.
\<close>

definition entry_ok :: "flist_writer \<Rightarrow> flist_entry \<Rightarrow> bool" where
  "entry_ok w e \<longleftrightarrow>
     modeValid (Mode e) \<and> (isRootName (Name e) \<longrightarrow> isDir (Mode e)) \<and>
     int (length (Name e)) \<le> MaxPathLen \<and>
     (fversion w < 30 \<longrightarrow> ucast (ucast (Mtime e) :: u32) = Mtime e) \<and>
     (fversion w < 28 \<and> preserveDevices w \<and> isDevice (Mode e) \<longrightarrow>
        RdevMinor e < 0x100 \<and> RdevMajor e < 0x1000000) \<and>
     (fversion w < 26 \<and> preserveHardlinks w \<and> isReg (Mode e) \<longrightarrow>
        ucast (ucast (Dev e) :: u32) = Dev e \<and> ucast (ucast (Ino e) :: u32) = Ino e) \<and>
     (preserveLinks w \<and> isSymlink (Mode e) \<longrightarrow> length (LinkTarget e) < 2 ^ 31) \<and>
     (alwaysChecksum w \<longrightarrow> length (Checksum e) \<in> {0, 16}) \<and>
     (fversion w < 28 \<and> \<not> varintFlistFlags w \<longrightarrow> \<not> hasAtimes w \<and>
        (isDir (Mode e) \<and> fst (computeXflags w e) = 0 \<longrightarrow>
           length (Name e) - commonPrefixLen (lastName w) (Name e) < 128))"

text \<open>
  What of an entry arrives: names of owners, link counts and hard-link indices do not
  travel, and every other field only when its option, type or version asks for it. For a
  hard link that repeats the previous device the reader leaves the device at zero.
\<close>

definition entry_view :: "flist_writer \<Rightarrow> flist_entry \<Rightarrow> flist_entry" where
  "entry_view w e =
    (let linked = fversion w < 28 \<and> preserveHardlinks w \<and> isReg (Mode e) \<or> hlinkFlagged w e;
         device = preserveDevices w \<and> isDevice (Mode e)
     in \<lparr>Name = Name e, Mode = Mode e, Size = Size e, Mtime = Mtime e,
         ModNsec = (if 31 \<le> fversion w then ModNsec e else 0),
         Atime = (if hasAtimes w \<and> \<not> isDir (Mode e) then Atime e else 0),
         UID = (if preserveUID w then UID e else 0), GID = (if preserveGID w then GID e else 0),
         UserName = [], GroupName = [],
         RdevMajor = (if device then RdevMajor e else 0), RdevMinor = (if device then RdevMinor e else 0),
         LinkTarget = (if preserveLinks w \<and> isSymlink (Mode e) then LinkTarget e else []),
         HlinkNdx = 0, Nlink = 0,
         Dev = (if linked \<and> \<not> (hlinkFlagged w e \<and> Dev e = lastDev w) then Dev e else 0),
         Ino = (if linked then Ino e else 0),
         Checksum = (if alwaysChecksum w \<and> (isReg (Mode e) \<or> fversion w < 28)
                     then if Checksum e = [] then replicate 16 0 else Checksum e else []),
         TopDir = isDir (Mode e) \<and> TopDir e,
         NoContentDir = isDir (Mode e) \<and> 30 \<le> fversion w \<and> NoContentDir e\<rparr>)"

section \<open>Field round trips\<close>

lemma prefixLoop_bounds: "prefixLoop m a b \<le> m \<and> take (prefixLoop m a b) a = take (prefixLoop m a b) b \<and>
    prefixLoop m a b \<le> length a \<and> prefixLoop m a b \<le> length b"
  by (induction m a b rule: prefixLoop.induct) auto

lemma commonPrefixLen_bounds:
  "commonPrefixLen a b \<le> 255" "take (commonPrefixLen a b) a = take (commonPrefixLen a b) b"
  "commonPrefixLen a b \<le> length a" "commonPrefixLen a b \<le> length b"
  using prefixLoop_bounds [of "min (min (length a) (length b)) 255" a b]
  by (auto simp: commonPrefixLen_def)

text \<open>The cap is reached or the prefix cannot be extended.\<close>

lemma prefixLoop_maximal:
  "m \<le> length a \<Longrightarrow> m \<le> length b \<Longrightarrow> prefixLoop m a b < m \<Longrightarrow> a ! prefixLoop m a b \<noteq> b ! prefixLoop m a b"
  by (induction m a b rule: prefixLoop.induct) (auto split: if_splits)

lemma commonPrefixLen_maximal:
  "commonPrefixLen a b < min (min (length a) (length b)) 255 \<Longrightarrow>
   a ! commonPrefixLen a b \<noteq> b ! commonPrefixLen a b"
  by (simp add: commonPrefixLen_def prefixLoop_maximal)

lemma reads_readName:
  fixes w :: flist_writer and name :: gostring
  defines "l1 \<equiv> commonPrefixLen (lastName w) name"
  assumes last: "lastName r = lastName w" and len: "int (length name) \<le> MaxPathLen"
    and same: "bit xw 5 \<longleftrightarrow> bit xf 5" "bit xf 5 \<longleftrightarrow> 0 < l1"
    and long: "bit xf 6 \<longleftrightarrow> 255 < length name - l1"
    and wlong: "bit xw 6 \<longleftrightarrow> bit xf 6 \<or> length name - l1 < 128 \<and> z"
  shows "reads (readName r xw) (writeName w xf name) name"
proof -
  note b = commonPrefixLen_bounds [of "lastName w" name, folded l1_def]
  let ?l2 = "length name - l1"
  have l2: "?l2 \<le> 4096" using len by (simp add: MaxPathLen_def)
  have r1: "reads (if has xw XmitSameName then bnd readByte (\<lambda>b. ret (unat b)) else ret 0)
      (if has xf XmitSameName then [word_of_nat l1] else []) l1"
    using same b(1) by (auto simp: has_xmit reads_def bnd_def unat_of_nat take_bit_nat_eq_self)
  have small: "[word_of_nat ?l2 :: byte] = WriteVarint (word_of_nat ?l2)" if "?l2 < 128"
    using that by (subst WriteVarint_small)
      (simp_all add: word_less_nat_alt unat_of_nat take_bit_nat_eq_self word_unat_eq_iff unsigned_ucast_eq)
  have s2: "sint (word_of_nat ?l2 :: i32) = int ?l2"
    using l2 by (simp add: signed_of_nat signed_take_bit_int_eq_self)
  have r2: "reads (if has xw XmitLongName then bnd ReadVarint (\<lambda>v. ret (sint v)) else bnd readByte (\<lambda>b. ret (uint b)))
      (if has xf XmitLongName then WriteVarint (word_of_nat ?l2) else [word_of_nat ?l2]) (int ?l2)"
  proof (cases "has xw XmitLongName")
    case True
    then have "reads (bnd ReadVarint (\<lambda>v. ret (sint v))) (WriteVarint (word_of_nat ?l2)) (int ?l2)"
      by (simp add: reads_def bnd_def codec_simps s2)
    then show ?thesis using True wlong small by (auto simp: has_xmit)
  next
    case False
    then have "?l2 \<le> 255" using long wlong by (auto simp: has_xmit)
    then have "uint (word_of_nat ?l2 :: byte) = int ?l2"
      by (simp add: unsigned_of_nat take_bit_nat_eq_self)
    moreover have "\<not> bit xw 6" "\<not> bit xf 6" using False wlong by (auto simp: has_xmit)
    ultimately show ?thesis by (simp add: has_xmit reads_def bnd_def)
  qed
  have r3: "reads (if 0 < int ?l2 then readFull (nat (int ?l2)) else ret []) (if 0 < ?l2 then drop l1 name else []) (drop l1 name)"
    by (auto simp: reads_def)
  have nm: "take l1 (lastName w) @ drop l1 name = name" using b by simp
  have ng: "\<not> (int ?l2 < 0 \<or> MaxPathLen < int l1 + int ?l2)" using len b(4) by (simp add: MaxPathLen_def)
  show ?thesis
    unfolding readName_def writeName_def Let_def l1_def [symmetric] last
    by (rule reads_bnd [OF r1], rule reads_bnd [OF r2], unfold if_not_P [OF ng],
        rule reads_bnd_last [OF r3]) (use b nm in \<open>simp add: reads_ret not_less\<close>)
qed

text \<open>The other fields, for a reader in step and a flag word that agrees on the field's bit.\<close>

lemma reads_readSize: "fversion r = fversion w \<Longrightarrow> reads (readSize r) (writeSize w sz) sz"
  by (simp add: readSize_def writeSize_def reads_ints)

lemma reads_readMtime:
  assumes "fversion r = fversion w" "lastMtime r = lastMtime w" "bit xw 7 \<longleftrightarrow> bit xf 7"
    and "bit xf 7 \<longleftrightarrow> mtime = lastMtime w" "fversion w < 30 \<longrightarrow> ucast (ucast mtime :: u32) = mtime"
  shows "reads (readMtime r xw) (writeMtime w xf mtime) mtime"
  using assms
  by (auto simp: readMtime_def writeMtime_def has_xmit reads_ints reads_def bnd_def codec_simps)

lemma reads_readModNsec:
  assumes "bit xw 13 \<longleftrightarrow> bit xf 13" "bit xf 13 \<longleftrightarrow> c \<and> nsec \<noteq> 0"
  shows "reads (readModNsec xw) (writeModNsec xf nsec) (if c then nsec else 0)"
  using assms by (auto simp: readModNsec_def writeModNsec_def has_xmit reads_ints reads_ret)

lemma reads_readMode:
  assumes "lastMode r = lastMode w" "bit xw 1 \<longleftrightarrow> bit xf 1" "bit xf 1 \<longleftrightarrow> mode = lastMode w"
  shows "reads (readMode r xw) (writeMode xf mode) mode"
  using assms by (auto simp: readMode_def writeMode_def has_xmit reads_ints reads_ret)

lemma reads_checkMode:
  "modeValid mode \<Longrightarrow> (isRootName name \<longrightarrow> isDir mode) \<Longrightarrow> reads (checkMode name mode) [] ()"
  by (auto simp: checkMode_def reads_ret)

lemma reads_readAtime:
  assumes "hasAtimes r = hasAtimes w" "lastAtime r = lastAtime w"
    and "bit xw 14 \<longleftrightarrow> bit xf 14"
    and "bit xf 14 \<longleftrightarrow> hasAtimes w \<and> \<not> isDir (Mode e) \<and> Atime e = lastAtime w"
  shows "reads (readAtime r xw (Mode e)) (writeAtime w xf e) (if hasAtimes w \<and> \<not> isDir (Mode e) then Atime e else 0)"
  using assms by (auto simp: readAtime_def writeAtime_def has_xmit reads_ints reads_ret)

lemma reads_readUID:
  assumes "fversion r = fversion w" "preserveUID r = preserveUID w" "lastUID r = lastUID w"
    and "bit xw 3 \<longleftrightarrow> bit xf 3" "bit xf 3 \<longrightarrow> preserveUID w \<longrightarrow> UID e = lastUID w"
    and "30 \<le> fversion w \<longrightarrow> \<not> bit xw 10" "30 \<le> fversion w \<longrightarrow> \<not> bit xf 10"
  shows "reads (readUID r xw) (writeUID w xf e) (if preserveUID w then UID e else 0, [])"
  using assms
  by (cases "bit xf 3"; cases "30 \<le> fversion w")
     (auto simp: readUID_def writeUID_def has_xmit reads_def bnd_def codec_simps)

lemma reads_readGID:
  assumes "fversion r = fversion w" "preserveGID r = preserveGID w" "lastGID r = lastGID w"
    and "bit xw 4 \<longleftrightarrow> bit xf 4" "bit xf 4 \<longrightarrow> preserveGID w \<longrightarrow> GID e = lastGID w"
    and "30 \<le> fversion w \<longrightarrow> \<not> bit xw 11" "30 \<le> fversion w \<longrightarrow> \<not> bit xf 11"
  shows "reads (readGID r xw) (writeGID w xf e) (if preserveGID w then GID e else 0, [])"
  using assms
  by (cases "bit xf 4"; cases "30 \<le> fversion w")
     (auto simp: readGID_def writeGID_def has_xmit reads_def bnd_def codec_simps)

lemma unpackRdev:
  assumes "minor < 0x100" and "major < 0x1000000"
  shows "drop_bit 8 (packRdev major minor) = major" and "packRdev major minor AND 0xFF = minor"
proof -
  have "\<not> bit minor i" if "8 \<le> i" for i
    using that assms(1) by (intro bit_high [of _ 8]) (simp_all add: word_less_nat_alt)
  then have mi: "bit minor i \<Longrightarrow> i < 8" for i using not_le by blast
  have "\<not> bit major i" if "24 \<le> i" for i
    using that assms(2) by (intro bit_high [of _ 24]) (simp_all add: word_less_nat_alt)
  then have ma: "bit major i \<Longrightarrow> i < 24" for i using not_le by blast
  have m: "(0xFF :: u32) = mask 8" by (simp add: mask_eq_exp_minus_1)
  show "drop_bit 8 (packRdev major minor) = major"
    unfolding packRdev_def m by (rule bit_word_eqI) (auto simp: bit_simps dest: ma mi)
  show "packRdev major minor AND 0xFF = minor"
    unfolding packRdev_def m by (rule bit_word_eqI) (auto simp: bit_simps dest: mi)
qed

lemma reads_readRdev:
  assumes "fversion r = fversion w" "preserveDevices r = preserveDevices w"
    and "isDevice (Mode e) \<longrightarrow> \<not> bit xw 8 \<and> \<not> bit xf 8" and "\<not> bit xw 11" "\<not> bit xf 11"
    and "fversion w < 28 \<and> preserveDevices w \<and> isDevice (Mode e) \<longrightarrow>
          RdevMinor e < 0x100 \<and> RdevMajor e < 0x1000000"
  shows "reads (readRdev r xw (Mode e)) (writeRdev w xf e)
    (if preserveDevices w \<and> isDevice (Mode e) then (RdevMajor e, RdevMinor e) else (0, 0))"
proof (cases "preserveDevices w \<and> isDevice (Mode e)")
  case False
  then show ?thesis unfolding readRdev_def writeRdev_def assms(2) if_not_P [OF False] by (intro reads_ret)
next
  case True
  consider "fversion w < 28" | "28 \<le> fversion w" "fversion w < 30" | "30 \<le> fversion w" by linarith
  then show ?thesis
    using True assms unpackRdev [of "RdevMinor e" "RdevMajor e"]
    by cases (auto simp: readRdev_def writeRdev_def has_xmit reads_def bnd_def codec_simps)
qed

lemma reads_readLinkTarget:
  assumes "fversion r = fversion w" "preserveLinks r = preserveLinks w"
    and "preserveLinks w \<and> isSymlink (Mode e) \<longrightarrow> length (LinkTarget e) < 2 ^ 31"
  shows "reads (readLinkTarget r (Mode e)) (writeLinkTarget w e)
    (if preserveLinks w \<and> isSymlink (Mode e) then LinkTarget e else [])"
proof (cases "preserveLinks w \<and> isSymlink (Mode e)")
  case False
  then show ?thesis using assms(2) by (auto simp: readLinkTarget_def writeLinkTarget_def intro: reads_ret)
next
  case True
  let ?n = "length (LinkTarget e)"
  have n: "sint (word_of_nat ?n :: i32) = int ?n" "unat (word_of_nat ?n :: i32) = ?n"
    using assms(3) True
    by (simp_all add: signed_of_nat signed_take_bit_int_eq_self unat_of_nat take_bit_nat_eq_self)
  have "reads (if fversion r < 30 then ReadInt32 else ReadVarint)
      (if fversion w < 30 then WriteInt32 (word_of_nat ?n) else WriteVarint (word_of_nat ?n)) (word_of_nat ?n)"
    using assms(1) by (simp add: reads_ints)
  moreover have "reads (if 0 < sint (word_of_nat ?n :: i32) then readFull (unat (word_of_nat ?n :: i32)) else ret [])
      (LinkTarget e) (LinkTarget e)"
    unfolding n by (auto simp: reads_def)
  ultimately show ?thesis
    using True assms(2) unfolding readLinkTarget_def writeLinkTarget_def
    by (simp only: if_True simp_thms) (rule reads_bnd)
qed

lemma reads_readDevIno:
  assumes "fversion r = fversion w" "preserveHardlinks r = preserveHardlinks w"
    and "bit xw 9 \<longleftrightarrow> bit xf 9" "bit xf 9 \<longleftrightarrow> hlinkFlagged w e"
    and "bit xw 10 \<longleftrightarrow> bit xf 10" "bit xf 10 \<longleftrightarrow> hlinkFlagged w e \<and> Dev e = lastDev w"
    and "fversion w < 26 \<and> preserveHardlinks w \<and> isReg (Mode e) \<longrightarrow>
          ucast (ucast (Dev e) :: u32) = Dev e \<and> ucast (ucast (Ino e) :: u32) = Ino e"
  defines "linked \<equiv> fversion w < 28 \<and> preserveHardlinks w \<and> isReg (Mode e) \<or> hlinkFlagged w e"
  shows "reads (readDevIno r xw (Mode e)) (writeDevIno w xf e)
    (if linked \<and> \<not> (hlinkFlagged w e \<and> Dev e = lastDev w) then Dev e else 0, if linked then Ino e else 0)"
proof -
  have g: "fversion r < 30 \<and> preserveHardlinks r \<and>
        (fversion r < 28 \<and> isReg (Mode e) \<or> 28 \<le> fversion r \<and> has xw XmitHlinked) \<longleftrightarrow> linked"
      "fversion w < 30 \<and>
        (fversion w < 28 \<and> preserveHardlinks w \<and> isReg (Mode e) \<or> 28 \<le> fversion w \<and> has xf XmitHlinked) \<longleftrightarrow> linked"
    using assms(1-4) by (auto simp: linked_def has_xmit hlinkFlagged_def)
  show ?thesis
  proof (cases "linked \<and> fversion w < 26")
    case True
    then have "\<not> hlinkFlagged w e" by (auto simp: hlinkFlagged_def)
    with True assms(1,7) show ?thesis
      unfolding readDevIno_def writeDevIno_def g
      by (auto simp: linked_def reads_def bnd_def codec_simps)
  next
    case False
    with assms(1,3-6) show ?thesis
      unfolding readDevIno_def writeDevIno_def g
      by (auto simp: has_xmit reads_def bnd_def codec_simps)
  qed
qed

lemma reads_readChecksum:
  assumes "fversion r = fversion w" "alwaysChecksum r = alwaysChecksum w"
    and "alwaysChecksum w \<longrightarrow> length (Checksum e) \<in> {0, 16}"
  shows "reads (readChecksum r (Mode e)) (writeChecksum w e)
    (if alwaysChecksum w \<and> (isReg (Mode e) \<or> fversion w < 28)
     then if Checksum e = [] then replicate 16 0 else Checksum e else [])"
  using assms by (auto simp: readChecksum_def writeChecksum_def intro!: reads_readFull reads_ret)

section \<open>Whole entries\<close>

lemma reads_ret_eq: "x = y \<Longrightarrow> reads (ret x) [] y"
  by (simp add: reads_ret)

lemma reads_bnd_skip: "reads m [] x \<Longrightarrow> reads (f x) bs y \<Longrightarrow> reads (bnd m f) bs y"
  using reads_bnd [of m "[]" x f bs y] by simp

lemma computeXflags_frame:
  "snd (computeXflags w e) = w\<lparr>lastDev := (if hlinkFlagged w e then Dev e else lastDev w)\<rparr>"
  by (simp add: computeXflags_def Let_def)

lemma computed_narrow:
  defines "xf w e \<equiv> fst (computeXflags w e)"
  shows "narrow 16 (xf w e)" and "\<not> bit (xf w e) 2"
    and "entry_ok w e \<Longrightarrow> fversion w < 28 \<longrightarrow> varintFlistFlags w \<or> narrow 8 (xf w e)"
proof -
  show "narrow 16 (xf w e)" "\<not> bit (xf w e) 2"
    by (auto simp: xf_def bit_computeXflags xflagBit_def intro!: narrowI)
  show "fversion w < 28 \<longrightarrow> varintFlistFlags w \<or> narrow 8 (xf w e)" if ok: "entry_ok w e"
  proof (intro impI disjCI narrowI)
    fix i assume v: "fversion w < 28" and n: "\<not> narrow 8 (xf w e)"
    show "varintFlistFlags w"
    proof (rule ccontr)
      assume "\<not> varintFlistFlags w"
      then have "\<not> hasAtimes w" using ok v by (simp add: entry_ok_def)
      with v have "narrow 8 (xf w e)"
        by (intro narrowI) (auto simp: xf_def bit_computeXflags xflagBit_def hlinkFlagged_def)
      with n show False by contradiction
    qed
  qed
qed

text \<open>
  The flag word the reader gets agrees with the computed one on every bit the reader
  looks at.
\<close>

lemma entry_flags:
  fixes w e
  defines "xf \<equiv> fst (computeXflags w e)"
  defines "xw \<equiv> wireXflags xf (Mode e) (fversion w) (varintFlistFlags w)"
  shows "i \<notin> {0, 2, 6} \<Longrightarrow> bit xw i \<longleftrightarrow> bit xf i"
    and "bit xf i \<longleftrightarrow> xflagBit w e i"
    and "isDir (Mode e) \<Longrightarrow> bit xw 0 \<longleftrightarrow> TopDir e"
    and "entry_ok w e \<Longrightarrow> bit xw 6 \<longleftrightarrow>
      bit xf 6 \<or> length (Name e) - commonPrefixLen (lastName w) (Name e) < 128 \<and>
        (xf = 0 \<and> fversion w < 28 \<and> \<not> varintFlistFlags w \<and> isDir (Mode e))"
  unfolding xw_def
  by (auto simp: bit_wireXflags xf_def bit_computeXflags xflagBit_def entry_ok_def)

lemma reads_readFields:
  fixes w e
  defines "xf \<equiv> fst (computeXflags w e)"
  defines "xw \<equiv> wireXflags xf (Mode e) (fversion w) (varintFlistFlags w)"
  assumes s: "in_sync w r" and ok: "entry_ok w e"
  shows "reads (readFields r xw (Name e))
     (writeSize w (Size e) @ writeMtime w xf (Mtime e) @ writeModNsec xf (ModNsec e) @
      writeMode xf (Mode e) @ writeAtime w xf e @ writeUID w xf e @ writeGID w xf e @
      writeRdev w xf e @ writeLinkTarget w e @ writeDevIno w xf e @ writeChecksum w e)
     (entry_view w e, r\<lparr>lastName := Name e, lastMtime := Mtime e, lastMode := Mode e,
        lastAtime := (if hasAtimes w \<and> \<not> isDir (Mode e) then Atime e else lastAtime w),
        lastUID := (if preserveUID w then UID e else lastUID w),
        lastGID := (if preserveGID w then GID e else lastGID w),
        used := used r + 1\<rparr>)"
proof -
  note fl = entry_flags [where w = w and e = e, folded xf_def, folded xw_def]
  have eq: "bit xw i \<longleftrightarrow> bit xf i" if "i \<notin> {0, 2, 6}" for i
    using fl(1) that by simp
  note bits = fl(2) xflagBit_def hlinkFlagged_def
  note c = s [unfolded in_sync_def] and o = ok [unfolded entry_ok_def]
  have 1: "reads (readSize r) (writeSize w (Size e)) (Size e)"
    using c by (intro reads_readSize) simp
  have 2: "reads (readMtime r xw) (writeMtime w xf (Mtime e)) (Mtime e)"
    using c o by (intro reads_readMtime eq) (auto simp: bits)
  have 3: "reads (readModNsec xw) (writeModNsec xf (ModNsec e)) (if 31 \<le> fversion w then ModNsec e else 0)"
    by (intro reads_readModNsec eq) (auto simp: bits)
  have 4: "reads (readMode r xw) (writeMode xf (Mode e)) (Mode e)"
    using c by (intro reads_readMode eq) (auto simp: bits)
  have 5: "reads (checkMode (Name e) (Mode e)) [] ()"
    using o by (intro reads_checkMode) simp_all
  have 6: "reads (readAtime r xw (Mode e)) (writeAtime w xf e) (if hasAtimes w \<and> \<not> isDir (Mode e) then Atime e else 0)"
    using c by (intro reads_readAtime eq) (auto simp: bits)
  have 7: "reads (readUID r xw) (writeUID w xf e) (if preserveUID w then UID e else 0, [])"
    using c by (intro reads_readUID eq) (auto simp: eq bits)
  have 8: "reads (readGID r xw) (writeGID w xf e) (if preserveGID w then GID e else 0, [])"
    using c by (intro reads_readGID eq) (auto simp: eq bits)
  have "reads (readRdev r xw (Mode e)) (writeRdev w xf e)
      (if preserveDevices w \<and> isDevice (Mode e) then (RdevMajor e, RdevMinor e) else (0, 0))"
    using c o by (intro reads_readRdev) (auto simp: eq bits)
  then have 9: "reads (readRdev r xw (Mode e)) (writeRdev w xf e) (RdevMajor (entry_view w e), RdevMinor (entry_view w e))"
    by (cases "preserveDevices w \<and> isDevice (Mode e)") (auto simp: entry_view_def Let_def)
  have 10: "reads (readLinkTarget r (Mode e)) (writeLinkTarget w e)
      (if preserveLinks w \<and> isSymlink (Mode e) then LinkTarget e else [])"
    using c o by (intro reads_readLinkTarget) simp_all
  have 11: "reads (readDevIno r xw (Mode e)) (writeDevIno w xf e) (Dev (entry_view w e), Ino (entry_view w e))"
    unfolding entry_view_def Let_def flist_entry.simps
    using c o by (intro reads_readDevIno eq) (auto simp: fl(2) xflagBit_def)
  have 12: "reads (readChecksum r (Mode e)) (writeChecksum w e)
      (if alwaysChecksum w \<and> (isReg (Mode e) \<or> fversion w < 28)
       then if Checksum e = [] then replicate 16 0 else Checksum e else [])"
    using c o by (intro reads_readChecksum) simp_all
  have nc: "isDir (Mode e) \<and> has xw XmitTopDir \<longleftrightarrow> TopDir (entry_view w e)"
      "isDir (Mode e) \<and> has xw XmitNoContentDir \<longleftrightarrow> NoContentDir (entry_view w e)"
    using fl(3) by (auto simp: entry_view_def Let_def has_xmit eq bits)
  show ?thesis
    unfolding readFields_def
    by (rule reads_bnd [OF 1], rule reads_bnd [OF 2], rule reads_bnd [OF 3], rule reads_bnd [OF 4],
        rule reads_bnd_skip [OF 5], rule reads_bnd [OF 6], rule reads_bnd [OF 7], unfold prod.case,
        rule reads_bnd [OF 8], unfold prod.case, rule reads_bnd [OF 9], unfold prod.case,
        rule reads_bnd [OF 10], rule reads_bnd [OF 11], unfold prod.case, rule reads_bnd_last [OF 12],
        rule reads_ret_eq, unfold nc) (use c in \<open>auto simp: entry_view_def Let_def\<close>)
qed

lemma ReadEntry_WriteEntry:
  assumes s: "in_sync w r" and ok: "entry_ok w e"
  shows "\<exists>r'. reads (ReadEntry r) (snd (WriteEntry w e)) (entry_view w e, r') \<and>
           in_sync (fst (WriteEntry w e)) r' \<and> used r' = used r + 1"
proof -
  define xf where "xf = fst (computeXflags w e)"
  define xw where "xw = wireXflags xf (Mode e) (fversion w) (varintFlistFlags w)"
  note fl = entry_flags [where w = w and e = e, folded xf_def, folded xw_def]
  have eq: "bit xw i \<longleftrightarrow> bit xf i" if "i \<notin> {0, 2, 6}" for i using fl(1) that by simp
  have v: "fversion r = fversion w" "varintFlistFlags r = varintFlistFlags w" "lastName r = lastName w"
    using s by (simp_all add: in_sync_def)
  have n9: "30 \<le> fversion w \<Longrightarrow> \<not> bit xf 9"
    by (auto simp: fl(2) xflagBit_def hlinkFlagged_def)
  have noabb: "\<not> hlinkAbbrev r xw" using n9 eq [of 9] v by (auto simp: hlinkAbbrev_def has_xmit)
  have cf: "computeXflags w e = (xf, w\<lparr>lastDev := (if hlinkFlagged w e then Dev e else lastDev w)\<rparr>)"
    by (metis computeXflags_frame prod.collapse xf_def)
  have g: "\<not> (30 \<le> fversion w \<and> has xf XmitHlinked \<and> \<not> has xf XmitHlinkFirst \<and> 0 \<le> sint (HlinkNdx e))"
    using n9 by (auto simp: has_xmit)
  have x: "reads (readXflags r) (writeXflags xf (Mode e) (fversion w) (varintFlistFlags w)) xw"
    using reads_readXflags [of xf r "Mode e"] computed_narrow [of w e] ok
    by (simp add: v xf_def xw_def)
  have nz: "xw \<noteq> 0" unfolding xw_def by (rule wireXflags_nonzero)
  have nm: "reads (readName r xw) (writeName w xf (Name e)) (Name e)"
    by (rule reads_readName [OF v(3) _ _ _ _ fl(4) [OF ok]])
       (use ok eq [of 5] in \<open>auto simp: entry_ok_def fl(2) xflagBit_def\<close>)
  let ?r = "r\<lparr>lastName := Name e, lastMtime := Mtime e, lastMode := Mode e,
        lastAtime := (if hasAtimes w \<and> \<not> isDir (Mode e) then Atime e else lastAtime w),
        lastUID := (if preserveUID w then UID e else lastUID w),
        lastGID := (if preserveGID w then GID e else lastGID w),
        used := used r + 1\<rparr>"
  have "reads (ReadEntry r) (snd (WriteEntry w e)) (entry_view w e, ?r)"
    unfolding ReadEntry_def WriteEntry_def cf Let_def prod.case snd_conv if_not_P [OF g] append_assoc
    by (rule reads_bnd [OF x], unfold if_not_P [OF nz], rule reads_bnd [OF nm], unfold if_not_P [OF noabb])
       (rule reads_readFields [OF s ok, folded xf_def, folded xw_def])
  moreover have "in_sync (fst (WriteEntry w e)) ?r"
    using s unfolding WriteEntry_def cf Let_def prod.case fst_conv if_not_P [OF g] in_sync_def
    by (auto simp: has_xmit fl(2) xflagBit_def)
  ultimately show ?thesis by (intro exI [of _ ?r]) simp
qed

interpretation flist: stream_codec WriteEntry ReadEntry in_sync entry_ok entry_view
proof unfold_locales
  fix w r x rest e assume "in_sync w r" "entry_ok w x"
  from ReadEntry_WriteEntry [OF this] obtain r'
    where "reads (ReadEntry r) (snd (WriteEntry w x)) (entry_view w x, r')"
      and "in_sync (fst (WriteEntry w x)) r'"
    by (elim exE conjE)
  then show "\<exists>r'. ReadEntry r (Src (snd (WriteEntry w x) @ rest) e) = (Inr (entry_view w x, r'), Src rest e) \<and>
      in_sync (fst (WriteEntry w x)) r'"
    by (intro exI [of _ r'] conjI readsD)
qed

lemma ReadEntry_EndMarker:
  assumes "in_sync w r"
  shows "ReadEntry r (Src (WriteEndMarker w @ rest) e) = (Inl EOF, Src rest e)"
proof -
  have z: "WriteVarint 0 = [0]" using WriteVarint_small [of 0] by simp
  have r: "ReadVarint (Src (0 # q) e) = (Inr 0, Src q e)" for q
    using ReadVarint_WriteVarint [of 0 q e] by (simp add: z)
  show ?thesis
    using assms
    by (auto simp: ReadEntry_def WriteEndMarker_def readXflags_def readEndOfList_def in_sync_def z r bnd_def)
qed

lemma WriteEntry_conf:
  "fversion (fst (WriteEntry w e)) = fversion w" "varintFlistFlags (fst (WriteEntry w e)) = varintFlistFlags w"
  by (simp_all add: WriteEntry_def computeXflags_def Let_def split: prod.splits)

lemma in_sync_new: "in_sync (NewFlistWriter v vf) (NewFlistReader v vf)"
  by (simp add: in_sync_def NewFlistWriter_def NewFlistReader_def)

text \<open>The options a session sets on both sides keep them in step.\<close>

lemma in_sync_setters:
  "in_sync w r \<Longrightarrow> in_sync (SetAtimes b w) (SetAtimes b r)"
  "in_sync w r \<Longrightarrow> in_sync (SetPreserveUID b w) (SetPreserveUID b r)"
  "in_sync w r \<Longrightarrow> in_sync (SetPreserveGID b w) (SetPreserveGID b r)"
  "in_sync w r \<Longrightarrow> in_sync (SetPreserveDevices b w) (SetPreserveDevices b r)"
  "in_sync w r \<Longrightarrow> in_sync (SetPreserveLinks b w) (SetPreserveLinks b r)"
  "in_sync w r \<Longrightarrow> in_sync (SetPreserveHardlinks b w) (SetPreserveHardlinks b r)"
  "in_sync w r \<Longrightarrow> in_sync (SetAlwaysChecksum b w) (SetAlwaysChecksum b r)"
  by (simp_all add: in_sync_def SetAtimes_def SetPreserveUID_def SetPreserveGID_def SetPreserveDevices_def
      SetPreserveLinks_def SetPreserveHardlinks_def SetAlwaysChecksum_def)

section \<open>What any input may bring\<close>

lemma readName_bounded:
  assumes "readName r xflags s = (Inr name, s')"
  shows "int (length name) \<le> MaxPathLen"
  using assms
  by (auto simp: readName_def bnd_Inr_iff split: if_splits dest!: readFull_InrD)

lemma bndE:
  assumes "bnd m f s = (Inr y, s')"
  obtains x t where "m s = (Inr x, t)" and "f x t = (Inr y, s')"
  using assms by (auto simp: bnd_Inr_iff)

lemma readFields_accepts:
  assumes "readFields r xflags name s = (Inr (e, r'), s')"
  shows "modeValid (Mode e) \<and> (isRootName name \<longrightarrow> isDir (Mode e)) \<and> Name e = name \<and> HlinkNdx e = 0 \<and>
    lastName r' = name \<and> used r' = used r + 1"
  using assms unfolding readFields_def split_beta
  by (elim bndE) (auto simp: checkMode_def split: if_splits)

lemma readHlinkNdx_range:
  assumes "readHlinkNdx r s = (Inr ndx, s')" and "0 \<le> used r" and "used r < 2 ^ 31 - 1"
  shows "1 \<le> sint ndx \<and> sint ndx \<le> used r"
proof -
  have "sint (word_of_int (used r + 1) :: i32) = used r + 1"
    using assms(2,3) by (simp add: signed_of_int signed_take_bit_int_eq_self del: of_int_add)
  then show ?thesis using assms(1) by (auto simp: readHlinkNdx_def bnd_Inr_iff split: if_splits)
qed

lemma ReadEntry_accepts:
  assumes "ReadEntry r s = (Inr (e, r'), s')" and "0 \<le> used r" and "used r < 2 ^ 31 - 1"
  shows "int (length (Name e)) \<le> MaxPathLen \<and> lastName r' = Name e \<and> used r' = used r + 1 \<and>
    0 \<le> sint (HlinkNdx e) \<and> sint (HlinkNdx e) \<le> used r \<and>
    (if HlinkNdx e = 0 then modeValid (Mode e) \<and> (isRootName (Name e) \<longrightarrow> isDir (Mode e))
     else 30 \<le> fversion r \<and> preserveHardlinks r \<and> e = emptyEntry\<lparr>Name := Name e, HlinkNdx := HlinkNdx e\<rparr>)"
proof -
  obtain xflags t where f: "(if xflags = 0 then readEndOfList r else bnd (readName r xflags) (\<lambda>name.
        if hlinkAbbrev r xflags
        then bnd (readHlinkNdx r) (\<lambda>ndx.
               ret (emptyEntry\<lparr>Name := name, HlinkNdx := ndx\<rparr>, r\<lparr>lastName := name, used := used r + 1\<rparr>))
        else readFields r xflags name)) t = (Inr (e, r'), s')"
    using assms(1) unfolding ReadEntry_def by (elim bndE)
  have "readEndOfList r t \<noteq> (Inr (e, r'), s')"
    by (auto simp: readEndOfList_def split: prod.splits sum.splits go_error.splits)
  with f obtain name u where n: "readName r xflags t = (Inr name, u)" and
    k: "(if hlinkAbbrev r xflags
        then bnd (readHlinkNdx r) (\<lambda>ndx.
               ret (emptyEntry\<lparr>Name := name, HlinkNdx := ndx\<rparr>, r\<lparr>lastName := name, used := used r + 1\<rparr>))
        else readFields r xflags name) u = (Inr (e, r'), s')"
    by (cases "xflags = 0") (auto elim: bndE)
  show ?thesis
  proof (cases "hlinkAbbrev r xflags")
    case True
    with k obtain ndx q where "readHlinkNdx r u = (Inr ndx, q)"
      and "e = emptyEntry\<lparr>Name := name, HlinkNdx := ndx\<rparr>" "r' = r\<lparr>lastName := name, used := used r + 1\<rparr>"
      by (auto elim: bndE)
    with readHlinkNdx_range [OF _ assms(2,3), of u ndx q] readName_bounded [OF n] True show ?thesis
      by (auto simp: hlinkAbbrev_def)
  next
    case False
    with k have "readFields r xflags name u = (Inr (e, r'), s')" by simp
    from readFields_accepts [OF this] readName_bounded [OF n] assms(2) show ?thesis by simp
  qed
qed

text \<open>
  A peer that claims a longer common prefix than the previous name has makes the slice
  expression panic, whatever the rest of the entry.
\<close>

lemma readName_panics:
  assumes "has xflags XmitSameName" and "\<not> has xflags XmitLongName"
    and "length (lastName r) < unat l1" and "length suffix = unat l2"
  shows "readName r xflags (Src (l1 # l2 # suffix @ rest) e) = (Inl (Panic ''slice bounds out of range''), Src rest e)"
proof -
  have "uint l1 < 256" "uint l2 < 256"
    using unsigned_less [of l1, where 'a = int] unsigned_less [of l2, where 'a = int] by simp_all
  then have "\<not> (uint l2 < 0 \<or> MaxPathLen < int (unat l1) + uint l2)" "nat (uint l2) = unat l2"
    by (simp_all add: MaxPathLen_def)
  moreover have "\<not> 0 < uint l2 \<Longrightarrow> suffix = []"
  proof -
    assume "\<not> 0 < uint l2"
    moreover have "int (length suffix) = uint l2" using assms(4) by simp
    ultimately have "length suffix = 0" by linarith
    then show "suffix = []" by simp
  qed
  ultimately show ?thesis
    using assms by (auto simp: readName_def bnd_def)
qed

section \<open>Progress\<close>

lemma streaming_readEndOfList: "streaming (readEndOfList r)"
  by (auto simp: streaming_def readEndOfList_def split: prod.splits sum.splits go_error.splits if_splits)

lemma streaming_readXflags [streaming_intros]: "streaming (readXflags r)"
  unfolding readXflags_def by (intro streaming_intros)

lemma streaming_fields [streaming_intros]:
  "streaming (readName r xf)" "streaming (readHlinkNdx r)" "streaming (readSize r)" "streaming (readMtime r xf)"
  "streaming (readModNsec xf)" "streaming (readMode r xf)" "streaming (checkMode nm md)"
  "streaming (readAtime r xf md)" "streaming readIdName" "streaming (readUID r xf)" "streaming (readGID r xf)"
  "streaming (readRdev r xf md)" "streaming (readLinkTarget r md)" "streaming (readDevIno r xf md)"
  "streaming (readChecksum r md)"
  unfolding readName_def readHlinkNdx_def readSize_def readMtime_def readModNsec_def readMode_def checkMode_def
    readAtime_def readIdName_def readUID_def readGID_def readRdev_def readLinkTarget_def readDevIno_def readChecksum_def
  by (intro streaming_intros)+

lemma streaming_readFields [streaming_intros]: "streaming (readFields r xf nm)"
  unfolding readFields_def by (intro streaming_intros)

lemma consumes_readXflags: "consumes (readXflags r)"
  unfolding readXflags_def
  by (intro consumes_if consumes_bnd consumes_ints consumes_readByte streaming_intros)

lemma consumes_ReadEntry: "consumes (ReadEntry r)"
  unfolding ReadEntry_def
  by (intro consumes_bnd consumes_readXflags streaming_intros streaming_readEndOfList)

section \<open>Properties\<close>



text \<open>
  C34: whatever a peer sends, every accepted entry has a name within \<^verbatim>\<open>MaxPathLen\<close>, and the
  reader's state moves on with it. An ordinary entry has a valid file type and is a directory
  when it names the transfer root. The one other kind, accepted from protocol 30 on by a reader
  that preserves hard links, is the reference to an entry already read: it has a name and that
  index and nothing else, mode 0 included, and neither guard on the mode applies to it, also
  when it names the transfer root.
\<close>

theorem flist_accepts:
  assumes "ReadEntry r s = (Inr (e, r'), s')" and "0 \<le> used r" and "used r < 2 ^ 31 - 1"
  shows "int (length (Name e)) \<le> MaxPathLen \<and> lastName r' = Name e \<and> used r' = used r + 1 \<and>
    0 \<le> sint (HlinkNdx e) \<and> sint (HlinkNdx e) \<le> used r \<and>
    (if HlinkNdx e = 0 then modeValid (Mode e) \<and> (isRootName (Name e) \<longrightarrow> isDir (Mode e))
     else 30 \<le> fversion r \<and> preserveHardlinks r \<and> e = emptyEntry\<lparr>Name := Name e, HlinkNdx := HlinkNdx e\<rparr>)"
  using ReadEntry_accepts [OF assms] .

theorem flist_accepts_witness:
  "\<exists>e r' s'. ReadEntry (NewFlistReader 27 False) (Src [0x18, 1, 97, 5, 0, 0, 0, 9, 0, 0, 0, 0xED, 0x41, 0, 0] EOF) = (Inr (e, r'), s') \<and>
     int (length (Name e)) \<le> MaxPathLen \<and> modeValid (Mode e)"
proof -
  obtain e r' s' where r: "ReadEntry (NewFlistReader 27 False) (Src [0x18, 1, 97, 5, 0, 0, 0, 9, 0, 0, 0, 0xED, 0x41, 0, 0] EOF) = (Inr (e, r'), s')"
    and "HlinkNdx e = 0"
  proof -
    have "case ReadEntry (NewFlistReader 27 False) (Src [0x18, 1, 97, 5, 0, 0, 0, 9, 0, 0, 0, 0xED, 0x41, 0, 0] EOF) of
        (Inr (e, r'), s') \<Rightarrow> HlinkNdx e = 0 | (Inl _, _) \<Rightarrow> False"
      by code_simp
    then show thesis using that by (auto split: prod.splits sum.splits)
  qed
  then show ?thesis using flist_accepts [OF r] by (auto simp: NewFlistReader_def)
qed

text \<open>
  C35: a peer that announces a longer common prefix than the previous name has makes the
  reader panic instead of returning an error, for every suffix and whatever follows.
\<close>

theorem flist_prefix_panics:
  assumes "has xflags XmitSameName" and "\<not> has xflags XmitLongName"
    and "length (lastName r) < unat l1" and "length suffix = unat l2"
  shows "fst (readName r xflags (Src (l1 # l2 # suffix @ rest) e)) = Inl (Panic ''slice bounds out of range'')"
  using readName_panics [OF assms] by simp

theorem flist_prefix_panics_witness:
  "fst (readName (NewFlistReader 31 False) XmitSameName (Src (1 # 1 # [97] @ []) EOF)) = Inl (Panic ''slice bounds out of range'')"
  by (rule flist_prefix_panics) (code_simp | simp add: NewFlistReader_def has_xmit xmit_defs has_def)+

end
