(* ===== verification/Flist_Sort.thy ===== *)
theory Flist_Sort
  imports Flist_Codec "HOL-Library.List_Lexorder" "HOL-Library.Product_Lexorder" "HOL-Library.Multiset"
begin

text \<open>
  The order of the file list: \<^verbatim>\<open>flistNameCmp\<close> and \<^verbatim>\<open>sortFlist\<close> of \<^verbatim>\<open>src/server-send.go\<close> and
  \<^verbatim>\<open>sortFlistEntries\<close> of \<^verbatim>\<open>src/client-open.go\<close>. A file is requested by its position in this
  order, so both sides must compute the same one. The comparison is shown to be the
  lexicographic order of a key; Go's stable sorts (\<^verbatim>\<open>slices.SortStableFunc\<close>,
  \<^verbatim>\<open>sort.SliceStable\<close>) are modelled by stable insertion, which on a total order is what every
  stable sort computes.
\<close>

section \<open>Definitions\<close>

text \<open>\<^verbatim>\<open>strings.Split\<close> with a one-byte separator, and \<^verbatim>\<open>strings.Compare\<close>.\<close>

fun goSplit :: "byte \<Rightarrow> gostring \<Rightarrow> gostring list" where
  "goSplit sep [] = [[]]"
| "goSplit sep (c # cs) =
    (if c = sep then [] # goSplit sep cs
     else case goSplit sep cs of x # xs \<Rightarrow> (c # x) # xs | [] \<Rightarrow> [[c]])"

definition strCompare :: "gostring \<Rightarrow> gostring \<Rightarrow> int" where
  "strCompare a b = (if a < b then -1 else if a = b then 0 else 1)"

definition slash :: byte where "slash = 47"
definition dotName :: gostring where "dotName = [46]"

text \<open>The loop over the components; the lists are what is left of both names.\<close>

fun cmpLoop :: "int \<Rightarrow> bool \<Rightarrow> bool \<Rightarrow> gostring list \<Rightarrow> gostring list \<Rightarrow> int" where
  "cmpLoop ver dirA dirB [] [] = 0"
| "cmpLoop ver dirA dirB [] (b # bs) = -1"
| "cmpLoop ver dirA dirB (a # as) [] = 1"
| "cmpLoop ver dirA dirB (a # as) (b # bs) =
    (if ver < 29 then
       let a' = (if as \<noteq> [] then a @ [slash] else a);
           b' = (if bs \<noteq> [] then b @ [slash] else b);
           c = strCompare a' b'
       in if c \<noteq> 0 then c else cmpLoop ver dirA dirB as bs
     else
       let aDir = (as \<noteq> [] \<or> dirA); bDir = (bs \<noteq> [] \<or> dirB)
       in if a = dotName \<and> aDir then -1
          else if b = dotName \<and> bDir then 1
          else if aDir \<noteq> bDir then if aDir then 1 else -1
          else if aDir then
            let c = strCompare (a @ [slash]) (b @ [slash])
            in if c \<noteq> 0 then c else cmpLoop ver dirA dirB as bs
          else strCompare a b)"

definition flistNameCmp :: "gostring \<Rightarrow> bool \<Rightarrow> gostring \<Rightarrow> bool \<Rightarrow> int \<Rightarrow> int" where
  "flistNameCmp nameA dirA nameB dirB ver = cmpLoop ver dirA dirB (goSplit slash nameA) (goSplit slash nameB)"

text \<open>Stable insertion sort by a three-way comparison.\<close>

fun insertBy :: "('a \<Rightarrow> 'a \<Rightarrow> int) \<Rightarrow> 'a \<Rightarrow> 'a list \<Rightarrow> 'a list" where
  "insertBy cmp x [] = [x]"
| "insertBy cmp x (y # ys) = (if cmp y x < 0 then y # insertBy cmp x ys else x # y # ys)"

definition sortStable :: "('a \<Rightarrow> 'a \<Rightarrow> int) \<Rightarrow> 'a list \<Rightarrow> 'a list" where
  "sortStable cmp xs = foldr (insertBy cmp) xs []"

text \<open>The walked entries, with \<^verbatim>\<open>fs.FileMode\<close> as its 32 bits and \<^verbatim>\<open>time.Time\<close> as seconds and nanoseconds.\<close>

record file_entry =
  fname :: gostring
  fmode :: u32
  fsize :: i64
  fmodSec :: i64
  fmodNsec :: i32
  flinkTarget :: gostring
  fuid :: u32
  fgid :: u32
  fdev :: i64
  fino :: i64
  fnlink :: i64

record sortable_entry =
  sentry :: file_entry
  sisDir :: bool

definition sortFlist :: "sortable_entry list \<Rightarrow> int \<Rightarrow> sortable_entry list" where
  "sortFlist entries ver =
    sortStable (\<lambda>a b. flistNameCmp (fname (sentry a)) (sisDir a) (fname (sentry b)) (sisDir b) ver) entries"

definition wireModeIsDir :: "u32 \<Rightarrow> bool" where
  "wireModeIsDir mode \<longleftrightarrow> mode AND 0xF000 = 0x4000"

definition sortFlistEntries :: "flist_entry list \<Rightarrow> int \<Rightarrow> (gostring \<rightharpoonup> i32)" where
  "sortFlistEntries entries ver =
    (let order = sortStable (\<lambda>a b. flistNameCmp (Name a) (wireModeIsDir (Mode a)) (Name b) (wireModeIsDir (Mode b)) ver) entries
     in map_of (rev (zip (map Name order) (map word_of_nat [0..<length order]))))"

section \<open>The comparison as a key order\<close>

text \<open>
  The key of a name, component by component: the top directory first, then
  non-directories, then directories with their implied slash; below protocol 29 only the
  components that continue a path have one.
\<close>

fun keyLoop :: "int \<Rightarrow> bool \<Rightarrow> gostring list \<Rightarrow> (nat \<times> gostring) list" where
  "keyLoop ver dir [] = []"
| "keyLoop ver dir (a # as) =
    (if ver < 29 then (0, if as \<noteq> [] then a @ [slash] else a)
     else if a = dotName \<and> (as \<noteq> [] \<or> dir) then (0, [])
     else if as \<noteq> [] \<or> dir then (2, a @ [slash])
     else (1, a)) # keyLoop ver dir as"

definition nameKey :: "int \<Rightarrow> gostring \<Rightarrow> bool \<Rightarrow> (nat \<times> gostring) list" where
  "nameKey ver name dir = keyLoop ver dir (goSplit slash name)"

definition keyCompare :: "'a::linorder \<Rightarrow> 'a \<Rightarrow> int" where
  "keyCompare a b = (if a < b then -1 else if a = b then 0 else 1)"

lemma keyCompare_Cons:
  "keyCompare (x # xs) (y # ys :: 'a::linorder list) = (if x < y then -1 else if y < x then 1 else keyCompare xs ys)"
  by (auto simp: keyCompare_def)

lemma keyCompare_Nil [simp]:
  "keyCompare [] ([] :: 'a::linorder list) = 0" "keyCompare [] (y # ys) = -1" "keyCompare (y # ys) [] = 1"
  by (simp_all add: keyCompare_def)

lemma strCompare_sign [simp]:
  "strCompare a b = 0 \<longleftrightarrow> a = b"
  by (simp add: strCompare_def)

lemma cmpLoop_key:
  "ver < 29 \<or> dotName \<notin> set as \<or> dotName \<notin> set bs \<Longrightarrow>
   cmpLoop ver dirA dirB as bs = keyCompare (keyLoop ver dirA as) (keyLoop ver dirB bs)"
proof (induction ver dirA dirB as bs rule: cmpLoop.induct)
  case (4 ver dirA dirB a as b bs)
  show ?case
  proof (cases "ver < 29")
    case True
    with "4.IH"(1) show ?thesis
      by (auto simp: keyCompare_Cons strCompare_def Let_def)
  next
    case v: False
    define aDir bDir where "aDir \<longleftrightarrow> as \<noteq> [] \<or> dirA" and "bDir \<longleftrightarrow> bs \<noteq> [] \<or> dirB"
    note eqs = cmpLoop.simps(4) keyLoop.simps(2) Let_def aDir_def [symmetric] bDir_def [symmetric] if_not_P [OF v]
    consider (dotA) "a = dotName \<and> aDir" "\<not> (b = dotName \<and> bDir)"
      | (dotB) "\<not> (a = dotName \<and> aDir)" "b = dotName \<and> bDir"
      | (mixed) "\<not> (a = dotName \<and> aDir)" "\<not> (b = dotName \<and> bDir)" "aDir \<noteq> bDir"
      | (dirs) "\<not> (a = dotName \<and> aDir)" "\<not> (b = dotName \<and> bDir)" "aDir" "bDir"
      | (files) "\<not> aDir" "\<not> bDir"
      using "4.prems" v by auto
    then show ?thesis
    proof cases
      case dirs
      have IH: "a = b \<Longrightarrow> cmpLoop ver dirA dirB as bs = keyCompare (keyLoop ver dirA as) (keyLoop ver dirB bs)"
        using "4.IH"(2) [OF v refl refl] dirs "4.prems" v by (auto simp: aDir_def bDir_def)
      show ?thesis
        unfolding eqs using dirs IH by (auto simp: keyCompare_Cons strCompare_def)
    next
      case files
      then have "as = []" "bs = []" by (simp_all add: aDir_def bDir_def)
      with files show ?thesis
        unfolding eqs by (auto simp: keyCompare_Cons strCompare_def aDir_def bDir_def)
    qed (unfold eqs, auto simp: keyCompare_Cons)
  qed
qed simp_all

text \<open>Different names have different keys.\<close>

lemma goSplit_nonempty [simp]: "goSplit sep s \<noteq> []"
  by (cases s) (auto split: list.splits)

lemma goSplit_clean: "x \<in> set (goSplit sep s) \<Longrightarrow> sep \<notin> set x"
  by (induction s arbitrary: x) (auto split: list.splits if_splits)

lemma goSplit_inj: "goSplit sep s = goSplit sep t \<Longrightarrow> s = t"
proof (induction s arbitrary: t)
  case Nil
  then show ?case by (cases t) (auto split: list.splits if_splits)
next
  case (Cons c s)
  obtain x xs where x: "goSplit sep s = x # xs" by (cases "goSplit sep s") auto
  show ?case
  proof (cases t)
    case Nil
    with Cons.prems x show ?thesis by (auto split: if_splits)
  next
    case (Cons d t')
    obtain y ys where y: "goSplit sep t' = y # ys" by (cases "goSplit sep t'") auto
    have "c = d" "goSplit sep s = goSplit sep t'"
      using Cons.prems x y Cons by (auto split: if_splits)
    with Cons.IH Cons show ?thesis by simp
  qed
qed

lemma keyLoop_inj:
  assumes "\<forall>x\<in>set as. slash \<notin> set x" and "\<forall>x\<in>set bs. slash \<notin> set x"
    and "keyLoop ver d as = keyLoop ver d' bs"
  shows "as = bs"
  using assms
proof (induction as arbitrary: bs)
  case Nil
  then show ?case by (cases bs) auto
next
  case (Cons a as)
  then obtain b bs' where bs: "bs = b # bs'" by (cases bs) auto
  have "keyLoop ver d as = keyLoop ver d' bs'" using Cons.prems(3) bs by simp
  with Cons have "as = bs'" by (simp add: bs)
  moreover have "a = b"
    using Cons.prems bs by (auto split: if_splits)
  ultimately show ?case by (simp add: bs)
qed

lemma nameKey_inj: "nameKey ver a d = nameKey ver b d' \<Longrightarrow> a = b"
  unfolding nameKey_def
  by (rule goSplit_inj [of slash], rule keyLoop_inj [of _ _ ver d d']) (auto dest: goSplit_clean)

text \<open>
  The names a file system walk gives (\<^verbatim>\<open>fs.ValidPath\<close>): the root is \<^verbatim>\<open>.\<close>, and no other name
  has a component \<^verbatim>\<open>.\<close>.
\<close>

definition valid_name :: "gostring \<Rightarrow> bool" where
  "valid_name name \<longleftrightarrow> name = dotName \<or> dotName \<notin> set (goSplit slash name)"

lemma flistNameCmp_key:
  assumes "valid_name a" "valid_name b" "a \<noteq> b"
  shows "flistNameCmp a da b db ver = keyCompare (nameKey ver a da) (nameKey ver b db)"
    and "nameKey ver a da \<noteq> nameKey ver b db"
  using assms nameKey_inj [of ver a da b db]
  by (auto simp: flistNameCmp_def nameKey_def valid_name_def intro!: cmpLoop_key)

section \<open>Sorting\<close>

lemma set_insertBy [simp]: "set (insertBy cmp x ys) = insert x (set ys)"
  by (induction ys) auto

lemma sortStable_key:
  assumes "\<And>x y. x \<in> set xs \<Longrightarrow> y \<in> set xs \<Longrightarrow> f x \<noteq> f y \<Longrightarrow> cmp y x < 0 \<longleftrightarrow> f y < (f x :: 'k::linorder)"
    and "distinct (map f xs)"
  shows "sortStable cmp xs = sort_key f xs"
proof -
  have ins: "insertBy cmp x ys = insort_key f x ys"
    if "x \<in> set xs" "set ys \<subseteq> set xs" "f x \<notin> f ` set ys" for x ys
    using that by (induction ys) (auto simp: assms(1))
  have "set zs \<subseteq> set xs \<Longrightarrow> distinct (map f zs) \<Longrightarrow> foldr (insertBy cmp) zs [] = sort_key f zs" for zs
  proof (induction zs)
    case (Cons z zs)
    then have "foldr (insertBy cmp) zs [] = sort_key f zs" by simp
    with ins [of z "sort_key f zs"] Cons.prems show ?case by simp
  qed simp
  with assms(2) show ?thesis by (simp add: sortStable_def)
qed

lemma keyCompare_less: "keyCompare a b < 0 \<longleftrightarrow> a < b"
  by (auto simp: keyCompare_def)

lemma sortStable_names:
  assumes "distinct (map nm xs)" and "\<forall>x\<in>set xs. valid_name (nm x)"
  shows "sortStable (\<lambda>a b. flistNameCmp (nm a) (dr a) (nm b) (dr b) ver) xs = sort_key (\<lambda>x. nameKey ver (nm x) (dr x)) xs"
proof (rule sortStable_key)
  fix x y assume "x \<in> set xs" "y \<in> set xs" "nameKey ver (nm x) (dr x) \<noteq> nameKey ver (nm y) (dr y)"
  then show "flistNameCmp (nm y) (dr y) (nm x) (dr x) ver < 0 \<longleftrightarrow>
      nameKey ver (nm y) (dr y) < nameKey ver (nm x) (dr x)"
    using assms flistNameCmp_key(1) [of "nm y" "nm x"]
    by (cases "nm x = nm y") (auto simp: keyCompare_less distinct_map inj_on_def)
next
  show "distinct (map (\<lambda>x. nameKey ver (nm x) (dr x)) xs)"
    using assms(1) nameKey_inj by (fastforce simp: distinct_map inj_on_def)
qed

lemma sort_key_unique:
  assumes "set xs = set ys" "distinct (map f xs)" "distinct (map f ys)"
  shows "sort_key f xs = sort_key f (ys :: 'a list)"
  by (rule map_sorted_distinct_set_unique [of f])
     (use assms in \<open>auto simp: distinct_map\<close>)

lemma map_of_rev_zip_index:
  assumes "distinct ks" "i < length ks" "length vs = length ks"
  shows "map_of (rev (zip ks vs)) (ks ! i) = Some (vs ! i)"
proof -
  have "map fst (rev (zip ks vs)) = rev ks" using assms(3) by (simp add: rev_map [symmetric])
  moreover have "(ks ! i, vs ! i) \<in> set (rev (zip ks vs))"
    using assms by (auto simp: set_zip)
  ultimately show ?thesis using assms(1) by (intro map_of_is_SomeI) simp_all
qed

abbreviation sortKeyOf :: "int \<Rightarrow> flist_entry \<Rightarrow> (nat \<times> gostring) list" where
  "sortKeyOf ver e \<equiv> nameKey ver (Name e) (wireModeIsDir (Mode e))"

lemma sortFlistEntries_index:
  assumes "distinct (map Name es)" and "\<forall>e\<in>set es. valid_name (Name e)"
    and "sorted (map (sortKeyOf ver) srv)" and "set srv = set es" and "distinct (map Name srv)"
    and i: "i < length srv"
  shows "sortFlistEntries es ver (Name (srv ! i)) = Some (word_of_nat i)"
proof -
  have dist: "distinct (map (sortKeyOf ver) xs)" if "distinct (map Name xs)" for xs
    using that nameKey_inj by (fastforce simp: distinct_map inj_on_def)
  have "sort_key (sortKeyOf ver) es = sort_key (sortKeyOf ver) srv"
    by (rule sort_key_unique) (use assms(1,4,5) dist in simp_all)
  also have "\<dots> = srv" by (rule sort_key_id_if_sorted) (rule assms(3))
  finally have o: "sortStable (\<lambda>a b. flistNameCmp (Name a) (wireModeIsDir (Mode a)) (Name b) (wireModeIsDir (Mode b)) ver) es = srv"
    using sortStable_names [OF assms(1,2), of "\<lambda>e. wireModeIsDir (Mode e)" ver] by simp
  have "map_of (rev (zip (map Name srv) (map word_of_nat [0..<length srv]))) (map Name srv ! i) = Some (map word_of_nat [0..<length srv] ! i)"
    by (rule map_of_rev_zip_index) (use assms(5) i in simp_all)
  then show ?thesis using i by (simp add: sortFlistEntries_def o Let_def)
qed

section \<open>A directory is followed by its subtree\<close>

definition under :: "gostring \<Rightarrow> gostring \<Rightarrow> bool" where
  "under name dir \<longleftrightarrow> (\<exists>r. name = dir @ slash # r)"

lemma goSplit_append: "goSplit sep (d @ sep # r) = goSplit sep d @ goSplit sep r"
  by (induction d) (auto split: list.splits)

lemma goSplit_append_inv: "goSplit sep n = goSplit sep d @ cs \<Longrightarrow> cs \<noteq> [] \<Longrightarrow> \<exists>r. n = d @ sep # r"
proof (induction d arbitrary: n)
  case Nil
  then obtain c n' where "n = c # n'" by (cases n) auto
  with Nil show ?case by (auto split: if_splits list.splits)
next
  case (Cons x d)
  obtain y ys where y: "goSplit sep d = y # ys" by (cases "goSplit sep d") auto
  from Cons.prems y obtain c n' where n: "n = c # n'" by (cases n) (auto split: if_splits)
  obtain z zs where z: "goSplit sep n' = z # zs" by (cases "goSplit sep n'") auto
  have "c = x" "goSplit sep n' = goSplit sep d @ cs"
    using Cons.prems n y z by (auto split: if_splits)
  with Cons.IH [of n'] Cons.prems(2) n show ?case by auto
qed

lemma keyLoop_append: "bs \<noteq> [] \<Longrightarrow> 29 \<le> ver \<Longrightarrow> keyLoop ver dir (as @ bs) = keyLoop ver True as @ keyLoop ver dir bs"
  by (induction as) auto

lemma keyLoop_prefix:
  assumes "keyLoop ver dir cs = keyLoop ver True as @ ks" and "29 \<le> ver"
    and "\<forall>x\<in>set as. slash \<notin> set x" and "\<forall>x\<in>set cs. slash \<notin> set x"
  shows "\<exists>bs. cs = as @ bs \<and> length bs = length ks"
  using assms
proof (induction as arbitrary: cs)
  case Nil
  have "length (keyLoop ver d xs) = length xs" for d xs by (induction xs) auto
  with Nil show ?case by (metis append_Nil keyLoop.simps(1))
next
  case (Cons a as)
  then obtain c cs' where cs: "cs = c # cs'" by (cases cs) auto
  have "keyLoop ver dir cs' = keyLoop ver True as @ ks" using Cons.prems cs by simp
  with Cons obtain bs where "cs' = as @ bs" "length bs = length ks" by (auto simp: cs)
  moreover have "c = a" using Cons.prems cs by (auto split: if_splits)
  ultimately show ?case by (simp add: cs)
qed

lemma lex_between: "p \<le> k \<Longrightarrow> k \<le> p @ s \<Longrightarrow> \<exists>t. (k :: 'a::linorder list) = p @ t"
proof (induction p arbitrary: k)
  case (Cons x p)
  then obtain k' where "k = x # k'" "p \<le> k'" "k' \<le> p @ s" by (cases k) auto
  with Cons.IH show ?case by auto
qed simp

lemma not_append_le: "t \<noteq> [] \<Longrightarrow> \<not> (p @ t :: 'a::linorder list) \<le> p"
  by (induction p) (auto simp: neq_Nil_conv)

lemma nameKey_under: "29 \<le> ver \<Longrightarrow> under n d \<Longrightarrow> \<exists>t. nameKey ver n dir = nameKey ver d True @ t \<and> t \<noteq> []"
  unfolding under_def nameKey_def
  by (auto simp: goSplit_append keyLoop_append) (metis goSplit_nonempty keyLoop.simps(2) list.distinct(1) neq_Nil_conv)

lemma under_nameKey:
  assumes "29 \<le> ver" and "nameKey ver n dir = nameKey ver d True @ t" and "t \<noteq> []"
  shows "under n d"
proof -
  obtain bs where "goSplit slash n = goSplit slash d @ bs" "length bs = length t"
    using keyLoop_prefix [OF assms(2) [unfolded nameKey_def] assms(1)] goSplit_clean by blast
  with assms(3) goSplit_append_inv show ?thesis by (fastforce simp: under_def)
qed

lemma subtree_contiguous:
  assumes v: "29 \<le> ver" and s: "sorted (map (\<lambda>x. nameKey ver (nm x) (dr x)) xs)" and d: "distinct (map nm xs)"
    and i: "i < length xs" "dr (xs ! i)"
  shows "j < length xs \<Longrightarrow> under (nm (xs ! j)) (nm (xs ! i)) \<Longrightarrow> i < j"
    and "i < j \<Longrightarrow> j \<le> k \<Longrightarrow> k < length xs \<Longrightarrow> under (nm (xs ! k)) (nm (xs ! i)) \<Longrightarrow> under (nm (xs ! j)) (nm (xs ! i))"
proof -
  let ?K = "\<lambda>j. nameKey ver (nm (xs ! j)) (dr (xs ! j))"
  have mono: "?K a \<le> ?K b" if "a \<le> b" "b < length xs" for a b
    using sorted_nth_mono [OF s, of a b] that by simp
  have Ki: "?K i = nameKey ver (nm (xs ! i)) True" using i(2) by simp
  show "i < j" if j: "j < length xs" "under (nm (xs ! j)) (nm (xs ! i))"
  proof (rule ccontr)
    assume "\<not> i < j"
    obtain t where t: "?K j = ?K i @ t" "t \<noteq> []" using nameKey_under [OF v j(2), of "dr (xs ! j)"] Ki by auto
    have "?K j \<le> ?K i" using mono [of j i] \<open>\<not> i < j\<close> i(1) by simp
    with t show False using not_append_le [of t "?K i"] by simp
  qed
  show "under (nm (xs ! j)) (nm (xs ! i))"
    if j: "i < j" "j \<le> k" "k < length xs" "under (nm (xs ! k)) (nm (xs ! i))"
  proof -
    obtain t where t: "?K k = ?K i @ t" using nameKey_under [OF v j(4), of "dr (xs ! k)"] Ki by auto
    obtain u where u: "?K j = ?K i @ u"
      using lex_between [of "?K i" "?K j" t] mono [of i j] mono [of j k] t j by auto
    have "nm (xs ! j) \<noteq> nm (xs ! i)" using d j(1-3) i(1) nth_eq_iff_index_eq [of "map nm xs" i j] by simp
    then have "u \<noteq> []" using u nameKey_inj by force
    with under_nameKey [OF v, of "nm (xs ! j)" "dr (xs ! j)" "nm (xs ! i)" u] u Ki show ?thesis by simp
  qed
qed

section \<open>Properties\<close>

lemma sortFlist_key:
  assumes "distinct (map (fname \<circ> sentry) es)" and "\<forall>x\<in>set es. valid_name (fname (sentry x))"
  shows "sortFlist es ver = sort_key (\<lambda>x. nameKey ver (fname (sentry x)) (sisDir x)) es"
  unfolding sortFlist_def
  using sortStable_names [of "fname \<circ> sentry" es sisDir ver] assms by simp

text \<open>
  On distinct valid names the comparison behaves as a strict total order and the sort
  delivers it: the result is a permutation of the entries in which every entry compares
  below every later one.
\<close>

theorem sortFlist_order:
  assumes "distinct (map (fname \<circ> sentry) es)" and "\<forall>x\<in>set es. valid_name (fname (sentry x))"
  shows "mset (sortFlist es ver) = mset es \<and>
    (\<forall>i j. i < j \<and> j < length es \<longrightarrow>
       flistNameCmp (fname (sentry (sortFlist es ver ! i))) (sisDir (sortFlist es ver ! i))
                    (fname (sentry (sortFlist es ver ! j))) (sisDir (sortFlist es ver ! j)) ver < 0)"
proof (intro conjI allI impI)
  let ?S = "sortFlist es ver" and ?K = "\<lambda>x. nameKey ver (fname (sentry x)) (sisDir x)"
  have S: "?S = sort_key ?K es" by (rule sortFlist_key [OF assms])
  show m: "mset ?S = mset es" by (simp add: S)
  have set_S: "set ?S = set es" by (simp add: S)
  have len: "length ?S = length es" by (simp add: S)
  have dist: "distinct (map (fname \<circ> sentry) ?S)"
    using assms(1) m by (metis mset_eq_imp_distinct_iff mset_map)
  fix i j assume ij: "i < j \<and> j < length es"
  then have ne: "fname (sentry (?S ! i)) \<noteq> fname (sentry (?S ! j))"
    using dist len nth_eq_iff_index_eq [of "map (fname \<circ> sentry) ?S" i j] by auto
  have "?S ! i \<in> set es" "?S ! j \<in> set es" using ij len set_S by (metis less_trans nth_mem)+
  then have v: "valid_name (fname (sentry (?S ! i)))" "valid_name (fname (sentry (?S ! j)))"
    using assms(2) by blast+
  have "?K (?S ! i) \<le> ?K (?S ! j)"
    using sorted_nth_mono [of "map ?K ?S" i j] ij len by (simp add: S)
  with flistNameCmp_key [OF v ne, where ver = ver] show
    "flistNameCmp (fname (sentry (?S ! i))) (sisDir (?S ! i)) (fname (sentry (?S ! j))) (sisDir (?S ! j)) ver < 0"
    by (metis keyCompare_less order_neq_le_trans)
qed

definition demoFile :: "gostring \<Rightarrow> u32 \<Rightarrow> file_entry" where
  "demoFile name mode = \<lparr>fname = name, fmode = mode, fsize = 0, fmodSec = 0, fmodNsec = 0, flinkTarget = [],
     fuid = 0, fgid = 0, fdev = 0, fino = 0, fnlink = 1\<rparr>"

definition demoTree :: "sortable_entry list" where
  "demoTree = [\<lparr>sentry = demoFile (str ''.'') 0, sisDir = True\<rparr>, \<lparr>sentry = demoFile (str ''a'') 0, sisDir = True\<rparr>,
     \<lparr>sentry = demoFile (str ''a-b'') 0, sisDir = True\<rparr>, \<lparr>sentry = demoFile (str ''a/x'') 0, sisDir = False\<rparr>,
     \<lparr>sentry = demoFile (str ''a/y'') 0, sisDir = False\<rparr>, \<lparr>sentry = demoFile (str ''z'') 0, sisDir = False\<rparr>]"

lemma demoTree_ok:
  "distinct (map (fname \<circ> sentry) demoTree)" "\<forall>x\<in>set demoTree. valid_name (fname (sentry x))"
  by (simp_all add: demoTree_def demoFile_def str_def valid_name_def dotName_def slash_def)

theorem sortFlist_order_witness:
  "mset (sortFlist demoTree 31) = mset demoTree \<and>
   flistNameCmp (fname (sentry (sortFlist demoTree 31 ! 0))) (sisDir (sortFlist demoTree 31 ! 0))
     (fname (sentry (sortFlist demoTree 31 ! 1))) (sisDir (sortFlist demoTree 31 ! 1)) 31 < 0"
  using sortFlist_order [OF demoTree_ok, of 31] by (simp add: demoTree_def)

text \<open>
  C38: from protocol 29 on every directory is followed immediately by its whole subtree: what
  lies under it comes after it, and everything between it and an entry under it is under it
  too.
\<close>

theorem sortFlist_subtree:
  assumes "29 \<le> ver" and "distinct (map (fname \<circ> sentry) es)" and "\<forall>x\<in>set es. valid_name (fname (sentry x))"
    and "i < length es" and "sisDir (sortFlist es ver ! i)"
    and "k < length es" and "under (fname (sentry (sortFlist es ver ! k))) (fname (sentry (sortFlist es ver ! i)))"
  shows "i < k \<and> (\<forall>j. i < j \<and> j \<le> k \<longrightarrow>
    under (fname (sentry (sortFlist es ver ! j))) (fname (sentry (sortFlist es ver ! i))))"
proof -
  let ?S = "sortFlist es ver" and ?K = "\<lambda>x. nameKey ver (fname (sentry x)) (sisDir x)"
  have S: "?S = sort_key ?K es" by (rule sortFlist_key [OF assms(2,3)])
  have m: "mset ?S = mset es" by (simp add: S)
  have len: "length ?S = length es" by (simp add: S)
  have dist: "distinct (map (fname \<circ> sentry) ?S)"
    using assms(2) m by (metis mset_eq_imp_distinct_iff mset_map)
  have sorted: "sorted (map (\<lambda>x. nameKey ver ((fname \<circ> sentry) x) (sisDir x)) ?S)"
    by (simp add: S)
  note sub = subtree_contiguous [OF assms(1) sorted dist, of i]
  show ?thesis using sub assms(4-7) len by (simp add: comp_def) blast
qed

theorem sortFlist_subtree_witness:
  "(3 :: nat) < 5 \<and> under (fname (sentry (sortFlist demoTree 31 ! 4))) (fname (sentry (sortFlist demoTree 31 ! 3)))"
proof -
  have s: "sortFlist demoTree 31 = [demoTree ! 0, demoTree ! 5, demoTree ! 2, demoTree ! 1, demoTree ! 3, demoTree ! 4]"
    by code_simp
  have "under (fname (sentry (sortFlist demoTree 31 ! 5))) (fname (sentry (sortFlist demoTree 31 ! 3)))"
    "sisDir (sortFlist demoTree 31 ! 3)"
    unfolding s by (simp_all add: demoTree_def demoFile_def str_def under_def slash_def)
  with sortFlist_subtree [OF _ demoTree_ok, of 31 3 5] show ?thesis by (simp add: demoTree_def)
qed

end
