(* ===== verification/Server_Send.thy ===== *)
theory Server_Send
  imports Selector_Codec Delta_Match Flist_Sort
begin

text \<open>
  The daemon side of a transfer, \<^verbatim>\<open>src/server-send.go\<close>: filter list, walk and file list,
  the selector loop with its phases, the served file, statistics and goodbye. A connection
  is the bytes that come in and the bytes sent so far; both directions are the payload
  streams, whose framing \<open>Mux_Frames\<close> shows to be transparent (\<^verbatim>\<open>flush\<close> moves payload on and
  has no effect here). The module's file system is a parameter.
\<close>

section \<open>Definitions\<close>

record conn =
  cin :: src
  cout :: "byte list"

text \<open>Reading from the incoming stream, writing to the outgoing one.\<close>

definition rd :: "(src, 'a) io \<Rightarrow> ('c conn_scheme, 'a) io" where
  "rd m c = (case m (cin c) of (res, s') \<Rightarrow> (res, c\<lparr>cin := s'\<rparr>))"

definition wr :: "byte list \<Rightarrow> ('c conn_scheme, unit) io" where
  "wr bs c = (Inr (), c\<lparr>cout := cout c @ bs\<rparr>)"

subsection \<open>File modes\<close>

text \<open>\<^verbatim>\<open>fs.FileMode\<close>: the type bits of the Go standard library and nine permission bits.\<close>

definition ModeDir :: u32 where "ModeDir = 0x80000000"
definition ModeSymlink :: u32 where "ModeSymlink = 0x08000000"
definition ModeDevice :: u32 where "ModeDevice = 0x04000000"
definition ModeNamedPipe :: u32 where "ModeNamedPipe = 0x02000000"
definition ModeSocket :: u32 where "ModeSocket = 0x01000000"
definition ModeCharDevice :: u32 where "ModeCharDevice = 0x00200000"
definition ModeIrregular :: u32 where "ModeIrregular = 0x00080000"

lemmas mode_defs = ModeDir_def ModeSymlink_def ModeDevice_def ModeNamedPipe_def ModeSocket_def
  ModeCharDevice_def ModeIrregular_def

definition modeType :: "u32 \<Rightarrow> u32" where
  "modeType m = m AND (ModeDir OR ModeSymlink OR ModeNamedPipe OR ModeSocket OR ModeDevice OR ModeCharDevice OR ModeIrregular)"

definition modeIsDir :: "u32 \<Rightarrow> bool" where "modeIsDir m \<longleftrightarrow> m AND ModeDir \<noteq> 0"
definition modeIsRegular :: "u32 \<Rightarrow> bool" where "modeIsRegular m \<longleftrightarrow> modeType m = 0"
definition modePerm :: "u32 \<Rightarrow> u32" where "modePerm m = m AND 0x1FF"

definition modeToWire :: "u32 \<Rightarrow> u32" where
  "modeToWire mode =
    (modePerm mode OR
     (if modeIsDir mode then 0x4000 else if modeType mode = ModeSymlink then 0xA000 else 0x8000))"

subsection \<open>Walk and file list\<close>

text \<open>
  What \<^verbatim>\<open>fs.WalkDir\<close> hands the callback for one path: \<open>isys\<close> is the \<^verbatim>\<open>syscall.Stat_t\<close> behind
  \<^verbatim>\<open>info.Sys()\<close>, if there is one, as uid, gid, device, inode and link count.
\<close>

record walk_info =
  ipath :: gostring
  imode :: u32
  isize :: i64
  izero :: bool
  isec :: i64
  insec :: i32
  isys :: "(u32 \<times> u32 \<times> i64 \<times> i64 \<times> i64) option"

text \<open>The callback; \<open>now\<close> is \<^verbatim>\<open>time.Now()\<close>, \<open>readLink\<close> the optional interface of the file system.\<close>

definition walkEntry :: "i64 \<times> i32 \<Rightarrow> (gostring \<Rightarrow> go_error + gostring) option \<Rightarrow> walk_info \<Rightarrow> file_entry" where
  "walkEntry now readLink info =
    (let (uid, gid, dev, ino, nlink) = (case isys info of Some st \<Rightarrow> st | None \<Rightarrow> (0, 0, 0, 0, 0));
         (sec, nsec) = (if izero info then now else (isec info, insec info));
         target = (if modeType (imode info) = ModeSymlink
                   then case readLink of
                          Some rl \<Rightarrow> (case rl (ipath info) of Inr t \<Rightarrow> t | Inl _ \<Rightarrow> [])
                        | None \<Rightarrow> []
                   else [])
     in \<lparr>fname = ipath info, fmode = imode info, fsize = isize info, fmodSec = sec, fmodNsec = nsec,
         flinkTarget = target, fuid = uid, fgid = gid, fdev = dev, fino = ino, fnlink = nlink\<rparr>)"

text \<open>\<open>raw\<close> is what the walk visited, in its order, or the error it stopped with.\<close>

definition walk :: "int \<Rightarrow> i64 \<times> i32 \<Rightarrow> (gostring \<Rightarrow> go_error + gostring) option \<Rightarrow> go_error + walk_info list \<Rightarrow>
    go_error + file_entry list" where
  "walk ver now readLink visited =
    (case visited of
       Inl err \<Rightarrow> Inl (Wrap ''walk module fs'' err)
     | Inr infos \<Rightarrow>
         let raw = map (walkEntry now readLink) infos;
             sortable = map (\<lambda>e. \<lparr>sentry = e, sisDir = modeIsDir (fmode e)\<rparr>) raw
         in Inr (map sentry (sortFlist sortable ver)))"

record transfer_state =
  ver :: int
  tconf :: hash_conf
  varint :: bool
  tid0Names :: bool
  tpreserve :: "bool \<times> bool"
  tpreserveLinks :: bool
  tpreserveDevices :: bool
  tpreserveHlinks :: bool
  entries :: "file_entry list"

definition toWire :: "file_entry \<Rightarrow> flist_entry" where
  "toWire e = emptyEntry
    \<lparr>Name := fname e, Mode := modeToWire (fmode e), Size := fsize e, Mtime := fmodSec e, ModNsec := fmodNsec e,
     LinkTarget := flinkTarget e, UID := fuid e, GID := fgid e, Dev := fdev e, Ino := fino e, Nlink := fnlink e,
     TopDir := (fname e = dotName)\<rparr>"

definition flistWriterOf :: "transfer_state \<Rightarrow> flist_writer" where
  "flistWriterOf st =
    SetID0Names (tid0Names st)
     (SetPreserveHardlinks (tpreserveHlinks st)
      (SetPreserveLinks (tpreserveLinks st)
       (SetPreserveDevices (tpreserveDevices st)
        (SetPreserveGID (snd (tpreserve st))
         (SetPreserveUID (fst (tpreserve st))
          (NewFlistWriter (ver st) (varint st)))))))"

definition sendFileList :: "transfer_state \<Rightarrow> (conn, unit) io" where
  "sendFileList st =
    (let (fw, bs) = enc_all WriteEntry (flistWriterOf st) (map toWire (entries st))
     in wr (bs @ WriteEndMarker fw @ WriteIDLists fw @ WriteIOErrorTrailer fw 0))"

text \<open>\<^verbatim>\<open>io.CopyN(io.Discard, r, n)\<close>: a short source gives its own error.\<close>

fun discardN :: "nat \<Rightarrow> (src, unit) io" where
  "discardN n (Src bs e) = (if n \<le> length bs then (Inr (), Src (drop n bs) e) else (Inl e, Src [] e))"

lemma discardN_consumes: "discardN n s = (Inr x, s') \<Longrightarrow> length (avail s') \<le> length (avail s)"
  by (cases s) (auto split: if_splits)

function recvFilterList :: "(src, unit) io" where
  "recvFilterList s =
    (case ReadInt32 s of
       (Inl err, s') \<Rightarrow> (Inl (Wrap ''read filter list length'' err), s')
     | (Inr len32, s') \<Rightarrow>
         if len32 = 0 then (Inr (), s')
         else if sint len32 < 0 then (Inl (Errorf ''negative filter rule length''), s')
         else case discardN (unat len32) s' of
                (Inl err, s'') \<Rightarrow> (Inl (Wrap ''read filter rule'' err), s'')
              | (Inr _, s'') \<Rightarrow> recvFilterList s'')"
  by pat_completeness auto
termination
  by (relation "measure (\<lambda>s. length (avail s))")
     (auto dest!: consumesD [OF consumes_ints(1) sym] discardN_consumes [OF sym])

declare recvFilterList.simps [simp del]

subsection \<open>The selector loop\<close>

definition ndxDelStats :: i32 where "ndxDelStats = - 3"

definition echoNdx :: "int \<Rightarrow> ndx_state \<Rightarrow> i32 \<Rightarrow> (conn, ndx_state) io" where
  "echoNdx v outNdx ndx =
    (if 30 \<le> v then let (outNdx', bs) = WriteNdx outNdx ndx in bnd (wr bs) (\<lambda>_. ret outNdx')
     else bnd (wr (WriteInt32 ndx)) (\<lambda>_. ret outNdx))"

definition echoSelector :: "int \<Rightarrow> ndx_state \<Rightarrow> selector \<Rightarrow> (conn, ndx_state) io" where
  "echoSelector v outNdx sel =
    (let (res, outNdx', bs) = WriteSelector v outNdx sel
     in bnd (wr bs) (\<lambda>_. case res of Inl err \<Rightarrow> fail err | Inr _ \<Rightarrow> ret outNdx'))"

definition echoDelStats :: "int \<Rightarrow> ndx_state \<Rightarrow> (conn, ndx_state) io" where
  "echoDelStats v outNdx =
    bnd (rd (readN 5 (wrapping ''read del_stats varint'' ReadVarint))) (\<lambda>_.
    bnd (echoNdx v outNdx ndxDelStats) (\<lambda>outNdx'.
    bnd (wr (concat (replicate 5 (WriteVarint 0)))) (\<lambda>_. ret outNdx')))"

text \<open>\<open>fsRead\<close> is opening a file of the module and reading all of it.\<close>

definition sendFile :: "(gostring \<Rightarrow> go_error + byte list) \<Rightarrow> transfer_state \<Rightarrow> file_entry \<Rightarrow> selector \<Rightarrow> ndx_state \<Rightarrow>
    (conn, ndx_state) io" where
  "sendFile fsRead st entry sel outNdx =
    bnd (rd (receiveSums (ver st))) (\<lambda>(sh, sums).
    bnd (if modeIsRegular (fmode entry)
         then case fsRead (fname entry) of Inl err \<Rightarrow> fail (Wrap ''open or read'' err) | Inr data \<Rightarrow> ret data
         else if 30 \<le> ver st then fail (Errorf ''transfer request for non-regular file'')
         else ret []) (\<lambda>data.
    bnd (echoSelector (ver st) outNdx sel) (\<lambda>outNdx'.
    bnd (wr (WriteSumHead sh (ver st))) (\<lambda>_.
      case matchSums (tconf st) (ver st) data sh sums of
        Inl err \<Rightarrow> fail err
      | Inr bs \<Rightarrow> bnd (wr bs) (\<lambda>_. ret outNdx')))))"

definition maxPhase :: "int \<Rightarrow> nat" where
  "maxPhase v = (if 29 \<le> v then 2 else 1)"

text \<open>
  One turn of the loop: read a selector and act on it. The result is the loop's variables,
  or \<open>None\<close> when the generator is finished.
\<close>

definition sendStep :: "(gostring \<Rightarrow> go_error + byte list) \<Rightarrow> transfer_state \<Rightarrow> ndx_state \<times> ndx_state \<times> nat \<Rightarrow>
    (conn, (ndx_state \<times> ndx_state \<times> nat) option \<times> ndx_state) io" where
  "sendStep fsRead st = (\<lambda>(inNdx, outNdx, phase).
    bnd (rd (wrapping ''read selector'' (ReadSelector (ver st) inNdx))) (\<lambda>(sel, inNdx').
      if Ndx sel = NDxDone then
        if maxPhase (ver st) < phase + 1 then ret (None, outNdx)
        else bnd (echoNdx (ver st) outNdx (Ndx sel)) (\<lambda>outNdx'. ret (Some (inNdx', outNdx', phase + 1), outNdx'))
      else if Ndx sel = NDXFlistEOF then fail (Errorf ''unexpected NDX_FLIST_EOF'')
      else if Ndx sel = ndxDelStats then
        bnd (echoDelStats (ver st) outNdx) (\<lambda>outNdx'. ret (Some (inNdx', outNdx', phase), outNdx'))
      else if sint (Ndx sel) < 0 then fail (Errorf ''invalid file index'')
      else if ver st < 30 \<and> Ndx sel = word_of_nat (length (entries st)) \<and> Iflags sel = ItemIsNew then
        ret (Some (inNdx', outNdx, phase), outNdx)
      else if int (length (entries st)) \<le> sint (Ndx sel) then fail (Errorf ''file-list index out of range'')
      else let entry = entries st ! unat (Ndx sel) in
        if \<not> has (Iflags sel) ItemTransfer then
          bnd (echoSelector (ver st) outNdx sel) (\<lambda>outNdx'. ret (Some (inNdx', outNdx', phase), outNdx'))
        else if phase = 2 then fail (Errorf ''got transfer request in phase 2'')
        else bnd (sendFile fsRead st entry sel outNdx) (\<lambda>outNdx'. ret (Some (inNdx', outNdx', phase), outNdx'))))"

text \<open>
  The loop, with fuel. Every turn reads at least one byte, so one unit per available byte
  and one more is enough (\<open>sendLoop_returns\<close>); the trailing \<^verbatim>\<open>NDX_DONE\<close> follows the loop.
\<close>

fun sendLoop :: "nat \<Rightarrow> (gostring \<Rightarrow> go_error + byte list) \<Rightarrow> transfer_state \<Rightarrow> ndx_state \<times> ndx_state \<times> nat \<Rightarrow>
    conn \<Rightarrow> ((go_error + ndx_state) \<times> conn) option" where
  "sendLoop 0 fsRead st vars c = None"
| "sendLoop (Suc n) fsRead st vars c =
    (case sendStep fsRead st vars c of
       (Inl err, c') \<Rightarrow> Some (Inl err, c')
     | (Inr (None, outNdx), c') \<Rightarrow> Some (Inr outNdx, c')
     | (Inr (Some vars', _), c') \<Rightarrow> sendLoop n fsRead st vars' c')"

definition sendFiles :: "(gostring \<Rightarrow> go_error + byte list) \<Rightarrow> transfer_state \<Rightarrow> (conn, unit) io" where
  "sendFiles fsRead st c =
    (case sendLoop (Suc (length (avail (cin c)))) fsRead st (NewNdxState, NewNdxState, 0) c of
       None \<Rightarrow> (Inl (Panic ''does not return''), c)
     | Some (Inl err, c') \<Rightarrow> (Inl err, c')
     | Some (Inr outNdx, c') \<Rightarrow> bnd (echoNdx (ver st) outNdx NDxDone) (\<lambda>_. ret ()) c')"

subsection \<open>Statistics and goodbye\<close>

definition statValues :: "transfer_state \<Rightarrow> i64 list" where
  "statValues st =
    [0, 0, sum_list (map (\<lambda>e. if modeIsRegular (fmode e) \<or> modeType (fmode e) = ModeSymlink then fsize e else 0) (entries st))]
    @ (if 29 \<le> ver st then [0, 0] else [])"

definition writeStat :: "int \<Rightarrow> i64 \<Rightarrow> byte list" where
  "writeStat v x = (if 30 \<le> v then WriteVarlong x 3 else WriteLongInt x)"

definition sendStats :: "transfer_state \<Rightarrow> (conn, unit) io" where
  "sendStats st = wr (concat (map (writeStat (ver st)) (statValues st)))"

definition readNdxVer :: "int \<Rightarrow> ndx_state \<Rightarrow> (src, i32 \<times> ndx_state) io" where
  "readNdxVer v inNdx = (if 30 \<le> v then ReadNdx inNdx else bnd ReadInt32 (\<lambda>x. ret (x, inNdx)))"

text \<open>
  Below protocol 29 the error of the first read is dropped and the value is then 0; a panic
  is not.
\<close>

definition firstGoodbye :: "int \<Rightarrow> (conn, i32 \<times> ndx_state) io" where
  "firstGoodbye v =
    (if v < 29 then (\<lambda>c. case rd (readNdxVer v NewNdxState) c of
         (Inr (x, n), c') \<Rightarrow> (Inr (x, n), c')
       | (Inl err, c') \<Rightarrow> (if is_panic err then Inl err else Inr (0, NewNdxState), c'))
     else bnd (rd (wrapping ''read final goodbye'' (ReadSelector v NewNdxState))) (\<lambda>(sel, n). ret (Ndx sel, n)))"

definition readFinalGoodbye :: "int \<Rightarrow> (conn, unit) io" where
  "readFinalGoodbye v =
    bnd (firstGoodbye v) (\<lambda>(first, inNdx).
      if first \<noteq> NDxDone then fail (Errorf ''invalid packet at end of run'')
      else if 31 \<le> v then
        bnd (echoNdx v NewNdxState NDxDone) (\<lambda>_ c.
          case rd (ReadSelector v inNdx) c of
            (Inl err, c') \<Rightarrow>
              (if errors_Is err EOF then Inr () else Inl (Wrap ''read final goodbye (second)'' err), c')
          | (Inr (sel, _), c') \<Rightarrow>
              (if Ndx sel \<noteq> NDxDone then Inl (Errorf ''invalid packet at end of run'') else Inr (), c'))
      else ret ())"

text \<open>The whole transfer phase after the handshake.\<close>

definition doServerSender :: "(gostring \<Rightarrow> go_error + byte list) \<Rightarrow> go_error + file_entry list \<Rightarrow> transfer_state \<Rightarrow> (conn, unit) io" where
  "doServerSender fsRead walked st =
    bnd (rd recvFilterList) (\<lambda>_.
      case walked of
        Inl err \<Rightarrow> fail err
      | Inr es \<Rightarrow>
          let st' = st\<lparr>entries := es\<rparr>
          in if es = [] then ret ()
             else bnd (sendFileList st') (\<lambda>_. bnd (sendFiles fsRead st') (\<lambda>_.
                  bnd (sendStats st') (\<lambda>_. readFinalGoodbye (ver st')))))"

section \<open>The selector loop returns\<close>

definition shrinks :: "(conn, 'a) io \<Rightarrow> bool" where
  "shrinks m \<longleftrightarrow> (\<forall>c x c'. m c = (Inr x, c') \<longrightarrow> length (avail (cin c')) \<le> length (avail (cin c)))"

named_theorems shrinks_intros "computations on a connection that do not lengthen its input"

lemma shrinks_bnd [shrinks_intros]: "shrinks m \<Longrightarrow> (\<And>x. shrinks (f x)) \<Longrightarrow> shrinks (bnd m f)"
  by (auto simp: shrinks_def bnd_Inr_iff) (meson le_trans)

lemma shrinks_rd [shrinks_intros]: "streaming m \<Longrightarrow> shrinks (rd m)"
  by (auto simp: shrinks_def rd_def split: prod.splits dest: streaming_le)

lemma shrinks_basic [shrinks_intros]: "shrinks (wr bs)" "shrinks (ret x)" "shrinks (fail e)"
  by (auto simp: shrinks_def wr_def)

lemma shrinks_if [shrinks_intros]: "shrinks m \<Longrightarrow> shrinks m' \<Longrightarrow> shrinks (if P then m else m')"
  by simp

lemma shrinks_case_prod [shrinks_intros]: "(\<And>a b. shrinks (f a b)) \<Longrightarrow> shrinks (case p of (a, b) \<Rightarrow> f a b)"
  by (cases p) simp

lemma shrinks_case_sum [shrinks_intros]:
  "(\<And>a. shrinks (f a)) \<Longrightarrow> (\<And>b. shrinks (g b)) \<Longrightarrow> shrinks (case x of Inl a \<Rightarrow> f a | Inr b \<Rightarrow> g b)"
  by (cases x) simp_all

lemma streaming_receiveSums [streaming_intros]: "streaming (receiveSums v)"
  unfolding receiveSums_def readBlockSum_def Let_def by (intro streaming_intros)

lemma shrinks_echo [shrinks_intros]:
  "shrinks (echoNdx v n i)" "shrinks (echoSelector v n sel)" "shrinks (echoDelStats v n)"
  "shrinks (sendFile fsRead st entry sel n)"
  unfolding echoNdx_def echoSelector_def echoDelStats_def sendFile_def Let_def
  by (intro shrinks_intros streaming_intros)+

lemma consumes_ReadSelector: "consumes (ReadSelector v n)"
proof -
  have "consumes (ReadNdx n)"
    unfolding ReadNdx_def readNdxPositive_def Let_def
    by (intro consumes_bnd consumes_readByte streaming_intros)
  then show ?thesis
    unfolding ReadSelector_def
    by (intro consumes_bnd consumes_if consumes_ints streaming_intros)
qed

lemma rd_progress:
  assumes "consumes m" "\<And>x. shrinks (k x)" "bnd (rd m) k c = (Inr y, c')"
  shows "length (avail (cin c')) < length (avail (cin c))"
proof -
  obtain x d where x: "rd m c = (Inr x, d)" "k x d = (Inr y, c')" using assms(3) by (auto simp: bnd_Inr_iff)
  have "length (avail (cin d)) < length (avail (cin c))"
    using x(1) consumesD [OF assms(1)] by (auto simp: rd_def split: prod.splits)
  with x(2) assms(2) show ?thesis unfolding shrinks_def by (meson order_le_less_trans)
qed

lemma sendStep_progress:
  assumes "sendStep fsRead st vars c = (Inr x, c')"
  shows "length (avail (cin c')) < length (avail (cin c))"
  using assms unfolding sendStep_def Let_def
  by (cases vars, simp only: prod.case)
     (erule rd_progress [rotated 2], intro consumes_wrapping consumes_ReadSelector, intro shrinks_intros)

lemma sendLoop_returns: "length (avail (cin c)) < n \<Longrightarrow> \<exists>r. sendLoop n fsRead st vars c = Some r"
proof (induction n arbitrary: vars c)
  case (Suc n)
  show ?case
  proof (cases "sendStep fsRead st vars c")
    case (Pair res c')
    show ?thesis
    proof (cases res)
      case (Inr x)
      obtain nv out where x: "x = (nv, out)" by (cases x)
      have "length (avail (cin c')) < length (avail (cin c))"
        using sendStep_progress Pair Inr by blast
      with Suc.prems have "\<exists>r. sendLoop n fsRead st vars' c' = Some r" for vars' by (intro Suc.IH) simp
      with Pair Inr x show ?thesis by (cases nv) simp_all
    qed (use Pair in simp)
  qed
qed simp

end
