(* ===== verification/Handshake.thy ===== *)
theory Handshake
  imports Greeting Server_Send
begin

text \<open>
  \<^verbatim>\<open>src/protocol/handshake.go\<close>: the text lines and small messages exchanged before the
  transfer. Writers are the bytes they send, readers computations on the source; the two
  functions that do both run on a connection.
\<close>

section \<open>Definitions\<close>

subsection \<open>Lines\<close>

fun readLineLoop :: "gostring \<Rightarrow> byte list \<Rightarrow> go_error \<Rightarrow> (go_error + gostring) \<times> src" where
  "readLineLoop buf [] e = (Inl e, Src [] e)"
| "readLineLoop buf (b # bs) e = (if b = 10 then (Inr buf, Src bs e) else readLineLoop (buf @ [b]) bs e)"

definition readLine :: "(src, gostring) io" where
  "readLine s = readLineLoop [] (avail s) (fin s)"

definition writeLine :: "gostring \<Rightarrow> byte list" where
  "writeLine s = s @ [10]"

definition ReadGreeting :: "(src, greeting) io" where
  "ReadGreeting =
    bnd (wrapping ''read greeting'' readLine) (\<lambda>line. case ParseGreeting line of Inl err \<Rightarrow> fail err | Inr g \<Rightarrow> ret g)"

definition WriteGreeting :: "greeting \<Rightarrow> byte list" where
  "WriteGreeting g = greetingString g"

definition ReadModuleRequest :: "(src, gostring) io" where
  "ReadModuleRequest = readLine"

definition WriteModuleRequest :: "gostring \<Rightarrow> byte list" where
  "WriteModuleRequest moduleName = writeLine moduleName"

subsection \<open>Module list\<close>

record module_info =
  miName :: gostring
  miComment :: gostring

text \<open>
  The length of the UTF-8 character a string starts with; an invalid byte counts as one
  character of its own (\<^verbatim>\<open>unicode/utf8\<close>).
\<close>

definition contByte :: "byte \<Rightarrow> bool" where
  "contByte b \<longleftrightarrow> 0x80 \<le> b \<and> b \<le> 0xBF"

definition runeLen :: "gostring \<Rightarrow> nat" where
  "runeLen s =
    (case s of
       a # b # r \<Rightarrow>
         if 0xC2 \<le> a \<and> a \<le> 0xDF \<and> contByte b then 2
         else (case r of
           c # r' \<Rightarrow>
             if (a = 0xE0 \<and> 0xA0 \<le> b \<and> b \<le> 0xBF \<or> 0xE1 \<le> a \<and> a \<le> 0xEC \<and> contByte b \<or>
                 a = 0xED \<and> 0x80 \<le> b \<and> b \<le> 0x9F \<or> 0xEE \<le> a \<and> a \<le> 0xEF \<and> contByte b) \<and> contByte c then 3
             else (case r' of
               d # _ \<Rightarrow>
                 if (a = 0xF0 \<and> 0x90 \<le> b \<and> b \<le> 0xBF \<or> 0xF1 \<le> a \<and> a \<le> 0xF3 \<and> contByte b \<or>
                     a = 0xF4 \<and> 0x80 \<le> b \<and> b \<le> 0x8F) \<and> contByte c \<and> contByte d then 4
                 else 1
             | [] \<Rightarrow> 1)
         | [] \<Rightarrow> 1)
     | _ \<Rightarrow> 1)"

lemma runeLen_pos: "0 < runeLen s"
  by (simp add: runeLen_def split: list.split)

function runeCount :: "gostring \<Rightarrow> nat" where
  "runeCount s = (if s = [] then 0 else Suc (runeCount (drop (runeLen s) s)))"
  by pat_completeness auto
termination
  by (relation "measure length") (simp_all add: runeLen_pos)

declare runeCount.simps [simp del]

text \<open>\<^verbatim>\<open>%-15s\<close> pads on the right to fifteen characters.\<close>

definition padName :: "gostring \<Rightarrow> gostring" where
  "padName s = s @ replicate (15 - runeCount s) 32"

definition WriteModuleList :: "module_info list \<Rightarrow> int \<Rightarrow> byte list" where
  "WriteModuleList modules version =
    concat (map (\<lambda>m. padName (miName m) @ [9] @ miComment m @ [10]) modules) @
    (if 25 \<le> version then str ''@RSYNCD: EXIT'' @ [10] else [])"

subsection \<open>Authentication\<close>

definition ParseError :: "gostring \<Rightarrow> go_error option" where
  "ParseError line = map_option ErrorMsg (CutPrefix line (str ''@ERROR: ''))"

definition WriteError :: "string \<Rightarrow> byte list" where
  "WriteError msg = str ''@ERROR: '' @ str msg @ [10]"

lemma readLineLoop_consumes: "readLineLoop buf bs e = (Inr x, s') \<Longrightarrow> length (avail s') < length bs"
  by (induction buf bs e rule: readLineLoop.induct) (auto split: if_splits)

lemma readLine_consumes: "consumes readLine"
  by (auto simp: consumes_def readLine_def dest: readLineLoop_consumes)

text \<open>\<open>None\<close> is the answer \<^verbatim>\<open>OK\<close>.\<close>

function ReadAuthChallenge :: "(src, byte list option) io" where
  "ReadAuthChallenge s =
    (case readLine s of
       (Inl err, s') \<Rightarrow> (Inl err, s')
     | (Inr line, s') \<Rightarrow>
         (case ParseError line of
            Some err \<Rightarrow> (Inl err, s')
          | None \<Rightarrow>
              if HasPrefix line (str ''@RSYNCD: OK'') then (Inr None, s')
              else if HasPrefix line (str ''@RSYNCD: EXIT'') then (Inl (Errorf ''server exited the module connection''), s')
              else (case CutPrefix line (str ''@RSYNCD: AUTHREQD '') of
                  Some challenge \<Rightarrow>
                    (case DecodeString (TrimSpace challenge) of
                       Inl err \<Rightarrow> (Inl (Wrap ''decode auth challenge'' err), s')
                     | Inr data \<Rightarrow> (Inr (Some data), s'))
                | None \<Rightarrow> ReadAuthChallenge s')))"
  by pat_completeness auto
termination
  by (relation "measure (\<lambda>s. length (avail s))") (auto dest!: consumesD [OF readLine_consumes sym])

declare ReadAuthChallenge.simps [simp del]

definition WriteAuthChallenge :: "byte list \<Rightarrow> byte list" where
  "WriteAuthChallenge challenge = str ''@RSYNCD: AUTHREQD '' @ EncodeToString challenge @ [10]"

definition WriteAuthOK :: "byte list" where
  "WriteAuthOK = str ''@RSYNCD: OK'' @ [10]"

definition ReadAuthResponse :: "(src, gostring \<times> byte list) io" where
  "ReadAuthResponse =
    bnd readLine (\<lambda>line. case Cut line 32 of
        (_, None) \<Rightarrow> fail (Errorf ''invalid auth response format'')
      | (user, Some digestB64) \<Rightarrow>
          (case DecodeString digestB64 of Inl err \<Rightarrow> fail (Wrap ''decode auth digest'' err) | Inr d \<Rightarrow> ret (user, d)))"

definition WriteAuthResponse :: "gostring \<Rightarrow> byte list \<Rightarrow> byte list" where
  "WriteAuthResponse username digest = username @ [32] @ EncodeToString digest @ [10]"

subsection \<open>Compat flags, algorithms, seed\<close>

definition ReadCompatFlags :: "int \<Rightarrow> (src, flags) io" where
  "ReadCompatFlags version = (if version < 30 then ret 0 else bnd ReadVarint (\<lambda>v. ret (scast v)))"

definition WriteCompatFlags :: "flags \<Rightarrow> int \<Rightarrow> byte list" where
  "WriteCompatFlags fl version = (if version < 30 then [] else WriteVarint (ucast fl))"

record algorithms =
  algChecksum :: gostring
  algCompress :: gostring

definition DefaultAlgorithms :: "int \<Rightarrow> algorithms" where
  "DefaultAlgorithms version =
    \<lparr>algChecksum = (if 30 \<le> version then str ''md5'' else str ''md4''), algCompress = str ''zlib''\<rparr>"

definition pickOne :: "gostring list \<Rightarrow> gostring \<Rightarrow> gostring" where
  "pickOne myAlgos peerList =
    (case find (\<lambda>a. a \<in> set (Fields peerList)) myAlgos of Some a \<Rightarrow> a | None \<Rightarrow> [])"

definition sendVstring :: "string \<Rightarrow> gostring \<Rightarrow> (conn, unit) io" where
  "sendVstring msg s = (case WriteVstring s of Inl err \<Rightarrow> fail (Wrap msg err) | Inr bs \<Rightarrow> wr bs)"

definition NegotiateAlgorithms :: "gostring list \<Rightarrow> gostring list \<Rightarrow> (conn, algorithms) io" where
  "NegotiateAlgorithms myChecksums myCompressions =
    bnd (sendVstring ''send checksum list'' (Join myChecksums [32])) (\<lambda>_.
    bnd (if myCompressions \<noteq> [] then sendVstring ''send compression list'' (Join myCompressions [32]) else ret ()) (\<lambda>_.
    bnd (rd (wrapping ''read peer checksum list'' ReadVstring)) (\<lambda>peerChecksums.
    bnd (if myCompressions \<noteq> [] then rd (wrapping ''read peer compression list'' ReadVstring) else ret []) (\<lambda>peerCompressions.
      ret \<lparr>algChecksum = pickOne myChecksums peerChecksums,
           algCompress = (if myCompressions \<noteq> [] then pickOne myCompressions peerCompressions else [])\<rparr>))))"

definition ReadChecksumSeed :: "(src, i32) io" where "ReadChecksumSeed = ReadInt32"
definition WriteChecksumSeed :: "i32 \<Rightarrow> byte list" where "WriteChecksumSeed seed = WriteInt32 seed"

text \<open>The binary version exchange; \<^verbatim>\<open>int32(ourVersion)\<close> truncates.\<close>

definition ExchangeVersion :: "int \<Rightarrow> (conn, int) io" where
  "ExchangeVersion ourVersion =
    bnd (wr (WriteInt32 (word_of_int ourVersion))) (\<lambda>_.
    bnd (rd (wrapping ''read version'' ReadInt32)) (\<lambda>theirVersion.
      ret (if ourVersion < sint theirVersion then ourVersion else sint theirVersion)))"

section \<open>Round trips\<close>

lemma readLineLoop_line: "10 \<notin> set l \<Longrightarrow> readLineLoop buf (l @ 10 # r) e = (Inr (buf @ l), Src r e)"
  by (induction l arbitrary: buf) auto

lemma readLineLoop_split:
  "readLineLoop buf bs e = (Inr x, s') \<Longrightarrow> \<exists>l r. bs = l @ 10 # r \<and> 10 \<notin> set l \<and> s' = Src r e \<and> x = buf @ l"
proof (induction buf bs e rule: readLineLoop.induct)
  case (2 buf b bs e)
  show ?case
  proof (cases "b = 10")
    case False
    with 2 obtain l r where "bs = l @ 10 # r \<and> 10 \<notin> set l \<and> s' = Src r e \<and> x = buf @ [b] @ l" by auto
    with False show ?thesis by (intro exI [of _ "b # l"] exI [of _ r]) simp
  qed (use 2 in \<open>auto intro!: exI [of _ "[]"]\<close>)
qed simp

lemma streaming_readLine [streaming_intros]: "streaming readLine"
proof (unfold streaming_def, intro allI impI)
  fix bs e y s' assume "readLine (Src bs e) = (Inr y, s')"
  then obtain l r where l: "bs = l @ 10 # r" "10 \<notin> set l" "s' = Src r e" "y = l"
    using readLineLoop_split [of "[]" bs e y s'] by (auto simp: readLine_def)
  then have "bs = (l @ [10]) @ r \<and> s' = Src r e \<and> (\<forall>q e'. readLine (Src ((l @ [10]) @ q) e') = (Inr y, Src q e'))"
    by (simp add: readLine_def readLineLoop_line)
  then show "\<exists>c r. bs = c @ r \<and> s' = Src r e \<and> (\<forall>q e'. readLine (Src (c @ q) e') = (Inr y, Src q e'))"
    by blast
qed

interpretation line: strict_codec writeLine readLine "\<lambda>s. 10 \<notin> set s"
  by unfold_locales (simp_all add: writeLine_def readLine_def readLineLoop_line streaming_readLine)

lemma streaming_case_result [streaming_intros]:
  "(\<And>a. streaming (f a)) \<Longrightarrow> (\<And>b. streaming (g b)) \<Longrightarrow> streaming (case x of Inl a \<Rightarrow> f a | Inr b \<Rightarrow> g b)"
  by (cases x) simp_all

lemma streaming_case_option [streaming_intros]:
  "streaming m \<Longrightarrow> (\<And>a. streaming (f a)) \<Longrightarrow> streaming (case x of None \<Rightarrow> m | Some a \<Rightarrow> f a)"
  by (cases x) simp_all

lemma greeting_line:
  obtains l where "greetingString g = writeLine l"
  by (simp add: greetingString_words writeLine_def)

interpretation greet: strict_codec WriteGreeting ReadGreeting greeting_ok
proof
  fix g rest e assume g: "greeting_ok g"
  obtain l where l: "greetingString g = writeLine l" by (rule greeting_line)
  then have p: "ParseGreeting l = Inr g" "10 \<notin> set l"
    using ParseGreeting_String [OF g, of l] by (simp_all add: writeLine_def)
  show "ReadGreeting (Src (WriteGreeting g @ rest) e) = (Inr g, Src rest e)"
    using line.dec_enc [OF p(2), of rest e]
    by (simp add: ReadGreeting_def WriteGreeting_def l bnd_def wrapping_def p(1))
next
  show "streaming ReadGreeting" unfolding ReadGreeting_def by (intro streaming_intros)
qed

text \<open>A user name has no blank and no line break.\<close>

definition user_ok :: "gostring \<Rightarrow> bool" where
  "user_ok u \<longleftrightarrow> 32 \<notin> set u \<and> 10 \<notin> set u"

lemma EncodeToString_no_newline: "10 \<notin> set (EncodeToString bs)"
  using EncodeToString_graphic [of bs] not_ascii(2) by (auto simp: list_all_iff)

interpretation authresp: strict_codec "\<lambda>(u, d). WriteAuthResponse u d" ReadAuthResponse "\<lambda>(u, d). user_ok u"
proof
  fix x :: "gostring \<times> byte list" and rest e assume ok: "case x of (u, d) \<Rightarrow> user_ok u"
  obtain u d where x: "x = (u, d)" by (cases x)
  let ?l = "u @ 32 # EncodeToString d"
  have u: "32 \<notin> set u" "10 \<notin> set ?l" using ok EncodeToString_no_newline by (auto simp: x user_ok_def)
  show "ReadAuthResponse (Src ((case x of (u, d) \<Rightarrow> WriteAuthResponse u d) @ rest) e) = (Inr x, Src rest e)"
    using line.dec_enc [OF u(2), of rest e]
    by (simp add: x ReadAuthResponse_def WriteAuthResponse_def writeLine_def bnd_def Cut_append [OF u(1)] DecodeString_EncodeToString)
next
  show "streaming ReadAuthResponse" unfolding ReadAuthResponse_def by (intro streaming_intros)
qed

end
