(* ===== verification/Mux_Frames.thy ===== *)
theory Mux_Frames
  imports Wire_Ints
begin

text \<open>
  \<^verbatim>\<open>src/protocol/mux/mux.go\<close>: the framing layer. The writer batches data into
  \<^verbatim>\<open>MSG_DATA\<close> frames and puts control frames between them; the reader hands the data on
  and drops logging frames. The abstract view of a reader is the plain byte source its
  clients see (\<open>demux\<close>); the main results are that \<^verbatim>\<open>io.ReadFull\<close> on the reader is
  \<open>readFull\<close> on that source, and that what was written comes out of it unchanged.
\<close>

section \<open>Definitions\<close>

definition mplexBase :: byte where "mplexBase = 7"
definition defaultBufSize :: int where "defaultBufSize = 32 * 1024"
definition maxPayload :: nat where "maxPayload = 0xFFFFFF"

definition MsgData :: byte where "MsgData = 0"
definition MsgErrorXfer :: byte where "MsgErrorXfer = 1"
definition MsgInfo :: byte where "MsgInfo = 2"
definition MsgError :: byte where "MsgError = 3"
definition MsgWarning :: byte where "MsgWarning = 4"
definition MsgErrorSocket :: byte where "MsgErrorSocket = 5"
definition MsgLog :: byte where "MsgLog = 6"
definition MsgClient :: byte where "MsgClient = 7"
definition MsgErrorUTF8 :: byte where "MsgErrorUTF8 = 8"
definition MsgRedo :: byte where "MsgRedo = 9"
definition MsgStats :: byte where "MsgStats = 10"
definition MsgIOError :: byte where "MsgIOError = 22"
definition MsgIOTimeout :: byte where "MsgIOTimeout = 33"
definition MsgNoop :: byte where "MsgNoop = 42"
definition MsgErrorExit :: byte where "MsgErrorExit = 86"
definition MsgSuccess :: byte where "MsgSuccess = 100"
definition MsgDeleted :: byte where "MsgDeleted = 101"
definition MsgNoSend :: byte where "MsgNoSend = 102"

lemmas msg_defs = MsgData_def MsgErrorXfer_def MsgInfo_def MsgError_def MsgWarning_def
  MsgErrorSocket_def MsgLog_def MsgClient_def MsgErrorUTF8_def MsgNoop_def

definition isInfoMessage :: "byte \<Rightarrow> bool" where
  "isInfoMessage code \<longleftrightarrow>
     code \<in> {MsgErrorXfer, MsgInfo, MsgError, MsgWarning, MsgErrorSocket, MsgLog, MsgClient,
             MsgErrorUTF8, MsgNoop}"

subsection \<open>The writer\<close>

text \<open>\<open>sink\<close> collects what the underlying writer has been given.\<close>

record mux_writer =
  sink :: "byte list"
  wbuf :: "byte list"
  bufSize :: int

definition NewWriter :: "byte list \<Rightarrow> mux_writer" where
  "NewWriter w = \<lparr>sink = w, wbuf = [], bufSize = defaultBufSize\<rparr>"

definition SetBufferSize :: "mux_writer \<Rightarrow> int \<Rightarrow> mux_writer" where
  "SetBufferSize w n = w\<lparr>bufSize := n\<rparr>"

text \<open>One frame: \<^verbatim>\<open>mplexBase+code\<close> is a \<^verbatim>\<open>uint8\<close> sum.\<close>

definition frame :: "byte \<Rightarrow> byte list \<Rightarrow> byte list" where
  "frame code payload =
    le_bytes 4 (push_bit 24 (ucast (mplexBase + code)) OR word_of_nat (length payload) :: u32) @ payload"

definition writeFrame :: "mux_writer \<Rightarrow> byte \<Rightarrow> byte list \<Rightarrow> (go_error + unit) \<times> mux_writer" where
  "writeFrame w code payload =
    (if maxPayload < length payload then (Inl ErrPayloadTooLarge, w)
     else (Inr (), w\<lparr>sink := sink w @ frame code payload\<rparr>))"

text \<open>The loop of \<^verbatim>\<open>Flush\<close> over the drained buffer.\<close>

function flushLoop :: "mux_writer \<Rightarrow> byte list \<Rightarrow> (go_error + unit) \<times> mux_writer" where
  "flushLoop w data =
    (if data = [] then (Inr (), w)
     else let chunk = take maxPayload data
          in case writeFrame w MsgData chunk of
               (Inl err, w') \<Rightarrow> (Inl err, w')
             | (Inr _, w') \<Rightarrow> flushLoop w' (drop (length chunk) data))"
  by pat_completeness auto
termination
  by (relation "measure (\<lambda>(w, data). length data)") (auto simp: maxPayload_def)

declare flushLoop.simps [simp del]

definition Flush :: "mux_writer \<Rightarrow> (go_error + unit) \<times> mux_writer" where
  "Flush w = (if wbuf w = [] then (Inr (), w) else flushLoop (w\<lparr>wbuf := []\<rparr>) (wbuf w))"

text \<open>
  The loop of \<^verbatim>\<open>Write\<close>: flush when full, then take as much as fits. The count \<^verbatim>\<open>n\<close> is
  carried along. A negative size makes the slice expression panic; \<^verbatim>\<open>remaining\<close> is never
  zero there (\<open>Flush\<close> leaves an empty buffer and the size is not zero), and the branch for
  it only says so.
\<close>

function writeLoop :: "mux_writer \<Rightarrow> nat \<Rightarrow> byte list \<Rightarrow> (go_error + nat) \<times> mux_writer" where
  "writeLoop w n p =
    (if p = [] then (Inr n, w)
     else case (if bufSize w \<le> int (length (wbuf w)) then Flush w else (Inr (), w)) of
            (Inl err, w') \<Rightarrow> (Inl err, w')
          | (Inr _, w') \<Rightarrow>
              let remaining = bufSize w' - int (length (wbuf w'))
              in if remaining < 0 then (Inl (Panic ''slice bounds out of range''), w')
                 else if remaining = 0 then (Inl (Panic ''does not return''), w')
                 else let chunk = take (nat remaining) p
                      in writeLoop (w'\<lparr>wbuf := wbuf w' @ chunk\<rparr>) (n + length chunk) (drop (length chunk) p))"
  by pat_completeness auto
termination
  by (relation "measure (\<lambda>(w, n, p). length p)") auto

declare writeLoop.simps [simp del]

text \<open>\<^verbatim>\<open>Write\<close>: a zero size disables auto-flush.\<close>

definition Write :: "mux_writer \<Rightarrow> byte list \<Rightarrow> (go_error + nat) \<times> mux_writer" where
  "Write w p =
    (if bufSize w = 0 then (Inr (length p), w\<lparr>wbuf := wbuf w @ p\<rparr>) else writeLoop w 0 p)"

definition SendMsg :: "mux_writer \<Rightarrow> byte \<Rightarrow> byte list \<Rightarrow> (go_error + unit) \<times> mux_writer" where
  "SendMsg w code payload =
    (case Flush w of
       (Inl err, w') \<Rightarrow> (Inl err, w')
     | (Inr _, w') \<Rightarrow> writeFrame w' code payload)"

text \<open>What a client may do with a writer, and a run of such calls up to the first error.\<close>

datatype writer_op = OpWrite "byte list" | OpFlush | OpSendMsg byte "byte list" | OpSetBufferSize int

fun writerStep :: "mux_writer \<Rightarrow> writer_op \<Rightarrow> (go_error + unit) \<times> mux_writer" where
  "writerStep w (OpWrite p) = (case Write w p of (Inl e, w') \<Rightarrow> (Inl e, w') | (Inr _, w') \<Rightarrow> (Inr (), w'))"
| "writerStep w OpFlush = Flush w"
| "writerStep w (OpSendMsg code payload) = SendMsg w code payload"
| "writerStep w (OpSetBufferSize n) = (Inr (), SetBufferSize w n)"

fun writerRun :: "mux_writer \<Rightarrow> writer_op list \<Rightarrow> (go_error + unit) \<times> mux_writer" where
  "writerRun w [] = (Inr (), w)"
| "writerRun w (x # xs) =
    (case writerStep w x of (Inl e, w') \<Rightarrow> (Inl e, w') | (Inr _, w') \<Rightarrow> writerRun w' xs)"

subsection \<open>The reader\<close>

definition readFrame :: "(src, byte \<times> byte list) io" where
  "readFrame =
    bnd (readFull 4) (\<lambda>hdr.
      let tag = le_word hdr :: u32;
          code = ucast (drop_bit 24 tag - ucast mplexBase) :: byte;
          payloadLen = tag AND 0xFFFFFF
      in if 0 < payloadLen
         then bnd (readFull (unat payloadLen)) (\<lambda>payload. ret (code, payload))
         else ret (code, []))"

record mux_reader =
  rsrc :: src
  rbuf :: "byte list"

definition NewReader :: "src \<Rightarrow> mux_reader" where
  "NewReader r = \<lparr>rsrc = r, rbuf = []\<rparr>"

lemma readFrame_consumes: "readFrame s = (Inr x, s') \<Longrightarrow> length (avail s') < length (avail s)"
  unfolding readFrame_def
  by (auto simp: bnd_Inr_iff Let_def split: if_splits dest!: readFull_InrD)

text \<open>The frame loop of \<^verbatim>\<open>Read\<close>: the next non-empty data payload.\<close>

function readLoop :: "(src, byte list) io" where
  "readLoop s =
    (case readFrame s of
       (Inl err, s') \<Rightarrow> (Inl err, s')
     | (Inr (code, payload), s') \<Rightarrow>
         if code \<noteq> MsgData then
           if isInfoMessage code then readLoop s' else (Inl (UnexpectedMsg code), s')
         else if payload \<noteq> [] then (Inr payload, s')
         else readLoop s')"
  by pat_completeness auto
termination
  by (relation "measure (\<lambda>s. length (avail s))") (auto dest: readFrame_consumes [OF sym])

declare readLoop.simps [simp del]

text \<open>\<^verbatim>\<open>bytes.Buffer.Read\<close> into a slice of length \<open>n\<close>, on a non-empty buffer.\<close>

definition bufRead :: "nat \<Rightarrow> (mux_reader, byte list) io" where
  "bufRead n r = (Inr (take n (rbuf r)), r\<lparr>rbuf := drop n (rbuf r)\<rparr>)"

definition Read :: "nat \<Rightarrow> (mux_reader, byte list) io" where
  "Read n r =
    (if rbuf r \<noteq> [] then bufRead n r
     else case readLoop (rsrc r) of
            (Inl err, s') \<Rightarrow> (Inl err, r\<lparr>rsrc := s'\<rparr>)
          | (Inr payload, s') \<Rightarrow> bufRead n (r\<lparr>rsrc := s', rbuf := payload\<rparr>))"

text \<open>The loop of \<^verbatim>\<open>ReadDataChunk\<close>: the next data frame, empty or not.\<close>

function chunkLoop :: "(src, byte list) io" where
  "chunkLoop s =
    (case readFrame s of
       (Inl err, s') \<Rightarrow> (Inl err, s')
     | (Inr (code, payload), s') \<Rightarrow>
         if code = MsgData then (Inr payload, s')
         else if \<not> isInfoMessage code then (Inl (Errorf ''expected MSG_DATA, got code''), s')
         else chunkLoop s')"
  by pat_completeness auto
termination
  by (relation "measure (\<lambda>s. length (avail s))") (auto dest: readFrame_consumes [OF sym])

declare chunkLoop.simps [simp del]

definition ReadDataChunk :: "(mux_reader, byte list) io" where
  "ReadDataChunk r =
    (case chunkLoop (rsrc r) of
       (Inl err, s') \<Rightarrow> (Inl err, r\<lparr>rsrc := s', rbuf := []\<rparr>)
     | (Inr payload, s') \<Rightarrow> (Inr (rbuf r @ payload), r\<lparr>rsrc := s', rbuf := []\<rparr>))"

function recvLoop :: "(src, byte \<times> byte list) io" where
  "recvLoop s =
    (case readFrame s of
       (Inl err, s') \<Rightarrow> (Inl err, s')
     | (Inr (code, payload), s') \<Rightarrow>
         if code \<noteq> MsgData then (Inr (code, payload), s') else recvLoop s')"
  by pat_completeness auto
termination
  by (relation "measure (\<lambda>s. length (avail s))") (auto dest: readFrame_consumes [OF sym])

declare recvLoop.simps [simp del]

definition RecvMsg :: "(mux_reader, byte \<times> byte list) io" where
  "RecvMsg r = (case recvLoop (rsrc r) of (res, s') \<Rightarrow> (res, r\<lparr>rsrc := s', rbuf := []\<rparr>))"

lemma readLoop_unfold:
  "readFrame s = (Inl e, s') \<Longrightarrow> readLoop s = (Inl e, s')"
  "readFrame s = (Inr (code, p), s') \<Longrightarrow> code = MsgData \<Longrightarrow> p \<noteq> [] \<Longrightarrow> readLoop s = (Inr p, s')"
  "readFrame s = (Inr (code, p), s') \<Longrightarrow> code = MsgData \<Longrightarrow> p = [] \<Longrightarrow> readLoop s = readLoop s'"
  "readFrame s = (Inr (code, p), s') \<Longrightarrow> code \<noteq> MsgData \<Longrightarrow> isInfoMessage code \<Longrightarrow> readLoop s = readLoop s'"
  "readFrame s = (Inr (code, p), s') \<Longrightarrow> code \<noteq> MsgData \<Longrightarrow> \<not> isInfoMessage code \<Longrightarrow>
     readLoop s = (Inl (UnexpectedMsg code), s')"
  by (simp_all add: readLoop.simps [of s])

text \<open>The five ways one frame can turn out, with the frames behind it as the induction.\<close>

lemma frame_induct [case_names error data empty info other]:
  assumes "\<And>s e s'. readFrame s = (Inl e, s') \<Longrightarrow> P s"
    and "\<And>s p s'. readFrame s = (Inr (MsgData, p), s') \<Longrightarrow> p \<noteq> [] \<Longrightarrow> P s' \<Longrightarrow> P s"
    and "\<And>s s'. readFrame s = (Inr (MsgData, []), s') \<Longrightarrow> P s' \<Longrightarrow> P s"
    and "\<And>s code p s'. readFrame s = (Inr (code, p), s') \<Longrightarrow> code \<noteq> MsgData \<Longrightarrow> isInfoMessage code \<Longrightarrow>
           P s' \<Longrightarrow> P s"
    and "\<And>s code p s'. readFrame s = (Inr (code, p), s') \<Longrightarrow> code \<noteq> MsgData \<Longrightarrow>
           \<not> isInfoMessage code \<Longrightarrow> P s' \<Longrightarrow> P s"
  shows "P s"
proof (induction "length (avail s)" arbitrary: s rule: less_induct)
  case less
  obtain res s' where f: "readFrame s = (res, s')" by (cases "readFrame s")
  show ?case
  proof (cases res)
    case (Inl e)
    with f show ?thesis by (intro assms(1)) simp
  next
    case (Inr cp)
    obtain code p where cp: "cp = (code, p)" by (cases cp)
    have "P s'" by (rule less) (use f Inr readFrame_consumes in blast)
    with f [unfolded Inr cp] show ?thesis
      using assms(2-5) by (cases "code = MsgData"; cases "p = []"; cases "isInfoMessage code") blast+
  qed
qed

lemma readLoop_nonempty: "readLoop s = (Inr d, s') \<Longrightarrow> d \<noteq> []"
  by (induction s rule: frame_induct) (auto simp: readLoop_unfold)

lemma Read_progress: "Read n r = (Inr d, r') \<Longrightarrow> 0 < n \<Longrightarrow> 0 < length d \<and> length d \<le> n"
  by (auto simp: Read_def bufRead_def split: if_splits prod.splits sum.splits dest: readLoop_nonempty)

text \<open>\<^verbatim>\<open>io.ReadFull\<close> on the reader: \<^verbatim>\<open>Read\<close> until the buffer is full.\<close>

function muxReadFull :: "byte list \<Rightarrow> nat \<Rightarrow> (mux_reader, byte list) io" where
  "muxReadFull acc n r =
    (if n = 0 then (Inr acc, r)
     else case Read n r of
            (Inl err, r') \<Rightarrow> (Inl (if acc \<noteq> [] \<and> err = EOF then ErrUnexpectedEOF else err), r')
          | (Inr d, r') \<Rightarrow> muxReadFull (acc @ d) (n - length d) r')"
  by pat_completeness auto
termination
  by (relation "measure (\<lambda>(acc, n, r). n)") (auto dest: Read_progress [OF sym])

declare muxReadFull.simps [simp del]

section \<open>Facts about the writer's buffer\<close>

lemma flushLoop_empties: "wbuf (snd (flushLoop w data)) = wbuf w"
proof (induction w data rule: flushLoop.induct)
  case (1 w data)
  then show ?case
    by (subst flushLoop.simps) (auto simp: Let_def writeFrame_def split: prod.splits sum.splits if_splits)
qed

lemma Flush_empties: "wbuf (snd (Flush w)) = []"
  by (simp add: Flush_def flushLoop_empties)

lemma flushLoop_bufSize: "bufSize (snd (flushLoop w data)) = bufSize w"
proof (induction w data rule: flushLoop.induct)
  case (1 w data)
  then show ?case
    by (subst flushLoop.simps) (auto simp: Let_def writeFrame_def split: prod.splits sum.splits if_splits)
qed

lemma Flush_bufSize [simp]: "bufSize (snd (Flush w)) = bufSize w"
  by (simp add: Flush_def flushLoop_bufSize)

section \<open>The reader refines a plain byte source\<close>

text \<open>
  \<open>demux s\<close> is what a client of the reader sees of the framed source \<open>s\<close>: the data
  payloads in a row, ended by the first error or by the first frame that is neither data
  nor logging.
\<close>

definition srcCons :: "byte list \<Rightarrow> src \<Rightarrow> src" where
  "srcCons d t = Src (d @ avail t) (fin t)"

lemma srcCons_simps [simp]:
  "srcCons [] t = t"
  "srcCons d (srcCons d' t) = srcCons (d @ d') t"
  "srcCons d (Src bs e) = Src (d @ bs) e"
  by (simp_all add: srcCons_def)

function demux :: "src \<Rightarrow> src" where
  "demux s =
    (case readFrame s of
       (Inl err, s') \<Rightarrow> Src [] err
     | (Inr (code, payload), s') \<Rightarrow>
         if code = MsgData then srcCons payload (demux s')
         else if isInfoMessage code then demux s'
         else Src [] (UnexpectedMsg code))"
  by pat_completeness auto
termination
  by (relation "measure (\<lambda>s. length (avail s))") (auto dest: readFrame_consumes [OF sym])

declare demux.simps [simp del]

lemma demux_unfold:
  "readFrame s = (Inl e, s') \<Longrightarrow> demux s = Src [] e"
  "readFrame s = (Inr (MsgData, p), s') \<Longrightarrow> demux s = srcCons p (demux s')"
  "readFrame s = (Inr (code, p), s') \<Longrightarrow> code \<noteq> MsgData \<Longrightarrow> isInfoMessage code \<Longrightarrow> demux s = demux s'"
  "readFrame s = (Inr (code, p), s') \<Longrightarrow> code \<noteq> MsgData \<Longrightarrow> \<not> isInfoMessage code \<Longrightarrow>
     demux s = Src [] (UnexpectedMsg code)"
  by (simp_all add: demux.simps [of s])

definition readerView :: "mux_reader \<Rightarrow> src" where
  "readerView r = srcCons (rbuf r) (demux (rsrc r))"

lemma readLoop_demux:
  "case readLoop s of (Inl e, s') \<Rightarrow> demux s = Src [] e
   | (Inr d, s') \<Rightarrow> demux s = srcCons d (demux s')"
  by (induction s rule: frame_induct) (auto simp: readLoop_unfold demux_unfold split: prod.splits sum.splits)

lemma Read_view:
  assumes "0 < n"
  shows "case Read n r of
      (Inl e, r') \<Rightarrow> readerView r = Src [] e
    | (Inr d, r') \<Rightarrow> d \<noteq> [] \<and> length d \<le> n \<and> readerView r = srcCons d (readerView r')"
proof (cases "rbuf r = []")
  case False
  with assms show ?thesis by (simp add: Read_def bufRead_def readerView_def)
next
  case True
  obtain res s' where l: "readLoop (rsrc r) = (res, s')" by (cases "readLoop (rsrc r)")
  then show ?thesis
    using True assms readLoop_demux [of "rsrc r"] readLoop_nonempty [of "rsrc r"]
    by (cases res) (auto simp: Read_def bufRead_def readerView_def)
qed

lemma muxReadFull_acc:
  "case muxReadFull acc n r of
     (Inl e, r') \<Rightarrow> length (avail (readerView r)) < n \<and>
        e = (if acc @ avail (readerView r) \<noteq> [] \<and> fin (readerView r) = EOF then ErrUnexpectedEOF
             else fin (readerView r))
   | (Inr d, r') \<Rightarrow> \<exists>c. d = acc @ c \<and> length c = n \<and> readerView r = srcCons c (readerView r')"
proof (induction acc n r rule: muxReadFull.induct)
  case (1 acc n r)
  show ?case
  proof (cases "n = 0")
    case True
    show ?thesis unfolding True by (subst muxReadFull.simps) simp
  next
    case False
    obtain res r1 where R: "Read n r = (res, r1)" by (cases "Read n r")
    show ?thesis
    proof (cases res)
      case (Inl e)
      then show ?thesis
        using False R Read_view [of n r] by (simp add: muxReadFull.simps [of acc n r])
    next
      case (Inr d)
      have d: "d \<noteq> []" "length d \<le> n" "readerView r = srcCons d (readerView r1)"
        using False R Inr Read_view [of n r] by simp_all
      have step: "muxReadFull acc n r = muxReadFull (acc @ d) (n - length d) r1"
        using False R Inr by (simp add: muxReadFull.simps [of acc n r])
      obtain res2 r2 where M: "muxReadFull (acc @ d) (n - length d) r1 = (res2, r2)"
        by (cases "muxReadFull (acc @ d) (n - length d) r1")
      have IH: "case (res2, r2) of
          (Inl e, r') \<Rightarrow> length (avail (readerView r1)) < n - length d \<and>
             e = (if (acc @ d) @ avail (readerView r1) \<noteq> [] \<and> fin (readerView r1) = EOF then ErrUnexpectedEOF
                  else fin (readerView r1))
        | (Inr d', r') \<Rightarrow> \<exists>c. d' = (acc @ d) @ c \<and> length c = n - length d \<and> readerView r1 = srcCons c (readerView r')"
        using "1.IH" [OF False R [symmetric] Inr] M by simp
      show ?thesis
      proof (cases res2)
        case (Inl e)
        with IH d show ?thesis unfolding step M by (auto simp: srcCons_def)
      next
        case (Inr d')
        with IH obtain c where "d' = (acc @ d) @ c" "length c = n - length d" "readerView r1 = srcCons c (readerView r2)"
          by auto
        with d Inr show ?thesis unfolding step M by (auto intro!: exI [of _ "d @ c"])
      qed
    qed
  qed
qed

lemma muxReadFull_refines:
  "case muxReadFull [] n r of
     (Inl e, r') \<Rightarrow> fst (readFull n (readerView r)) = Inl e
   | (Inr d, r') \<Rightarrow> readFull n (readerView r) = (Inr d, readerView r')"
proof -
  obtain bs e where v: "readerView r = Src bs e" by (cases "readerView r")
  obtain res r' where M: "muxReadFull [] n r = (res, r')" by (cases "muxReadFull [] n r")
  show ?thesis
  proof (cases res)
    case (Inl x)
    then show ?thesis using muxReadFull_acc [where acc = "[]" and n = n and r = r] M v by simp
  next
    case (Inr d)
    then show ?thesis using muxReadFull_acc [where acc = "[]" and n = n and r = r] M v by (auto simp: srcCons_def)
  qed
qed

section \<open>What was written comes out of the reader\<close>

lemma frame_tag:
  fixes code :: byte
  assumes "n \<le> maxPayload"
  defines "tag \<equiv> push_bit 24 (ucast (mplexBase + code)) OR word_of_nat n :: u32"
  shows "ucast (drop_bit 24 tag - ucast mplexBase) = code"
    and "tag AND 0xFFFFFF = word_of_nat n"
proof -
  have n: "n < 2 ^ 24" using assms(1) by (simp add: maxPayload_def)
  have small: "bit n i \<Longrightarrow> i < 24" for i
    using n by (metis bit_take_bit_iff take_bit_nat_eq_self)
  have mask: "(0xFFFFFF :: u32) = mask 24" by (simp add: mask_eq_exp_minus_1)
  show "tag AND 0xFFFFFF = word_of_nat n"
    unfolding tag_def mask by (rule bit_word_eqI) (auto simp: bit_simps dest: small)
  have "drop_bit 24 tag = ucast (mplexBase + code)"
    unfolding tag_def by (rule bit_word_eqI) (auto simp: bit_simps dest: small bit_imp_le_length)
  moreover have "ucast (ucast (mplexBase + code) - ucast mplexBase :: u32) = code"
    using unsigned_less [of code, where 'a = int]
    by (simp add: mplexBase_def word_uint_eq_iff unsigned_ucast_eq uint_word_ariths
        take_bit_eq_mod mod_mod_cancel mod_simps)
  ultimately show "ucast (drop_bit 24 tag - ucast mplexBase) = code" by simp
qed

lemma reads_readFrame [reads_intros]:
  assumes "length payload \<le> maxPayload"
  shows "reads readFrame (frame code payload) (code, payload)"
proof -
  let ?n = "length payload"
  let ?tag = "push_bit 24 (ucast (mplexBase + code)) OR word_of_nat ?n :: u32"
  have u: "unat (word_of_nat ?n :: u32) = ?n"
    using assms by (simp add: maxPayload_def unat_of_nat take_bit_nat_eq_self)
  have pos: "0 < (word_of_nat ?n :: u32) \<longleftrightarrow> payload \<noteq> []"
    using u by (simp add: word_less_nat_alt)
  show ?thesis
    using frame_tag [OF assms, of code]
    unfolding readFrame_def frame_def
    by (intro reads_bnd [OF reads_readFull])
       (auto simp: Let_def u pos simp del: drop_bit_or intro: reads_readFull reads_ret reads_bnd_last)
qed

text \<open>
  \<open>carries bs d\<close>: framed bytes that deliver the data \<open>d\<close> and leave the reader at a frame
  boundary, whatever follows.
\<close>

definition carries :: "byte list \<Rightarrow> byte list \<Rightarrow> bool" where
  "carries bs d \<longleftrightarrow> (\<forall>rest e. demux (Src (bs @ rest) e) = srcCons d (demux (Src rest e)))"

lemma carries_Nil: "carries [] []"
  by (simp add: carries_def)

lemma carries_append: "carries a d \<Longrightarrow> carries b d' \<Longrightarrow> carries (a @ b) (d @ d')"
  by (simp add: carries_def)

lemma carries_data: "length p \<le> maxPayload \<Longrightarrow> carries (frame MsgData p) p"
  by (simp add: carries_def demux_unfold(2) [OF readsD [OF reads_readFrame]])

lemma info_not_data: "isInfoMessage code \<Longrightarrow> code \<noteq> MsgData"
  by (auto simp: isInfoMessage_def msg_defs)

lemma carries_info: "length p \<le> maxPayload \<Longrightarrow> isInfoMessage code \<Longrightarrow> carries (frame code p) []"
  by (simp add: carries_def demux_unfold(3) [OF readsD [OF reads_readFrame] info_not_data])

lemma demux_end: "demux (Src [] e) = Src [] e"
  by (simp add: demux.simps [of "Src [] e"] readFrame_def bnd_def)

lemma carries_end: "carries bs d \<Longrightarrow> demux (Src bs e) = Src d e"
  using carries_def [of bs d] by (metis append_Nil2 demux_end srcCons_simps(3))

lemma flushLoop_ok:
  "\<exists>bs. flushLoop w data = (Inr (), w\<lparr>sink := sink w @ bs\<rparr>) \<and> carries bs data"
proof (induction w data rule: flushLoop.induct)
  case (1 w data)
  show ?case
  proof (cases "data = []")
    case True
    then show ?thesis
      by (intro exI [of _ "[]"]) (subst flushLoop.simps, simp add: carries_Nil)
  next
    case False
    let ?c = "take maxPayload data"
    let ?w = "w\<lparr>sink := sink w @ frame MsgData ?c\<rparr>"
    have wf: "writeFrame w MsgData ?c = (Inr (), ?w)"
      by (simp add: writeFrame_def)
    from "1.IH" [OF False refl wf [symmetric]] obtain bs where
      bs: "flushLoop ?w (drop (length ?c) data) = (Inr (), ?w\<lparr>sink := sink ?w @ bs\<rparr>)"
        "carries bs (drop (length ?c) data)"
      by auto
    have "flushLoop w data = (Inr (), w\<lparr>sink := sink w @ frame MsgData ?c @ bs\<rparr>)"
      using bs(1) by (subst flushLoop.simps) (simp add: False Let_def wf)
    moreover have "carries (frame MsgData ?c @ bs) (?c @ drop (length ?c) data)"
      by (intro carries_append carries_data bs(2)) simp
    ultimately show ?thesis
      by (metis append_take_drop_id drop_take length_take min.absorb2 min_def take_all nat_le_linear drop_all append_Nil2)
  qed
qed

lemma Flush_ok:
  "\<exists>bs. Flush w = (Inr (), w\<lparr>wbuf := [], sink := sink w @ bs\<rparr>) \<and> carries bs (wbuf w)"
proof (cases "wbuf w = []")
  case True
  then show ?thesis by (intro exI [of _ "[]"]) (simp add: Flush_def carries_Nil)
next
  case False
  from flushLoop_ok [of "w\<lparr>wbuf := []\<rparr>" "wbuf w"] False show ?thesis
    by (simp add: Flush_def)
qed

text \<open>
  \<open>delivers w d\<close>: the data a reader gets from what \<open>w\<close> has sent, followed by what \<open>w\<close> still
  holds back, is \<open>d\<close>.
\<close>

definition delivers :: "mux_writer \<Rightarrow> byte list \<Rightarrow> bool" where
  "delivers w d \<longleftrightarrow> (\<exists>sent. carries (sink w) sent \<and> sent @ wbuf w = d)"

lemma delivers_NewWriter: "delivers (NewWriter []) []"
  by (simp add: delivers_def NewWriter_def carries_Nil)

lemma delivers_buffer: "delivers w d \<Longrightarrow> delivers (w\<lparr>wbuf := wbuf w @ p\<rparr>) (d @ p)"
  by (auto simp: delivers_def)

lemma Flush_delivers:
  "\<exists>w'. Flush w = (Inr (), w') \<and> wbuf w' = [] \<and> bufSize w' = bufSize w \<and>
     (\<forall>d. delivers w d \<longrightarrow> delivers w' d)"
proof -
  obtain bs where "Flush w = (Inr (), w\<lparr>wbuf := [], sink := sink w @ bs\<rparr>)" and bs: "carries bs (wbuf w)"
    using Flush_ok [of w] by blast
  then show ?thesis
    using carries_append [OF _ bs] by (auto simp: delivers_def)
qed

lemma delivers_Flush:
  "delivers w d \<Longrightarrow> \<exists>w'. Flush w = (Inr (), w') \<and> wbuf w' = [] \<and> bufSize w' = bufSize w \<and> delivers w' d"
  using Flush_delivers [of w] by blast

lemma writeLoop_ok:
  assumes "0 < bufSize w"
  shows "\<exists>w'. writeLoop w n p = (Inr (n + length p), w') \<and> bufSize w' = bufSize w \<and>
     (\<forall>d. delivers w d \<longrightarrow> delivers w' (d @ p)) \<and>
     (int (length (wbuf w)) \<le> bufSize w \<longrightarrow> int (length (wbuf w')) \<le> bufSize w)"
  using assms
proof (induction "length p" arbitrary: w n p rule: less_induct)
  case less
  show ?case
  proof (cases "p = []")
    case True
    with less.prems show ?thesis by (simp add: writeLoop.simps [of w n])
  next
    case False
    define w1 where "w1 = (if bufSize w \<le> int (length (wbuf w)) then snd (Flush w) else w)"
    have w1: "(if bufSize w \<le> int (length (wbuf w)) then Flush w else (Inr (), w)) = (Inr (), w1)"
        "bufSize w1 = bufSize w" "\<forall>d. delivers w d \<longrightarrow> delivers w1 d" "int (length (wbuf w1)) < bufSize w"
      using Flush_delivers [of w] less.prems by (auto simp: w1_def)
    define k where "k = nat (bufSize w1 - int (length (wbuf w1)))"
    have k: "0 < k" "int (length (wbuf w1)) + int k = bufSize w"
      using w1 by (auto simp: k_def)
    let ?c = "take k p"
    let ?w2 = "w1\<lparr>wbuf := wbuf w1 @ ?c\<rparr>"
    have step: "writeLoop w n p = writeLoop ?w2 (n + length ?c) (drop (length ?c) p)"
      using w1(4) unfolding w1(2) [symmetric]
      by (subst writeLoop.simps) (simp add: False w1(1) Let_def k_def)
    have "\<exists>w'. writeLoop ?w2 (n + length ?c) (drop (length ?c) p) =
         (Inr (n + length ?c + length (drop (length ?c) p)), w') \<and> bufSize w' = bufSize ?w2 \<and>
       (\<forall>d. delivers ?w2 d \<longrightarrow> delivers w' (d @ drop (length ?c) p)) \<and>
       (int (length (wbuf ?w2)) \<le> bufSize ?w2 \<longrightarrow> int (length (wbuf w')) \<le> bufSize ?w2)"
      by (rule less.hyps) (use False k w1 less.prems in auto)
    moreover have "\<forall>d. delivers w d \<longrightarrow> delivers ?w2 (d @ ?c)"
      using w1(3) delivers_buffer by blast
    moreover have "?c @ drop (length ?c) p = p"
      by (metis append_take_drop_id length_take min.cobounded2 min_def take_all drop_all)
    moreover have "length ?c + length (drop (length ?c) p) = length p"
      by auto
    moreover have "int (length (wbuf ?w2)) \<le> bufSize w"
      using k by simp
    ultimately show ?thesis
      unfolding step using w1(2) by (auto simp: add.assoc) (metis append.assoc)
  qed
qed

lemma delivers_Write:
  assumes "delivers w d" and "0 \<le> bufSize w"
  shows "\<exists>w'. Write w p = (Inr (length p), w') \<and> bufSize w' = bufSize w \<and> delivers w' (d @ p)"
  using writeLoop_ok [of w 0 p] assms delivers_buffer
  by (cases "bufSize w = 0") (auto simp: Write_def)

lemma delivers_SendMsg:
  assumes "delivers w d" and "isInfoMessage code" and "length payload \<le> maxPayload"
  shows "\<exists>w'. SendMsg w code payload = (Inr (), w') \<and> bufSize w' = bufSize w \<and> delivers w' d"
proof -
  obtain w1 where w1: "Flush w = (Inr (), w1)" "wbuf w1 = []" "bufSize w1 = bufSize w" "delivers w1 d"
    using delivers_Flush [OF assms(1)] by blast
  then obtain sent where "carries (sink w1) sent" "sent = d"
    by (auto simp: delivers_def)
  then have "carries (sink w1 @ frame code payload) (d @ [])"
    by (intro carries_append carries_info assms) simp
  then show ?thesis
    using w1 assms(3) by (auto simp: SendMsg_def writeFrame_def delivers_def)
qed

text \<open>The calls the contract covers, and the data among them.\<close>

fun op_ok :: "writer_op \<Rightarrow> bool" where
  "op_ok (OpSendMsg code payload) \<longleftrightarrow> isInfoMessage code \<and> length payload \<le> maxPayload"
| "op_ok (OpSetBufferSize n) \<longleftrightarrow> 0 \<le> n"
| "op_ok _ \<longleftrightarrow> True"

fun op_data :: "writer_op \<Rightarrow> byte list" where
  "op_data (OpWrite p) = p"
| "op_data _ = []"

lemma delivers_writerStep:
  assumes "delivers w d" and "0 \<le> bufSize w" and "op_ok x"
  shows "\<exists>w'. writerStep w x = (Inr (), w') \<and> 0 \<le> bufSize w' \<and> delivers w' (d @ op_data x)"
proof (cases x)
  case (OpWrite p)
  with delivers_Write [OF assms(1,2), of p] assms(2) show ?thesis by auto
next
  case OpFlush
  with delivers_Flush [OF assms(1)] assms(2) show ?thesis by auto
next
  case (OpSendMsg code payload)
  with delivers_SendMsg [OF assms(1), of code payload] assms(2,3) show ?thesis by auto
next
  case (OpSetBufferSize n)
  with assms show ?thesis by (simp add: SetBufferSize_def delivers_def)
qed

lemma delivers_writerRun:
  "delivers w d \<Longrightarrow> 0 \<le> bufSize w \<Longrightarrow> list_all op_ok ops \<Longrightarrow>
   \<exists>w'. writerRun w ops = (Inr (), w') \<and> 0 \<le> bufSize w' \<and> delivers w' (d @ concat (map op_data ops))"
proof (induction ops arbitrary: w d)
  case Nil
  then show ?case by simp
next
  case (Cons x ops)
  then obtain w1 where "writerStep w x = (Inr (), w1)" "0 \<le> bufSize w1" "delivers w1 (d @ op_data x)"
    using delivers_writerStep [of w d x] by auto
  with Cons.IH [of w1 "d @ op_data x"] Cons.prems show ?case by simp
qed

lemma writerRun_append:
  "writerRun w (xs @ ys) =
    (case writerRun w xs of (Inl e, w') \<Rightarrow> (Inl e, w') | (Inr _, w') \<Rightarrow> writerRun w' ys)"
  by (induction xs arbitrary: w) (auto split: prod.splits sum.splits)

text \<open>After a final flush everything written is on the wire, in order, and nothing else is.\<close>

lemma writerRun_flushed:
  assumes "list_all op_ok ops"
  shows "\<exists>w. writerRun (NewWriter []) (ops @ [OpFlush]) = (Inr (), w) \<and> wbuf w = [] \<and>
     demux (Src (sink w) e) = Src (concat (map op_data ops)) e"
proof -
  obtain w1 where w1: "writerRun (NewWriter []) ops = (Inr (), w1)" "delivers w1 (concat (map op_data ops))"
    using delivers_writerRun [OF delivers_NewWriter _ assms] by (auto simp: NewWriter_def defaultBufSize_def)
  obtain w2 where w2: "Flush w1 = (Inr (), w2)" "wbuf w2 = []" "delivers w2 (concat (map op_data ops))"
    using delivers_Flush [OF w1(2)] by blast
  then have "carries (sink w2) (concat (map op_data ops))"
    by (auto simp: delivers_def)
  with w1 w2 show ?thesis
    by (simp add: writerRun_append carries_end)
qed

section \<open>Control messages\<close>

lemma recvLoop_data:
  "\<forall>p\<in>set ps. length p \<le> maxPayload \<Longrightarrow> code \<noteq> MsgData \<Longrightarrow> length payload \<le> maxPayload \<Longrightarrow>
   recvLoop (Src (concat (map (frame MsgData) ps) @ frame code payload @ rest) e) =
     (Inr (code, payload), Src rest e)"
proof (induction ps)
  case Nil
  then show ?case
    by (subst recvLoop.simps) (simp add: readsD [OF reads_readFrame])
next
  case (Cons p ps)
  have "readFrame (Src (frame MsgData p @ concat (map (frame MsgData) ps) @ frame code payload @ rest) e) =
      (Inr (MsgData, p), Src (concat (map (frame MsgData) ps) @ frame code payload @ rest) e)"
    using Cons.prems by (intro readsD reads_readFrame) simp
  with Cons show ?case
    by (subst recvLoop.simps) simp
qed

lemma chunkLoop_info:
  "\<forall>(c, p)\<in>set ps. isInfoMessage c \<and> length p \<le> maxPayload \<Longrightarrow> length payload \<le> maxPayload \<Longrightarrow>
   chunkLoop (Src (concat (map (\<lambda>(c, p). frame c p) ps) @ frame MsgData payload @ rest) e) =
     (Inr payload, Src rest e)"
proof (induction ps)
  case Nil
  then show ?case
    by (subst chunkLoop.simps) (simp add: readsD [OF reads_readFrame])
next
  case (Cons cp ps)
  obtain c p where cp: "cp = (c, p)" by (cases cp)
  let ?rest = "concat (map (\<lambda>(c, p). frame c p) ps) @ frame MsgData payload @ rest"
  have "readFrame (Src (frame c p @ ?rest) e) = (Inr (c, p), Src ?rest e)"
    using Cons.prems cp by (intro readsD reads_readFrame) simp
  with Cons show ?case
    by (subst chunkLoop.simps) (simp add: cp info_not_data)
qed

section \<open>Properties\<close>

text \<open>
  C22: \<^verbatim>\<open>io.ReadFull\<close> on the multiplexed reader behaves as on the plain byte source of its
  data payloads: same bytes, same errors, and after a success the source is the rest.
  Logging frames, empty data frames and frame boundaries are invisible.
\<close>

theorem mux_reader_refines:
  "case muxReadFull [] n r of
     (Inl e, r') \<Rightarrow> fst (readFull n (readerView r)) = Inl e
   | (Inr d, r') \<Rightarrow> readFull n (readerView r) = (Inr d, readerView r')"
  by (rule muxReadFull_refines)

text \<open>
  C21: whatever sequence of writes, flushes, logging messages and buffer sizes a client makes,
  no call fails, and after a final flush a reader of the transport gets exactly the
  concatenation of the written data, then the end of the transport.
\<close>

theorem mux_end_to_end:
  assumes "list_all op_ok ops"
  shows "\<exists>w. writerRun (NewWriter []) (ops @ [OpFlush]) = (Inr (), w) \<and> wbuf w = [] \<and>
     readerView (NewReader (Src (sink w) e)) = Src (concat (map op_data ops)) e"
  using writerRun_flushed [OF assms, of e] by (simp add: readerView_def NewReader_def)

theorem mux_end_to_end_witness:
  "\<exists>w. writerRun (NewWriter []) ([OpWrite [1, 2], OpSendMsg MsgInfo [65], OpSetBufferSize 1, OpWrite [3, 4]] @ [OpFlush]) = (Inr (), w) \<and>
     readerView (NewReader (Src (sink w) EOF)) = Src [1, 2, 3, 4] EOF"
  using mux_end_to_end [of "[OpWrite [1, 2], OpSendMsg MsgInfo [65], OpSetBufferSize 1, OpWrite [3, 4]]" EOF]
  by (auto simp: isInfoMessage_def maxPayload_def)

text \<open>
  C31: with a positive buffer size, \<^verbatim>\<open>Write\<close> takes all of its input and never leaves more
  than the configured size in the buffer.
\<close>

theorem mux_write_bounded:
  assumes "0 < bufSize w" and "int (length (wbuf w)) \<le> bufSize w"
  shows "fst (Write w p) = Inr (length p) \<and> int (length (wbuf (snd (Write w p)))) \<le> bufSize (snd (Write w p)) \<and>
    bufSize (snd (Write w p)) = bufSize w"
  using writeLoop_ok [OF assms(1), of 0 p] assms by (auto simp: Write_def)

theorem mux_write_bounded_witness:
  "fst (Write (NewWriter []) [1, 2, 3]) = Inr 3 \<and> int (length (wbuf (snd (Write (NewWriter []) [1, 2, 3])))) \<le> 32768"
proof -
  have s: "int (length (wbuf (NewWriter []))) \<le> bufSize (NewWriter [])" "0 < bufSize (NewWriter [])"
      "bufSize (NewWriter []) = 32768"
    by (simp_all add: NewWriter_def defaultBufSize_def)
  from mux_write_bounded [OF s(2,1), of "[1, 2, 3]"] s(3) show ?thesis by simp
qed

text \<open>
  \<^verbatim>\<open>RecvMsg\<close> drops pending and framed data up to the first control message, returns
  that message, and leaves the transport right behind it.
\<close>

theorem mux_recv_msg:
  assumes "\<forall>p\<in>set ps. length p \<le> maxPayload" and "code \<noteq> MsgData" and "length payload \<le> maxPayload"
  shows "RecvMsg \<lparr>rsrc = Src (concat (map (frame MsgData) ps) @ frame code payload @ rest) e, rbuf = pending\<rparr> =
    (Inr (code, payload), \<lparr>rsrc = Src rest e, rbuf = []\<rparr>)"
  by (simp add: RecvMsg_def recvLoop_data [OF assms])

theorem mux_recv_msg_witness:
  "RecvMsg \<lparr>rsrc = Src (concat (map (frame MsgData) [[1], [2, 3]]) @ frame 86 [4] @ [5]) EOF, rbuf = [0]\<rparr> =
    (Inr (86, [4]), \<lparr>rsrc = Src [5] EOF, rbuf = []\<rparr>)"
  by (rule mux_recv_msg) (simp_all add: maxPayload_def MsgData_def)

end
