(* ===== verification/Server_Handshake.thy ===== *)
theory Server_Handshake
  imports Handshake Mux_Frames
begin

text \<open>
  \<^verbatim>\<open>src/server.go\<close> and \<^verbatim>\<open>src/server-handshake.go\<close>: the daemon's modules and its side of the
  handshake, on the raw connection, up to the parameters of the transfer. Random numbers,
  the clock, the authentication callback and the module's file system are parameters.
\<close>

section \<open>Definitions\<close>

subsection \<open>Modules\<close>

text \<open>
  A module as the handshake sees it: \<open>smRoot\<close> is opening its root directory. The map of
  modules is an association list in the order Go happens to iterate it.
\<close>

record server_module =
  smName :: gostring
  smComment :: gostring
  smRoot :: "go_error + unit"
  smReadOnly :: bool
  smAuth :: "(gostring \<Rightarrow> byte list \<Rightarrow> go_error + byte list) option"

fun addModules :: "(gostring \<times> server_module) list \<Rightarrow> server_module list \<Rightarrow> go_error + (gostring \<times> server_module) list" where
  "addModules acc [] = Inr acc"
| "addModules acc (m # ms) =
    (if map_of acc (smName m) \<noteq> None then Inl (Errorf ''duplicate module name'')
     else addModules (acc @ [(smName m, m)]) ms)"

definition NewServer :: "server_module list \<Rightarrow> go_error + (gostring \<times> server_module) list" where
  "NewServer mods = addModules [] mods"

subsection \<open>The handshake\<close>

record handshake_result =
  rModule :: server_module
  rVer :: int
  rVarint :: bool
  rSeedFix :: bool
  rId0Names :: bool
  rPreserve :: "bool \<times> bool"
  rPreserveHlinks :: bool
  rChecksum :: gostring
  rSeed :: i32
  rOutMw :: "mux_writer option"

definition serverCapabilities :: flags where
  "serverCapabilities =
    CompatSymlinkTimes OR CompatSafeFlist OR CompatAvoidXattrOptim OR CompatChksumSeedFix OR CompatVarintFlistFlags"

text \<open>The comparison loop runs over all bytes; \<open>acc\<close> is its \<^verbatim>\<open>result\<close>.\<close>

fun hashEqualLoop :: "int \<Rightarrow> byte list \<Rightarrow> byte list \<Rightarrow> int" where
  "hashEqualLoop acc (a # as) (b # bs) = hashEqualLoop (if a \<noteq> b then 1 else acc) as bs"
| "hashEqualLoop acc _ _ = acc"

definition hashEqual :: "byte list \<Rightarrow> byte list \<Rightarrow> bool" where
  "hashEqual a b \<longleftrightarrow> length a = length b \<and> hashEqualLoop 0 a b = 0"

text \<open>A failed step that tells the peer before it returns.\<close>

definition refuse :: "string \<Rightarrow> go_error \<Rightarrow> (conn, 'a) io" where
  "refuse msg err = bnd (wr (WriteError msg)) (\<lambda>_. fail err)"

definition orRefuse :: "(conn, 'a) io \<Rightarrow> string \<Rightarrow> string \<Rightarrow> (conn, 'a) io" where
  "orRefuse m msg ctx c =
    (case m c of (Inl err, c') \<Rightarrow> refuse msg (Wrap ctx err) c' | (Inr x, c') \<Rightarrow> (Inr x, c'))"

definition serverGreet :: "greeting \<Rightarrow> (conn, int) io" where
  "serverGreet g =
    bnd (wr (WriteGreeting (ApplyDefaults g))) (\<lambda>_.
    bnd (orRefuse (rd ReadGreeting) ''invalid greeting'' ''read client greeting'') (\<lambda>clientGreeting.
      case Negotiate clientGreeting (ApplyDefaults g) of
        Inl err \<Rightarrow> refuse ''protocol version negotiation failed'' (Wrap ''negotiate version'' err)
      | Inr (version, _, _) \<Rightarrow> ret version))"

text \<open>\<open>None\<close> is a connection that ended cleanly: no request, or a listing.\<close>

definition selectModule :: "(gostring \<times> server_module) list \<Rightarrow> int \<Rightarrow> (conn, server_module option) io" where
  "selectModule modules version c =
    (case rd ReadModuleRequest c of
       (Inl err, c') \<Rightarrow> (if errors_Is err EOF then Inr None else Inl (Wrap ''read module request'' err), c')
     | (Inr moduleName, c') \<Rightarrow>
         (if moduleName = str ''#list'' \<or> moduleName = [] then
            bnd (wr (WriteModuleList (map (\<lambda>(_, m). \<lparr>miName = smName m, miComment = smComment m\<rparr>) modules) version))
              (\<lambda>_. ret None)
          else case map_of modules moduleName of
              None \<Rightarrow> refuse ''Unknown module'' (Errorf ''unknown module'')
            | Some selected \<Rightarrow>
                (case smRoot selected of
                   Inl err \<Rightarrow> refuse ''chdir failed'' (Wrap ''module root inaccessible'' err)
                 | Inr _ \<Rightarrow> ret (Some selected))) c')"

definition serverAuth :: "server_module \<Rightarrow> go_error + byte list \<Rightarrow> (conn, unit) io" where
  "serverAuth m rand =
    (case smAuth m of
       None \<Rightarrow> wr WriteAuthOK
     | Some callback \<Rightarrow>
         (case rand of
            Inl err \<Rightarrow> fail (Wrap ''generate challenge'' err)
          | Inr challenge \<Rightarrow>
              bnd (wr (WriteAuthChallenge challenge)) (\<lambda>_.
              bnd (orRefuse (rd ReadAuthResponse) ''Authentication failed'' ''read auth response'') (\<lambda>(username, responseHash).
                case callback username challenge of
                  Inl _ \<Rightarrow> refuse ''Authentication failed'' (Errorf ''authentication failed for user'')
                | Inr expectedHash \<Rightarrow>
                    if \<not> hashEqual responseHash expectedHash
                    then refuse ''Authentication failed'' (Errorf ''authentication failed for user'')
                    else wr WriteAuthOK))))"

definition serverCompat :: "int \<Rightarrow> gostring list \<Rightarrow> (conn, flags) io" where
  "serverCompat version args =
    (if 30 \<le> version then
       let compatFlags = ResolveCompatFlags serverCapabilities (ExtractClientInfo args)
       in bnd (wr (WriteCompatFlags compatFlags version)) (\<lambda>_. ret compatFlags)
     else ret 0)"

definition chooseChecksum :: "flags \<Rightarrow> int \<Rightarrow> (conn, gostring) io" where
  "chooseChecksum compatFlags version =
    (if has compatFlags CompatVarintFlistFlags
     then bnd (wrapping ''negotiate algorithms'' (NegotiateAlgorithms SupportedDigests [])) (\<lambda>algos. ret (algChecksum algos))
     else ret (algChecksum (DefaultAlgorithms version)))"

text \<open>The seed: random if that works, the clock otherwise, and never zero.\<close>

definition chooseSeed :: "i32 option \<Rightarrow> i64 \<Rightarrow> i32" where
  "chooseSeed rand now =
    (let seed = (case rand of Some x \<Rightarrow> x | None \<Rightarrow> ucast now) in if seed = 0 then 32761 else seed)"

definition sendSeed :: "int \<Rightarrow> i32 \<Rightarrow> (conn, mux_writer option) io" where
  "sendSeed version seed =
    (if version < 23 then ret (Some (snd (Write (NewWriter []) (WriteChecksumSeed seed))))
     else bnd (wr (WriteChecksumSeed seed)) (\<lambda>_. ret None))"

text \<open>The part of \<^verbatim>\<open>doHandshake\<close> that follows the choice of the module.\<close>

definition admit :: "server_module \<Rightarrow> int \<Rightarrow> go_error + byte list \<Rightarrow> i32 option \<Rightarrow> i64 \<Rightarrow> (conn, handshake_result) io" where
  "admit selected version challenge seedRand now =
    bnd (serverAuth selected challenge) (\<lambda>_.
    bnd (rd (wrapping ''read arguments'' (ReadArgs version))) (\<lambda>args.
    bnd (serverCompat version args) (\<lambda>compatFlags.
    bnd (chooseChecksum compatFlags version) (\<lambda>checksum.
    bnd (sendSeed version (chooseSeed seedRand now)) (\<lambda>outMw.
      ret \<lparr>rModule = selected, rVer = version,
           rVarint = has compatFlags CompatVarintFlistFlags,
           rSeedFix = has compatFlags CompatChksumSeedFix,
           rId0Names = has compatFlags CompatId0Names,
           rPreserve = (case ExtractPreserveFlags args of (uid, gid, _) \<Rightarrow> (uid, gid)),
           rPreserveHlinks = (case ExtractPreserveFlags args of (_, _, hlinks) \<Rightarrow> hlinks),
           rChecksum = checksum, rSeed = chooseSeed seedRand now, rOutMw = outMw\<rparr>)))))"

definition doHandshake :: "greeting \<Rightarrow> (gostring \<times> server_module) list \<Rightarrow> go_error + byte list \<Rightarrow> i32 option \<Rightarrow> i64 \<Rightarrow>
    (conn, handshake_result option) io" where
  "doHandshake g modules challenge seedRand now =
    bnd (serverGreet g) (\<lambda>version.
    bnd (selectModule modules version) (\<lambda>sel.
      case sel of
        None \<Rightarrow> ret None
      | Some selected \<Rightarrow> bnd (admit selected version challenge seedRand now) (\<lambda>r. ret (Some r))))"

text \<open>The transfer state the sender starts with; \<open>H\<close> are the hash functions.\<close>

definition transferOf :: "hashes \<Rightarrow> handshake_result \<Rightarrow> transfer_state" where
  "transferOf H r =
    \<lparr>ver = rVer r, tconf = \<lparr>hashFns = H, digestName = rChecksum r, hseed = rSeed r, hseedFix = rSeedFix r\<rparr>,
     varint = rVarint r, tid0Names = rId0Names r, tpreserve = rPreserve r, tpreserveLinks = True,
     tpreserveDevices = True, tpreserveHlinks = rPreserveHlinks r, entries = []\<rparr>"

text \<open>
  The connection the sender works on: the payload of the client's frames from protocol 30 on,
  its plain bytes before; on the way out, what the multiplexer already holds.
\<close>

definition transferConn :: "handshake_result \<Rightarrow> conn \<Rightarrow> conn" where
  "transferConn r c =
    \<lparr>cin = (if 30 \<le> rVer r then demux (cin c) else cin c),
     cout = (case rOutMw r of Some w \<Rightarrow> wbuf w | None \<Rightarrow> [])\<rparr>"

text \<open>The whole connection; the second component is the payload side, once there is one.\<close>

definition HandleConnection :: "hashes \<Rightarrow> greeting \<Rightarrow> (gostring \<times> server_module) list \<Rightarrow> go_error + byte list \<Rightarrow> i32 option \<Rightarrow>
    i64 \<Rightarrow> (server_module \<Rightarrow> gostring \<Rightarrow> go_error + byte list) \<Rightarrow> (server_module \<Rightarrow> int \<Rightarrow> go_error + file_entry list) \<Rightarrow>
    conn \<Rightarrow> (go_error + unit) \<times> conn \<times> conn option" where
  "HandleConnection H g modules challenge seedRand now fsRead walked c =
    (case doHandshake g modules challenge seedRand now c of
       (Inl err, c') \<Rightarrow> (Inl err, c', None)
     | (Inr None, c') \<Rightarrow> (Inr (), c', None)
     | (Inr (Some r), c') \<Rightarrow>
         (case doServerSender (fsRead (rModule r)) (walked (rModule r) (rVer r)) (transferOf H r) (transferConn r c') of
            (res, t) \<Rightarrow> (res, c', Some t)))"

section \<open>The module map\<close>

lemma addModules_result:
  "addModules acc mods =
    (if distinct (map smName mods) \<and> (\<forall>m\<in>set mods. map_of acc (smName m) = None)
     then Inr (acc @ map (\<lambda>m. (smName m, m)) mods) else Inl (Errorf ''duplicate module name''))"
proof (induction acc mods rule: addModules.induct)
  case (2 acc m ms)
  have "map_of (acc @ [(smName m, m)]) n = None \<longleftrightarrow> map_of acc n = None \<and> n \<noteq> smName m" for n
    by (auto simp: map_of_eq_None_iff)
  with 2 show ?case by (auto simp: image_iff eq_commute [of "smName m"])
qed simp

section \<open>Only authenticated clients get in\<close>

lemma hashEqualLoop_zero: "length a = length b \<Longrightarrow> hashEqualLoop acc a b = 0 \<longleftrightarrow> acc = 0 \<and> a = b"
  by (induction acc a b rule: hashEqualLoop.induct) auto

lemma hashEqual_iff: "hashEqual a b \<longleftrightarrow> a = b"
  by (auto simp: hashEqual_def hashEqualLoop_zero)

lemma refuse_fails [simp]: "refuse msg err c \<noteq> (Inr x, c')"
  by (simp add: refuse_def bnd_def wr_def)

lemma orRefuse_Inr: "orRefuse m msg ctx c = (Inr x, c') \<longleftrightarrow> m c = (Inr x, c')"
  by (auto simp: orRefuse_def split: prod.splits sum.splits)

lemma selectModule_Some:
  "selectModule modules version c = (Inr (Some m), c') \<Longrightarrow>
   \<exists>name. name \<noteq> [] \<and> rd ReadModuleRequest c = (Inr name, c') \<and> map_of modules name = Some m \<and> smRoot m = Inr ()"
  by (auto simp: selectModule_def bnd_def wr_def split: prod.splits sum.splits if_splits option.splits)

text \<open>What it takes to be let in: no callback, or a response that the callback asks for.\<close>

definition authenticated :: "server_module \<Rightarrow> go_error + byte list \<Rightarrow> conn \<Rightarrow> bool" where
  "authenticated m rand c \<longleftrightarrow>
    smAuth m = None \<or>
    (\<exists>callback challenge user digest s'. smAuth m = Some callback \<and> rand = Inr challenge \<and>
       ReadAuthResponse (cin c) = (Inr (user, digest), s') \<and> callback user challenge = Inr digest)"

lemma serverAuth_Inr:
  assumes "serverAuth m rand c = (Inr x, c')"
  shows "authenticated m rand c"
proof (cases "smAuth m")
  case (Some callback)
  obtain challenge where ch: "rand = Inr challenge" using assms Some by (cases rand) (auto simp: serverAuth_def)
  obtain user digest c2 where u: "rd ReadAuthResponse (c\<lparr>cout := cout c @ WriteAuthChallenge challenge\<rparr>) = (Inr (user, digest), c2)"
    and k: "(case callback user challenge of
        Inl _ \<Rightarrow> refuse ''Authentication failed'' (Errorf ''authentication failed for user'')
      | Inr expectedHash \<Rightarrow>
          if \<not> hashEqual digest expectedHash
          then refuse ''Authentication failed'' (Errorf ''authentication failed for user'') else wr WriteAuthOK) c2 = (Inr x, c')"
    using assms Some ch by (auto simp: serverAuth_def bnd_Inr_iff orRefuse_Inr wr_def)
  have "callback user challenge = Inr digest"
    using k by (cases "callback user challenge") (auto simp: hashEqual_iff split: if_splits)
  moreover obtain s' where "ReadAuthResponse (cin c) = (Inr (user, digest), s')"
    using u by (auto simp: rd_def split: prod.splits)
  ultimately show ?thesis using Some ch by (auto simp: authenticated_def)
qed (simp add: authenticated_def)

lemma doHandshake_Some:
  assumes "doHandshake g modules rand seedRand now c = (Inr (Some r), c')"
  shows "\<exists>c1 c2 name. serverGreet g c = (Inr (rVer r), c1) \<and>
    rd ReadModuleRequest c1 = (Inr name, c2) \<and> map_of modules name = Some (rModule r) \<and>
    smRoot (rModule r) = Inr () \<and> authenticated (rModule r) rand c2"
proof -
  obtain version c1 sel c2 where g: "serverGreet g c = (Inr version, c1)" "selectModule modules version c1 = (Inr sel, c2)"
    and r: "(case sel of None \<Rightarrow> ret None
       | Some selected \<Rightarrow> bnd (admit selected version rand seedRand now) (\<lambda>r. ret (Some r))) c2 = (Inr (Some r), c')"
    using assms unfolding doHandshake_def bnd_Inr_iff by blast
  then obtain m where m: "sel = Some m" "admit m version rand seedRand now c2 = (Inr r, c')"
    by (cases sel) (auto simp: bnd_Inr_iff)
  have "rVer r = version" "rModule r = m" using m(2) by (auto simp: admit_def bnd_Inr_iff)
  moreover have "authenticated m rand c2" using m(2) serverAuth_Inr by (auto simp: admit_def bnd_Inr_iff)
  ultimately show ?thesis using g selectModule_Some [of modules version c1 m c2] m(1) by blast
qed

end
