(* ===== verification/Client_Transfer.thy ===== *)
theory Client_Transfer
  imports Server_Send
begin

text \<open>
  The client side of a transfer, \<^verbatim>\<open>src/client-open.go\<close>: reading the file list and its
  trailer, pulling one file, the phase exchange, statistics and goodbye, and the operations
  of the file system interface that are built from them. The connection is as in
  \<open>Server_Send\<close>, seen from the other end, with the two index states of the session.
\<close>

section \<open>Definitions\<close>

text \<open>The negotiated parameters of a \<^verbatim>\<open>Session\<close>, and its live connection.\<close>

record session =
  sversion :: int
  shashes :: hashes
  schecksum :: gostring
  sseed :: i32
  svarintFlist :: bool
  sid0Names :: bool

record client_conn = conn +
  sndx :: ndx_state
  srecvNdx :: ndx_state

subsection \<open>The file list\<close>

function entryLoop :: "flist_reader \<Rightarrow> flist_entry list \<Rightarrow> (src, flist_entry list) io" where
  "entryLoop fr es s =
    (case ReadEntry fr s of
       (Inl err, s') \<Rightarrow> if err = EOF then (Inr es, s') else (Inl err, s')
     | (Inr (e, fr'), s') \<Rightarrow> entryLoop fr' (es @ [e]) s')"
  by pat_completeness auto
termination
  by (relation "measure (\<lambda>(fr, es, s). length (avail s))") (auto dest!: consumesD [OF consumes_ReadEntry sym])

declare entryLoop.simps [simp del]

definition skipIDName :: "(src, unit) io" where
  "skipIDName = bnd (readFull 1) (\<lambda>b. if b ! 0 = 0 then ret () else discardN (unat (b ! 0)))"

definition readIDVarint :: "session \<Rightarrow> (src, i32) io" where
  "readIDVarint se = (if 30 \<le> sversion se then ReadVarint else ReadInt32)"

lemma consumes_readIDVarint: "consumes (readIDVarint se)"
  by (simp add: readIDVarint_def consumes_ints)

lemma streaming_discardN [streaming_intros]: "streaming (discardN n)"
proof (unfold streaming_def, intro allI impI)
  fix bs e y s' assume "discardN n (Src bs e) = (Inr y, s')"
  then have "bs = take n bs @ drop n bs \<and> s' = Src (drop n bs) e \<and>
      (\<forall>q e'. discardN n (Src (take n bs @ q) e') = (Inr y, Src q e'))"
    by (auto split: if_splits)
  then show "\<exists>c r. bs = c @ r \<and> s' = Src r e \<and> (\<forall>q e'. discardN n (Src (c @ q) e') = (Inr y, Src q e'))"
    by blast
qed

lemma streaming_skipIDName [streaming_intros]: "streaming skipIDName"
  unfolding skipIDName_def by (intro streaming_intros)

function idLoop :: "session \<Rightarrow> (src, unit) io" where
  "idLoop se s =
    (case readIDVarint se s of
       (Inl err, s') \<Rightarrow> (Inl err, s')
     | (Inr idv, s') \<Rightarrow>
         if idv = 0 then (Inr (), s')
         else case skipIDName s' of
                (Inl err, s'') \<Rightarrow> (Inl err, s'')
              | (Inr _, s'') \<Rightarrow> idLoop se s'')"
  by pat_completeness auto
termination
proof (relation "measure (\<lambda>(se, s). length (avail s))", goal_cases)
  case (2 se s x s' idv y s'' u)
  then show ?case
    using consumesD [OF consumes_readIDVarint, of se s idv s'] streaming_le [OF streaming_skipIDName, of s' u s'']
    by auto
qed simp

declare idLoop.simps [simp del]

definition readIDList :: "session \<Rightarrow> (src, unit) io" where
  "readIDList se = bnd (idLoop se) (\<lambda>_. if sid0Names se then skipIDName else ret ())"

definition readFlistTrailer :: "session \<Rightarrow> (src, unit) io" where
  "readFlistTrailer se =
    bnd (wrapping ''read uid list'' (readIDList se)) (\<lambda>_.
    bnd (wrapping ''read gid list'' (readIDList se)) (\<lambda>_.
      if \<not> svarintFlist se \<and> sversion se < 30
      then bnd (wrapping ''read io_error trailer'' ReadInt32) (\<lambda>_. ret ())
      else ret ()))"

definition clientFlistReader :: "session \<Rightarrow> flist_reader" where
  "clientFlistReader se = SetPreserveHardlinks False (NewFlistReader (sversion se) (svarintFlist se))"

definition readFileList :: "session \<Rightarrow> (src, flist_entry list) io" where
  "readFileList se =
    bnd (entryLoop (clientFlistReader se) []) (\<lambda>es. bnd (readFlistTrailer se) (\<lambda>_. ret es))"

subsection \<open>Pulling a file\<close>

text \<open>The loop over the delta tokens: literals are collected, block references contribute nothing.\<close>

function pullLoop :: "delta_reader \<Rightarrow> byte list \<Rightarrow> (src, byte list) io" where
  "pullLoop dr data s =
    (case ReadToken dr s of
       (Inl err, s') \<Rightarrow> (Inl (Wrap ''read delta'' err), s')
     | (Inr ((lit, blockIdx, isEnd), dr'), s') \<Rightarrow>
         if isEnd then (Inr data, s')
         else pullLoop dr' (data @ (case lit of Some d \<Rightarrow> d | None \<Rightarrow> [])) s')"
  by pat_completeness auto
termination
  by (relation "measure (\<lambda>(dr, data, s). length (avail s))") (auto dest!: sym [of _ "ReadToken _ _"] intro: ReadToken_consumes)

declare pullLoop.simps [simp del]

text \<open>Writing a selector or an index with the session's own state, and reading an echo.\<close>

definition writeSel :: "session \<Rightarrow> selector \<Rightarrow> (client_conn, unit) io" where
  "writeSel se sel c =
    (let (res, ndx', bs) = WriteSelector (sversion se) (sndx c) sel
     in case res of
          Inl err \<Rightarrow> (Inl err, c\<lparr>sndx := ndx', cout := cout c @ bs\<rparr>)
        | Inr _ \<Rightarrow> (Inr (), c\<lparr>sndx := ndx', cout := cout c @ bs\<rparr>))"

definition readSel :: "session \<Rightarrow> (client_conn, selector) io" where
  "readSel se c =
    (case ReadSelector (sversion se) (srecvNdx c) (cin c) of
       (Inl err, s') \<Rightarrow> (Inl err, c\<lparr>cin := s'\<rparr>)
     | (Inr (sel, n'), s') \<Rightarrow> (Inr sel, c\<lparr>cin := s', srecvNdx := n'\<rparr>))"

definition nullSumHead :: sum_head where
  "nullSumHead = \<lparr>Count = 0, BLength = 0, S2Length = 0, Remainder = 0\<rparr>"

fun equalBytesLoop :: "byte list \<Rightarrow> byte list \<Rightarrow> bool" where
  "equalBytesLoop (x # a) (y # b) \<longleftrightarrow> (if x \<noteq> y then False else equalBytesLoop a b)"
| "equalBytesLoop _ _ \<longleftrightarrow> True"

definition equalBytes :: "byte list \<Rightarrow> byte list \<Rightarrow> bool" where
  "equalBytes a b \<longleftrightarrow> (if length a \<noteq> length b then False else equalBytesLoop a b)"

lemma equalBytes_iff [simp]: "equalBytes a b \<longleftrightarrow> a = b"
proof -
  have "length a = length b \<Longrightarrow> equalBytesLoop a b \<longleftrightarrow> a = b"
    by (induction a b rule: equalBytesLoop.induct) auto
  then show ?thesis by (auto simp: equalBytes_def)
qed

definition openFile :: "session \<Rightarrow> i32 \<Rightarrow> (client_conn, byte list) io" where
  "openFile se ndx =
    bnd (wrapping ''write selector''
          (writeSel se \<lparr>Ndx = ndx, Iflags = ItemTransfer OR ItemMissingData, BasisType = 0, Xname = []\<rparr>)) (\<lambda>_.
    bnd (wr (WriteSumHead nullSumHead (sversion se))) (\<lambda>_.
    bnd (wrapping ''read echoed selector'' (readSel se)) (\<lambda>_.
    bnd (rd (wrapping ''read sum head'' (ReadSumHead (sversion se)))) (\<lambda>sh.
    bnd (rd (pullLoop NewDeltaReader [])) (\<lambda>data.
    bnd (rd (wrapping ''read file checksum''
              (readFull (if sint (S2Length sh) \<le> 0 then 16 else unat (S2Length sh))))) (\<lambda>want.
      if \<not> equalBytes (FileChecksum (shashes se) data (schecksum se) (sversion se) (sseed se)) want
      then fail (Errorf ''checksum mismatch'')
      else ret data))))))"

subsection \<open>Ending the session\<close>

definition writePhaseNdx :: "session \<Rightarrow> (client_conn, unit) io" where
  "writePhaseNdx se c =
    (if 30 \<le> sversion se
     then let (ndx', bs) = WriteNdx (sndx c) NDxDone in (Inr (), c\<lparr>sndx := ndx', cout := cout c @ bs\<rparr>)
     else wr (WriteInt32 NDxDone) c)"

definition readPhaseNdx :: "session \<Rightarrow> (client_conn, unit) io" where
  "readPhaseNdx se =
    (if 29 \<le> sversion se
     then bnd (wrapping ''read NDX_DONE'' (readSel se)) (\<lambda>sel.
            if Ndx sel \<noteq> NDxDone then fail (Errorf ''expected NDX_DONE'') else ret ())
     else bnd (rd (wrapping ''read NDX_DONE'' ReadInt32)) (\<lambda>v.
            if v \<noteq> NDxDone then fail (Errorf ''expected NDX_DONE'') else ret ()))"

fun phaseLoop :: "nat \<Rightarrow> session \<Rightarrow> (client_conn, unit) io" where
  "phaseLoop 0 se = ret ()"
| "phaseLoop (Suc n) se = bnd (writePhaseNdx se) (\<lambda>_. bnd (readPhaseNdx se) (\<lambda>_. phaseLoop n se))"

definition readStats :: "session \<Rightarrow> (src, unit) io" where
  "readStats se =
    bnd (readN (if 29 \<le> sversion se then 5 else 3)
          (wrapping ''read stat'' (if 30 \<le> sversion se then ReadVarlong 3 else ReadLongInt))) (\<lambda>_. ret ())"

definition finalGoodbye :: "session \<Rightarrow> (client_conn, unit) io" where
  "finalGoodbye se =
    (if sversion se < 29 then wr (WriteInt32 NDxDone)
     else bnd (writePhaseNdx se) (\<lambda>_.
       if 31 \<le> sversion se then bnd (readPhaseNdx se) (\<lambda>_. writePhaseNdx se) else ret ()))"

definition finishSession :: "session \<Rightarrow> (client_conn, unit) io" where
  "finishSession se =
    bnd (phaseLoop (maxPhase (sversion se) + 1) se) (\<lambda>_.
    bnd (rd (readStats se)) (\<lambda>_. finalGoodbye se))"

subsection \<open>Entries as files\<close>

record file_info =
  finfoName :: gostring
  finfoMode :: u32
  finfoSize :: i64
  finfoSec :: i64
  finfoNsec :: i32

text \<open>\<^verbatim>\<open>path[strings.LastIndex(path, "/")+1:]\<close>.\<close>

definition baseName :: "gostring \<Rightarrow> gostring" where
  "baseName path = rev (takeWhile (\<lambda>b. b \<noteq> slash) (rev path))"

definition wireModeIsSymlink :: "u32 \<Rightarrow> bool" where
  "wireModeIsSymlink mode \<longleftrightarrow> mode AND 0xF000 = 0xA000"

definition wireModeToFS :: "u32 \<Rightarrow> u32" where
  "wireModeToFS mode =
    (let t = mode AND 0xF000
     in (if t = 0x4000 then ModeDir
         else if t = 0xA000 then ModeSymlink
         else if t = 0x2000 then ModeDevice OR ModeCharDevice
         else if t = 0x6000 then ModeDevice
         else if t = 0x1000 then ModeNamedPipe
         else if t = 0xC000 then ModeSocket
         else 0) OR modePerm (mode AND 0xFFF))"

definition flistInfo :: "gostring \<Rightarrow> flist_entry \<Rightarrow> file_info" where
  "flistInfo name e =
    \<lparr>finfoName = name, finfoMode = wireModeToFS (Mode e),
     finfoSize = (if wireModeIsSymlink (Mode e) then word_of_nat (length (LinkTarget e)) else Size e),
     finfoSec = Mtime e, finfoNsec = ModNsec e\<rparr>"

text \<open>The first entry of that name; its index is only used to fetch it.\<close>

definition findFlistEntry :: "flist_entry list \<Rightarrow> gostring \<Rightarrow> flist_entry option" where
  "findFlistEntry es name = find (\<lambda>e. Name e = name) es"

definition isChild :: "gostring \<Rightarrow> gostring \<Rightarrow> bool" where
  "isChild dirName name \<longleftrightarrow>
    (if dirName = dotName then \<not> (name = dotName \<or> slash \<in> set name)
     else HasPrefix name (dirName @ [slash]) \<and> slash \<notin> set (drop (length dirName + 1) name))"

definition filterFlistChildren :: "flist_entry list \<Rightarrow> gostring \<Rightarrow> flist_entry list" where
  "filterFlistChildren es dirName =
    sortStable (\<lambda>a b. strCompare (baseName (Name a)) (baseName (Name b))) (filter (\<lambda>e. isChild dirName (Name e)) es)"

datatype opened =
    RegularFile file_info "byte list"
  | DirFile file_info "flist_entry list"
  | SymlinkFile file_info gostring

record open_context =
  ctxEntries :: "flist_entry list"
  ctxEntry :: flist_entry
  ctxNdx :: i32
  ctxName :: gostring

definition openFileFromContext :: "session \<Rightarrow> open_context \<Rightarrow> (client_conn, opened) io" where
  "openFileFromContext se ctx =
    (let e = ctxEntry ctx
     in if wireModeIsDir (Mode e)
        then ret (DirFile (flistInfo (baseName (ctxName ctx)) e) (filterFlistChildren (ctxEntries ctx) (ctxName ctx)))
        else if wireModeIsSymlink (Mode e)
        then ret (SymlinkFile (flistInfo (baseName (ctxName ctx)) e) (LinkTarget e))
        else bnd (openFile se (ctxNdx ctx)) (\<lambda>data. ret (RegularFile (flistInfo (baseName (Name e)) e) data)))"

text \<open>
  \<^verbatim>\<open>withEntry\<close> on a live connection: the session is finished whether or not the operation
  succeeded, and an error of the operation takes precedence. A Go map gives 0 for a key it
  does not have.
\<close>

definition withEntry :: "session \<Rightarrow> gostring \<Rightarrow> (open_context \<Rightarrow> (client_conn, 'a) io) \<Rightarrow> (client_conn, 'a) io" where
  "withEntry se name fn =
    bnd (rd (wrapping ''read file list'' (readFileList se))) (\<lambda>es c.
      let ndxByName = sortFlistEntries es (sversion se);
          (res, c') = (case findFlistEntry es name of
             Some e \<Rightarrow> fn \<lparr>ctxEntries = es, ctxEntry = e,
                          ctxNdx = (case ndxByName (Name e) of Some i \<Rightarrow> i | None \<Rightarrow> 0), ctxName = name\<rparr> c
           | None \<Rightarrow> (Inl (Errorf ''file does not exist''), c));
          (fin, c'') = finishSession se c'
      in (case (res, fin) of
            (Inl err, _) \<Rightarrow> Inl err
          | (Inr f, Inl ferr) \<Rightarrow> Inl (Wrap ''finish session'' ferr)
          | (Inr f, Inr _) \<Rightarrow> Inr f, c''))"

text \<open>The operations of the interface in module mode; \<open>valid\<close> is \<^verbatim>\<open>fs.ValidPath\<close>.\<close>

definition Open :: "(gostring \<Rightarrow> bool) \<Rightarrow> session \<Rightarrow> gostring \<Rightarrow> (client_conn, opened) io" where
  "Open valid se name =
    (if \<not> valid name then fail (Errorf ''open: invalid argument'') else withEntry se name (openFileFromContext se))"

definition Lstat :: "(gostring \<Rightarrow> bool) \<Rightarrow> session \<Rightarrow> gostring \<Rightarrow> (client_conn, file_info) io" where
  "Lstat valid se name =
    (if \<not> valid name then fail (Errorf ''lstat: invalid argument'')
     else withEntry se name (\<lambda>ctx. ret (flistInfo (baseName (ctxName ctx)) (ctxEntry ctx))))"

definition ReadLink :: "(gostring \<Rightarrow> bool) \<Rightarrow> session \<Rightarrow> gostring \<Rightarrow> (client_conn, gostring) io" where
  "ReadLink valid se name =
    (if \<not> valid name then fail (Errorf ''readlink: invalid argument'')
     else withEntry se name (\<lambda>ctx.
       if \<not> wireModeIsSymlink (Mode (ctxEntry ctx)) then fail (Errorf ''not a symlink'')
       else ret (LinkTarget (ctxEntry ctx))))"

subsection \<open>Reading an opened file\<close>

text \<open>\<^verbatim>\<open>flistFile.Read\<close> with its offset.\<close>

definition flistFileRead :: "byte list \<Rightarrow> nat \<Rightarrow> nat \<Rightarrow> (go_error + byte list) \<times> nat" where
  "flistFileRead data off n =
    (if length data \<le> off then (Inl EOF, off)
     else (Inr (take n (drop off data)), off + min n (length data - off)))"

text \<open>
  \<^verbatim>\<open>ReadDir\<close> of a directory file over its children: a non-positive count asks for all that is
  left.
\<close>

definition moduleDirReadDir :: "'a list \<Rightarrow> nat \<Rightarrow> int \<Rightarrow> (go_error + 'a list) \<times> nat" where
  "moduleDirReadDir children off n =
    (if length children \<le> off then (if n \<le> 0 then Inr [] else Inl EOF, off)
     else let m = (if n \<le> 0 \<or> int (length children - off) < n then length children - off else nat n)
          in (Inr (take m (drop off children)), off + m))"

end
