(* ===== verification/Client_Connect.thy ===== *)
theory Client_Connect
  imports Handshake Mux_Frames Client_Transfer
begin

text \<open>
  \<^verbatim>\<open>src/client.go\<close> and \<^verbatim>\<open>src/client-connect.go\<close>: the client's side of the handshake, from the
  raw connection to the session the operations of \<open>Client_Transfer\<close> run on. The function
  that computes the authentication response and the one that opens connections are parameters.
\<close>

section \<open>Definitions\<close>

record client =
  cModule :: gostring
  cGreeting :: greeting
  cAuthUser :: gostring
  cAuthResponse :: "(gostring \<Rightarrow> byte list \<Rightarrow> go_error + byte list) option"

definition clientInfo :: gostring where
  "clientInfo = str ''.fxCv''"

definition transferArgstr :: "int \<Rightarrow> gostring" where
  "transferArgstr version = str ''-logDtpr'' @ (if 30 \<le> version then str ''e'' @ clientInfo else [])"

text \<open>The session of \<open>Client_Transfer\<close> with the rest of what the handshake fills in.\<close>

record full_session = session +
  ssubProtocol :: byte
  sdigest :: gostring
  scompatFlags :: flags
  sseedFix :: bool
  smoduleName :: gostring

text \<open>The answer to the module line: challenges are answered until the daemon says OK.\<close>

lemma ReadAuthChallenge_shrinks:
  "ReadAuthChallenge s = (Inr x, s') \<Longrightarrow> length (avail s') < length (avail s)"
proof (induction s rule: ReadAuthChallenge.induct)
  case (1 s)
  obtain res t where l: "readLine s = (res, t)" by (cases "readLine s")
  show ?case
  proof (cases res)
    case (Inr line)
    have t: "length (avail t) < length (avail s)" using consumesD [OF readLine_consumes] l Inr by blast
    with "1.prems" "1.IH" [of res t line] l Inr show ?thesis
      by (auto simp: ReadAuthChallenge.simps [of s] split: option.splits if_splits sum.splits)
  qed (use "1.prems" l in \<open>simp add: ReadAuthChallenge.simps [of s]\<close>)
qed

function authLoop :: "client \<Rightarrow> gostring \<Rightarrow> (conn, unit) io" where
  "authLoop cl digest c =
    (case rd (wrapping ''read server response'' ReadAuthChallenge) c of
       (Inl err, c') \<Rightarrow> (Inl err, c')
     | (Inr None, c') \<Rightarrow> (Inr (), c')
     | (Inr (Some challenge), c') \<Rightarrow>
         (if cAuthUser cl = [] then (Inl (Errorf ''server requires authentication''), c')
          else case cAuthResponse cl of
              None \<Rightarrow> (Inl (Errorf ''server requires authentication''), c')
            | Some response \<Rightarrow>
                (case response digest challenge of
                   Inl err \<Rightarrow> (Inl (Wrap ''compute auth response'' err), c')
                 | Inr digestBytes \<Rightarrow>
                     authLoop cl digest (c'\<lparr>cout := cout c' @ WriteAuthResponse (cAuthUser cl) digestBytes\<rparr>))))"
  by pat_completeness auto
termination
proof (relation "measure (\<lambda>(cl, digest, c). length (avail (cin c)))", goal_cases)
  case (2 cl digest c res c' o' challenge)
  then show ?case
    by (auto simp: rd_def wrapping_def split: prod.splits sum.splits dest!: ReadAuthChallenge_shrinks)
qed simp

declare authLoop.simps [simp del]

definition clientArgs :: "client \<Rightarrow> int \<Rightarrow> gostring list" where
  "clientArgs cl version =
    [str ''--server'', str ''--sender'', transferArgstr version, str ''.'', cModule cl @ str ''/'']"

text \<open>Compat flags and checksum; below protocol 30 nothing is exchanged.\<close>

definition clientNegotiate :: "int \<Rightarrow> (conn, flags \<times> gostring) io" where
  "clientNegotiate version =
    (if 30 \<le> version then
       bnd (rd (wrapping ''read compat flags'' (ReadCompatFlags version))) (\<lambda>compatFlags.
         if has compatFlags CompatVarintFlistFlags
         then bnd (wrapping ''negotiate algorithms'' (NegotiateAlgorithms SupportedDigests [])) (\<lambda>algos.
                ret (compatFlags, algChecksum algos))
         else ret (compatFlags, algChecksum (DefaultAlgorithms version)))
     else ret (0, algChecksum (DefaultAlgorithms version)))"

text \<open>
  The seed comes raw from protocol 23 on and inside the daemon's frames before; what follows
  it is the payload of those frames in any case.
\<close>

definition clientSeed :: "int \<Rightarrow> src \<Rightarrow> (go_error + i32) \<times> src" where
  "clientSeed version s =
    (if version < 23 then wrapping ''read checksum seed'' ReadChecksumSeed (demux s)
     else case wrapping ''read checksum seed'' ReadChecksumSeed s of (res, s') \<Rightarrow> (res, demux s'))"

text \<open>
  The handshake. On success the raw connection is as it was left, and the second result is
  the connection of the session: the daemon's payload on the way in, and on the way out
  (frames from protocol 30 on, plain bytes before) the empty filter list.
\<close>

definition runHandshake :: "hashes \<Rightarrow> client \<Rightarrow> (conn, full_session \<times> client_conn) io" where
  "runHandshake H cl =
    (let greet = ApplyDefaults (cGreeting cl)
     in bnd (wr (WriteGreeting greet)) (\<lambda>_.
        bnd (rd (wrapping ''read server greeting'' ReadGreeting)) (\<lambda>serverGreet.
          case Negotiate greet serverGreet of
            Inl err \<Rightarrow> fail (Wrap ''negotiate protocol version'' err)
          | Inr (version, subProtocol, digest) \<Rightarrow>
              bnd (wr (WriteModuleRequest (cModule cl))) (\<lambda>_.
              bnd (authLoop cl digest) (\<lambda>_.
              bnd (wr (WriteArgs (clientArgs cl version) version)) (\<lambda>_.
              bnd (clientNegotiate version) (\<lambda>(compatFlags, checksum) c.
                case clientSeed version (cin c) of
                  (Inl err, s') \<Rightarrow> (Inl err, c)
                | (Inr seed, s') \<Rightarrow>
                    (Inr (\<lparr>sversion = version, shashes = H, schecksum = checksum, sseed = seed,
                           svarintFlist = has compatFlags CompatVarintFlistFlags,
                           sid0Names = has compatFlags CompatId0Names,
                           ssubProtocol = subProtocol, sdigest = digest, scompatFlags = compatFlags,
                           sseedFix = has compatFlags CompatChksumSeedFix, smoduleName = cModule cl\<rparr>,
                          \<lparr>cin = s', cout = WriteInt32 0, sndx = NewNdxState, srecvNdx = NewNdxState\<rparr>), c)))))))) "

text \<open>\<^verbatim>\<open>Connect\<close> and \<^verbatim>\<open>OpenRoot\<close>: \<open>rw\<close> is the connection given, \<open>connectFunc\<close> the one that makes one.\<close>

definition Connect :: "hashes \<Rightarrow> client \<Rightarrow> conn option \<Rightarrow> (gostring \<Rightarrow> go_error + conn) option \<Rightarrow>
    go_error + full_session \<times> client_conn" where
  "Connect H cl rw connectFunc =
    (if cModule cl = [] then Inl (Errorf ''Module is empty; use OpenRoot for root mode'')
     else case (case rw of
                  Some c \<Rightarrow> Inr c
                | None \<Rightarrow> (case connectFunc of
                      None \<Rightarrow> Inl (Errorf ''Connect called with nil io.ReadWriter but ConnectFunc is not set'')
                    | Some f \<Rightarrow> (case f (cModule cl) of Inl err \<Rightarrow> Inl (Wrap ''ConnectFunc'' err) | Inr c \<Rightarrow> Inr c))) of
            Inl err \<Rightarrow> Inl err
          | Inr c \<Rightarrow> fst (runHandshake H cl c))"

definition OpenRoot :: "client \<Rightarrow> bool \<Rightarrow> go_error + int \<times> gostring" where
  "OpenRoot cl hasConnectFunc =
    (if cModule cl \<noteq> [] then Inl (Errorf ''OpenRoot requires Module to be empty'')
     else if \<not> hasConnectFunc then Inl (Errorf ''root mode requires ConnectFunc'')
     else let greet = ApplyDefaults (cGreeting cl) in Inr (Version greet, hd (Digests greet)))"

end
