(* ===== verification/Session_Exchange.thy ===== *)
theory Session_Exchange
  imports Client_Transfer
begin

text \<open>
  The client of \<open>Client_Transfer\<close> and the server of \<open>Server_Send\<close> against each other: what
  each side reads is what the other wrote. The file list, its trailer, a pulled file, the
  phase exchange, the statistics and the goodbye are matched one by one; the root theory
  puts them together.
\<close>

section \<open>Configurations that fit\<close>

text \<open>
  What the handshake establishes: same protocol version and flags, same checksum, the
  client's fixed request (owner, group, devices, links, no hard links), and varint flags
  only from protocol 30 on.
\<close>

definition fits :: "transfer_state \<Rightarrow> session \<Rightarrow> bool" where
  "fits st se \<longleftrightarrow>
     sversion se = ver st \<and> svarintFlist se = varint st \<and> sid0Names se = tid0Names st \<and>
     tconf st = \<lparr>hashFns = shashes se, digestName = schecksum se, hseed = sseed se, hseedFix = hseedFix (tconf st)\<rparr> \<and>
     tpreserve st = (True, True) \<and> tpreserveLinks st \<and> tpreserveDevices st \<and> \<not> tpreserveHlinks st \<and>
     (varint st \<longrightarrow> 30 \<le> ver st)"

lemma in_sync_fits: "fits st se \<Longrightarrow> in_sync (flistWriterOf st) (clientFlistReader se)"
  by (simp add: fits_def in_sync_def flistWriterOf_def clientFlistReader_def NewFlistWriter_def NewFlistReader_def
      SetID0Names_def SetPreserveHardlinks_def SetPreserveLinks_def SetPreserveDevices_def SetPreserveGID_def
      SetPreserveUID_def)

lemma flistWriterOf_conf:
  assumes "fits st se"
  shows "fversion (flistWriterOf st) = ver st" "id0Names (flistWriterOf st) = tid0Names st"
    "preserveUID (flistWriterOf st)" "preserveGID (flistWriterOf st)"
  using assms
  by (simp_all add: fits_def flistWriterOf_def NewFlistWriter_def SetID0Names_def SetPreserveHardlinks_def
      SetPreserveLinks_def SetPreserveDevices_def SetPreserveGID_def SetPreserveUID_def)

section \<open>The file list\<close>

lemma entryLoop_list:
  assumes "in_sync w r" and "ok_all WriteEntry entry_ok w es"
  shows "entryLoop r acc (Src (snd (enc_all WriteEntry w es) @ WriteEndMarker (fst (enc_all WriteEntry w es)) @ rest) e) =
    (Inr (acc @ view_all WriteEntry entry_view w es), Src rest e)"
  using assms
proof (induction es arbitrary: w r acc)
  case Nil
  then show ?case by (simp add: entryLoop.simps [of r] ReadEntry_EndMarker)
next
  case (Cons x es)
  obtain w1 bs where enc1: "WriteEntry w x = (w1, bs)" by (cases "WriteEntry w x")
  obtain w2 bs' where enc2: "enc_all WriteEntry w1 es = (w2, bs')" by (cases "enc_all WriteEntry w1 es")
  from flist.dec_step [OF Cons.prems(1), of x "bs' @ WriteEndMarker w2 @ rest" e] Cons.prems(2)
  obtain r' where r': "ReadEntry r (Src (bs @ bs' @ WriteEndMarker w2 @ rest) e) =
      (Inr (entry_view w x, r'), Src (bs' @ WriteEndMarker w2 @ rest) e)" "in_sync w1 r'"
    by (auto simp: enc1)
  have "ok_all WriteEntry entry_ok w1 es" using Cons.prems(2) by (simp add: enc1)
  from Cons.IH [OF r'(2) this, of "acc @ [entry_view w x]"] r'(1) show ?case
    by (simp add: enc1 enc2 entryLoop.simps [of r])
qed

lemma WriteEntry_keeps:
  "id0Names (fst (WriteEntry w e)) = id0Names w" "preserveUID (fst (WriteEntry w e)) = preserveUID w"
  "preserveGID (fst (WriteEntry w e)) = preserveGID w"
  by (simp_all add: WriteEntry_def computeXflags_def Let_def split: prod.splits)

lemma enc_all_keeps:
  "fversion (fst (enc_all WriteEntry w es)) = fversion w \<and>
   id0Names (fst (enc_all WriteEntry w es)) = id0Names w \<and>
   preserveUID (fst (enc_all WriteEntry w es)) = preserveUID w \<and>
   preserveGID (fst (enc_all WriteEntry w es)) = preserveGID w"
proof (induction es arbitrary: w)
  case (Cons x es)
  from Cons [of "fst (WriteEntry w x)"] show ?case
    by (simp add: WriteEntry_keeps WriteEntry_conf case_prod_beta)
qed simp

lemma reads_idLoop: "reads (idLoop se) (if 30 \<le> sversion se then WriteVarint 0 else WriteInt32 0) ()"
  unfolding reads_def by (subst idLoop.simps) (simp add: readIDVarint_def codec_simps)

lemma reads_readIDList:
  "reads (readIDList se) ((if 30 \<le> sversion se then WriteVarint 0 else WriteInt32 0) @ (if sid0Names se then [0] else [])) ()"
  unfolding readIDList_def
  by (rule reads_bnd [OF reads_idLoop]) (simp add: reads_def skipIDName_def bnd_def)

lemma reads_readFlistTrailer:
  assumes "fversion fw = sversion se" "id0Names fw = sid0Names se" "preserveUID fw" "preserveGID fw"
    and "svarintFlist se \<longrightarrow> 30 \<le> sversion se"
  shows "reads (readFlistTrailer se) (WriteIDLists fw @ WriteIOErrorTrailer fw 0) ()"
proof -
  let ?l = "(if 30 \<le> sversion se then WriteVarint 0 else WriteInt32 0) @ (if sid0Names se then [0] else [])"
  have w: "WriteIDLists fw @ WriteIOErrorTrailer fw 0 = ?l @ ?l @ (if sversion se < 30 then WriteInt32 0 else [])"
    using assms by (simp add: WriteIDLists_def WriteIOErrorTrailer_def)
  have io: "reads (if \<not> svarintFlist se \<and> sversion se < 30
      then bnd (wrapping ''read io_error trailer'' ReadInt32) (\<lambda>_. ret ()) else ret ())
      (if sversion se < 30 then WriteInt32 0 else []) ()"
    using assms(5) by (auto simp: reads_ret intro!: reads_bnd_last [OF reads_wrapping [OF reads_ints(1)]])
  show ?thesis
    unfolding w readFlistTrailer_def
    by (rule reads_bnd [OF reads_wrapping [OF reads_readIDList]], rule reads_bnd [OF reads_wrapping [OF reads_readIDList]])
       (rule io)
qed

definition flistBytes :: "transfer_state \<Rightarrow> byte list" where
  "flistBytes st = cout (snd (sendFileList st \<lparr>cin = Src [] EOF, cout = []\<rparr>))"

lemma sendFileList_bytes: "sendFileList st c = (Inr (), c\<lparr>cout := cout c @ flistBytes st\<rparr>)"
  by (simp add: flistBytes_def sendFileList_def wr_def case_prod_beta)

abbreviation arrived :: "transfer_state \<Rightarrow> flist_entry list" where
  "arrived st \<equiv> view_all WriteEntry entry_view (flistWriterOf st) (map toWire (entries st))"

lemma reads_readFileList:
  assumes "fits st se" and "ok_all WriteEntry entry_ok (flistWriterOf st) (map toWire (entries st))"
  shows "reads (readFileList se) (flistBytes st) (arrived st)"
proof -
  let ?w = "flistWriterOf st" and ?es = "map toWire (entries st)"
  obtain fw bs where e: "enc_all WriteEntry ?w ?es = (fw, bs)" by (cases "enc_all WriteEntry ?w ?es")
  have fb: "flistBytes st = (bs @ WriteEndMarker fw) @ (WriteIDLists fw @ WriteIOErrorTrailer fw 0)"
    by (simp add: flistBytes_def sendFileList_def wr_def e)
  have l: "reads (entryLoop (clientFlistReader se) []) (bs @ WriteEndMarker fw) (arrived st)"
    using entryLoop_list [OF in_sync_fits [OF assms(1)] assms(2), of "[]"] by (simp add: reads_def e)
  have k: "fversion fw = ver st" "id0Names fw = tid0Names st" "preserveUID fw" "preserveGID fw"
    using enc_all_keeps [of ?w ?es, unfolded e fst_conv] flistWriterOf_conf [OF assms(1)] by simp_all
  have t: "reads (readFlistTrailer se) (WriteIDLists fw @ WriteIOErrorTrailer fw 0) ()"
    using k assms(1) by (intro reads_readFlistTrailer) (simp_all add: fits_def)
  show ?thesis
    unfolding readFileList_def fb
    by (rule reads_bnd [OF l], rule reads_bnd_last [OF t]) (rule reads_ret)
qed

section \<open>Pulling a file\<close>

text \<open>The two digests are sixteen bytes long.\<close>

definition hashes_ok :: "hashes \<Rightarrow> bool" where
  "hashes_ok H \<longleftrightarrow> (\<forall>x. length (md4 H x) = 16 \<and> length (md5 H x) = 16)"

lemma FileChecksum_length:
  "hashes_ok H \<Longrightarrow> digest \<in> set SupportedDigests \<Longrightarrow> length (FileChecksum H data digest v seed) = 16"
  by (auto simp: hashes_ok_def FileChecksum_def SupportedDigests_def)

definition transferSel :: "i32 \<Rightarrow> selector" where
  "transferSel i = \<lparr>Ndx = i, Iflags = ItemTransfer OR ItemMissingData, BasisType = 0, Xname = []\<rparr>"

lemma bit_transfer_flags: "bit (ItemTransfer OR ItemMissingData) n \<longleftrightarrow> n = 15 \<or> n = 16"
  unfolding item_defs by (auto simp only: bit_or_iff bit_flag rel_simps)

lemma bit_items: "bit ItemTransfer n \<longleftrightarrow> n = 15" "bit ItemMissingData n \<longleftrightarrow> n = 16" "bit ItemIsNew n \<longleftrightarrow> n = 13"
  unfolding item_defs by (simp_all only: bit_flag rel_simps)

lemma has_item:
  "has x ItemTransfer \<longleftrightarrow> bit x 15" "has x ItemBasisTypeFollows \<longleftrightarrow> bit x 11" "has x ItemXnameFollows \<longleftrightarrow> bit x 12"
  unfolding item_defs by (simp_all only: has_push_bit rel_simps)

lemma transferSel_ok: "0 \<le> sint i \<Longrightarrow> sel_ok v (transferSel i)"
  by (simp add: sel_ok_def transferSel_def ndx_ok_def has_item bit_transfer_flags)

lemma echoSel_flags:
  assumes "0 \<le> sint i"
  shows "Ndx (sel_view v (transferSel i)) = i" "has (Iflags (sel_view v (transferSel i))) ItemTransfer"
    "sel_ok v (sel_view v (transferSel i))"
    "Iflags (sel_view v (transferSel i)) \<noteq> ItemIsNew"
proof -
  have b: "bit (Iflags (sel_view v (transferSel i))) n \<longleftrightarrow> n = 15 \<or> n = 16 \<and> v < 29" for n
    using assms
    by (auto simp: sel_view_def transferSel_def sel_wire_flags_def bit_simps bit_items not_le)
  show "Ndx (sel_view v (transferSel i)) = i" by (simp add: sel_view_def transferSel_def)
  then show "has (Iflags (sel_view v (transferSel i))) ItemTransfer" "sel_ok v (sel_view v (transferSel i))"
    using assms by (simp_all add: has_item b sel_ok_def ndx_ok_def)
  show "Iflags (sel_view v (transferSel i)) \<noteq> ItemIsNew" using b [of 13] bit_items(3) [of 13] by auto
qed

lemma reads_nullHead: "reads (ReadSumHead v) (WriteSumHead nullSumHead v) nullSumHead"
proof -
  have "sum_ok v nullSumHead" "sum_view v nullSumHead = nullSumHead"
    by (simp_all add: sum_ok_def sum_view_def nullSumHead_def maxBlockLength_def MaxStrongHashLength_def)
  then show ?thesis by (intro sumhead.reads_enc) simp
qed

lemma reads_nullSums: "reads (receiveSums v) (WriteSumHead nullSumHead v) (nullSumHead, [])"
  unfolding receiveSums_def
  by (rule reads_bnd_last [OF reads_wrapping [OF reads_nullHead]]) (simp add: nullSumHead_def reads_ret)

text \<open>The client's token loop is the parser with the literals put together.\<close>

lemma pullLoop_parse:
  "pullLoop dr (rebuild (\<lambda>_. []) toks) s =
    (case parseDelta dr toks s of
       (Inl err, s') \<Rightarrow> (Inl (Wrap ''read delta'' err), s')
     | (Inr ts, s') \<Rightarrow> (Inr (rebuild (\<lambda>_. []) ts), s'))"
proof (induction dr toks s rule: parseDelta.induct)
  case (1 dr toks s)
  show ?case
  proof (cases "ReadToken dr s")
    case (Pair res s')
    show ?thesis
    proof (cases res)
      case (Inl err)
      then show ?thesis using Pair by (simp add: pullLoop.simps [of dr] parseDelta.simps [of dr])
    next
      case (Inr x)
      obtain lit bi en dr' where x: "x = ((lit, bi, en), dr')" by (metis prod.collapse)
      have R: "ReadToken dr s = (Inr ((lit, bi, en), dr'), s')" using Pair Inr x by simp
      show ?thesis
      proof (cases en)
        case True
        then show ?thesis using R by (simp add: pullLoop.simps [of dr] parseDelta.simps [of dr])
      next
        case False
        show ?thesis
        proof (cases lit)
          case None
          have "rebuild (\<lambda>_. []) (toks @ [BlockIdx bi]) = rebuild (\<lambda>_. []) toks" by (simp add: rebuild_def)
          with "1.IH"(1) [OF R [symmetric] refl refl refl refl False None] show ?thesis
            using R False None by (simp add: pullLoop.simps [of dr] parseDelta.simps [of dr])
        next
          case (Some d)
          have "rebuild (\<lambda>_. []) (toks @ [Literal d]) = rebuild (\<lambda>_. []) toks @ d" by (simp add: rebuild_def)
          with "1.IH"(2) [OF R [symmetric] refl refl refl refl False Some] show ?thesis
            using R False Some by (simp add: pullLoop.simps [of dr] parseDelta.simps [of dr])
        qed
      qed
    qed
  qed
qed

lemma reads_pullLoop: "reads (pullLoop NewDeltaReader []) (WriteLiteral data @ WriteEnd) data"
proof -
  have r: "rebuild (\<lambda>_. []) [Literal data] = data" by (simp add: rebuild_def)
  have p: "parseDelta NewDeltaReader [] (Src (WriteLiteral data @ WriteEnd @ rest) e) =
      (Inr (concat (map token_view [Literal data])), Src rest e)" for rest e
    using ParseDelta_WriteDelta [of "[Literal data]" rest e]
    by (simp add: ParseDeltaStream_def WriteDeltaStream_def)
  show ?thesis
    using pullLoop_parse [of NewDeltaReader "[]"] rebuild_views [of "\<lambda>_. []" "[Literal data]"]
    by (simp add: reads_def p r rebuild_def)
qed

lemma rd_reads:
  "reads m bs x \<Longrightarrow> cin c = Src (bs @ rest) e \<Longrightarrow> rd m c = (Inr x, c\<lparr>cin := Src rest e\<rparr>)"
  by (simp add: rd_def readsD)

lemma bnd_eq: "m s = (Inr x, s') \<Longrightarrow> f x s' = r \<Longrightarrow> bnd m f s = r"
  by (simp add: bnd_Inr)

lemma reads_ReadSelector:
  "sel_ok v sel \<Longrightarrow> WriteSelector v ndx sel = (res, ndx', bs) \<Longrightarrow> reads (ReadSelector v ndx) bs (sel_view v sel, ndx')"
  using ReadSelector_WriteSelector by (simp add: reads_def)

text \<open>What the server sends for one pulled file: the echoed selector, the head, the data and its checksum.\<close>

definition fileReply :: "session \<Rightarrow> byte list \<Rightarrow> byte list \<Rightarrow> byte list" where
  "fileReply se echo data =
    echo @ WriteSumHead nullSumHead (sversion se) @ (WriteLiteral data @ WriteEnd) @
    FileChecksum (shashes se) data (schecksum se) (sversion se) (sseed se)"

lemma matchSums_null:
  assumes "fits st se"
  shows "matchSums (tconf st) (ver st) data nullSumHead [] =
    Inr ((WriteLiteral data @ WriteEnd) @ FileChecksum (shashes se) data (schecksum se) (sversion se) (sseed se))"
proof -
  have t: "hashFns (tconf st) = shashes se" "digestName (tconf st) = schecksum se" "hseed (tconf st) = sseed se"
    "ver st = sversion se"
    using assms unfolding fits_def by (metis hash_conf.select_convs)+
  have "matchTokens (tconf st) data nullSumHead [] = Inr [Literal data]"
    by (simp add: matchTokens_def nullSumHead_def)
  then show ?thesis by (simp add: matchSums_def t)
qed

lemma sendFile_null:
  assumes f: "fits st se" and reg: "modeIsRegular (fmode entry)" "fsRead (fname entry) = Inr data"
    and s: "sel_ok (ver st) sel" "WriteSelector (ver st) m sel = (res, m', echo)"
  shows "sendFile fsRead st entry sel m \<lparr>cin = Src (WriteSumHead nullSumHead (ver st) @ rest) e, cout = out\<rparr> =
    (Inr m', \<lparr>cin = Src rest e, cout = out @ fileReply se echo data\<rparr>)"
proof -
  have v: "ver st = sversion se" using f by (simp add: fits_def)
  have r: "res = Inr ()" using ReadSelector_WriteSelector [OF s] by simp
  have "rd (receiveSums (ver st)) \<lparr>cin = Src (WriteSumHead nullSumHead (ver st) @ rest) e, cout = out\<rparr> =
      (Inr (nullSumHead, []), \<lparr>cin = Src rest e, cout = out\<rparr>)"
    by (subst rd_reads [OF reads_nullSums]) simp_all
  then show ?thesis
    by (simp add: sendFile_def bnd_def reg echoSelector_def s(2) r wr_def matchSums_null [OF f] fileReply_def v [symmetric])
qed

lemma sendStep_transfer:
  assumes f: "fits st se" and i: "i < length (entries st)" "length (entries st) < 2 ^ 31"
    and reg: "modeIsRegular (fmode (entries st ! i))" "fsRead (fname (entries st ! i)) = Inr data"
    and p: "phase \<noteq> 2"
    and req: "WriteSelector (ver st) n (transferSel (word_of_nat i)) = (r1, n', request)"
    and echo: "WriteSelector (ver st) m (sel_view (ver st) (transferSel (word_of_nat i))) = (r2, m', echo)"
  shows "sendStep fsRead st (n, m, phase)
      \<lparr>cin = Src (request @ WriteSumHead nullSumHead (ver st) @ rest) e, cout = out\<rparr> =
    (Inr (Some (n', m', phase), m'), \<lparr>cin = Src rest e, cout = out @ fileReply se echo data\<rparr>)"
proof -
  let ?i = "word_of_nat i :: i32"
  have si: "sint ?i = int i" "unat ?i = i"
    using i by (simp_all add: sint_word_of_nat unat_of_nat take_bit_nat_eq_self)
  then have nn: "0 \<le> sint ?i" by simp
  note ef = echoSel_flags [OF nn, of "ver st"]
  have ne: "?i \<noteq> NDxDone" "?i \<noteq> NDXFlistEOF" "?i \<noteq> ndxDelStats"
    using nn by (auto simp: ndxDelStats_def)
  have nl: "\<not> int (length (entries st)) \<le> sint ?i" using si i by simp
  have "rd (wrapping ''read selector'' (ReadSelector (ver st) n))
      \<lparr>cin = Src (request @ WriteSumHead nullSumHead (ver st) @ rest) e, cout = out\<rparr> =
      (Inr (sel_view (ver st) (transferSel ?i), n'), \<lparr>cin = Src (WriteSumHead nullSumHead (ver st) @ rest) e, cout = out\<rparr>)"
    by (subst rd_reads [OF reads_wrapping [OF reads_ReadSelector [OF transferSel_ok [OF nn] req]]]) simp_all
  with sendFile_null [where fsRead = fsRead, OF f reg ef(3) echo] show ?thesis
    using ne nl nn p by (simp add: sendStep_def bnd_def ef(1,2,4) si Let_def)
qed

lemma openFile_reply:
  assumes h: "hashes_ok (shashes se)" "schecksum se \<in> set SupportedDigests"
    and i: "0 \<le> sint i"
    and req: "WriteSelector (sversion se) (sndx c) (transferSel i) = (r1, n', request)"
    and echo: "WriteSelector (sversion se) (srecvNdx c) (sel_view (sversion se) (transferSel i)) = (r2, m', echo)"
    and c: "cin c = Src (fileReply se echo data @ rest) e"
  shows "openFile se i c =
    (Inr data, c\<lparr>cin := Src rest e, sndx := n', srecvNdx := m',
       cout := cout c @ request @ WriteSumHead nullSumHead (sversion se)\<rparr>)"
proof -
  let ?sum = "FileChecksum (shashes se) data (schecksum se) (sversion se) (sseed se)"
  have r1: "r1 = Inr ()" using ReadSelector_WriteSelector [OF transferSel_ok [OF i] req] by simp
  have rs: "ReadSelector (sversion se) (srecvNdx c) (Src (echo @ q) e) =
      (Inr (sel_view (sversion se) (sel_view (sversion se) (transferSel i)), m'), Src q e)" for q
    using readsD [OF reads_ReadSelector [OF echoSel_flags(3) [OF i] echo]] .
  have head: "rd (wrapping ''read sum head'' (ReadSumHead (sversion se))) d = (Inr nullSumHead, d\<lparr>cin := Src q e\<rparr>)"
    if "cin d = Src (WriteSumHead nullSumHead (sversion se) @ q) e" for d :: client_conn and q
    using rd_reads [OF reads_wrapping [OF reads_nullHead] that] .
  have pull: "rd (pullLoop NewDeltaReader []) d = (Inr data, d\<lparr>cin := Src q e\<rparr>)"
    if "cin d = Src ((WriteLiteral data @ WriteEnd) @ q) e" for d :: client_conn and q
    using rd_reads [OF reads_pullLoop that] .
  have sum: "rd (wrapping ''read file checksum'' (readFull 16)) d = (Inr ?sum, d\<lparr>cin := Src q e\<rparr>)"
    if "cin d = Src (?sum @ q) e" for d :: client_conn and q
    using rd_reads [OF reads_wrapping [OF reads_readFull] that] FileChecksum_length [OF h] by simp
  have n16: "(if sint (S2Length nullSumHead) \<le> 0 then 16 else unat (S2Length nullSumHead)) = 16"
    by (simp add: nullSumHead_def)
  have w: "wrapping ''write selector'' (writeSel se (transferSel i)) c =
      (Inr (), c\<lparr>sndx := n', cout := cout c @ request\<rparr>)"
    by (simp add: wrapping_def writeSel_def req r1)
  have e: "wrapping ''read echoed selector'' (readSel se) d =
      (Inr (sel_view (sversion se) (sel_view (sversion se) (transferSel i))), d\<lparr>cin := Src q e, srecvNdx := m'\<rparr>)"
    if "cin d = Src (echo @ q) e" "srecvNdx d = srecvNdx c" for d q
    using that by (simp add: wrapping_def readSel_def rs)
  show ?thesis
    unfolding openFile_def transferSel_def [symmetric]
    by (rule bnd_eq, rule w, rule bnd_eq, rule wr_def,
        rule bnd_eq, rule e [where q = "WriteSumHead nullSumHead (sversion se) @ (WriteLiteral data @ WriteEnd) @ ?sum @ rest"],
        simp add: c fileReply_def, simp,
        rule bnd_eq, rule head [where q = "(WriteLiteral data @ WriteEnd) @ ?sum @ rest"], simp,
        rule bnd_eq, rule pull [where q = "?sum @ rest"], simp,
        unfold n16, rule bnd_eq, rule sum [where q = rest], simp) simp
qed

section \<open>Ending the session\<close>

text \<open>\<^verbatim>\<open>NDX_DONE\<close> as either side writes it; it leaves the index states alone.\<close>

definition doneBytes :: "int \<Rightarrow> byte list" where
  "doneBytes v = (if 30 \<le> v then [0] else WriteInt32 NDxDone)"

abbreviation dones :: "int \<Rightarrow> nat \<Rightarrow> byte list" where
  "dones v k \<equiv> concat (replicate k (doneBytes v))"

definition doneSel :: selector where
  "doneSel = \<lparr>Ndx = NDxDone, Iflags = ItemTransfer OR ItemMissingData, BasisType = 0, Xname = []\<rparr>"

lemma Ndx_doneSel [simp]: "Ndx doneSel = NDxDone"
  by (simp add: doneSel_def)

lemma WriteNdx_done: "WriteNdx s NDxDone = (s, [0])"
  by (simp add: WriteNdx_def)

lemma echoNdx_done: "echoNdx v m NDxDone c = (Inr m, c\<lparr>cout := cout c @ doneBytes v\<rparr>)"
  by (simp add: echoNdx_def WriteNdx_done bnd_def wr_def doneBytes_def)

lemma writePhaseNdx_done: "writePhaseNdx se c = (Inr (), c\<lparr>cout := cout c @ doneBytes (sversion se)\<rparr>)"
  by (simp add: writePhaseNdx_def WriteNdx_done wr_def doneBytes_def)

lemma reads_done_ndx: "30 \<le> v \<Longrightarrow> reads (ReadNdx n) (doneBytes v) (NDxDone, n)"
  by (simp add: reads_def doneBytes_def ReadNdx_def bnd_def)

lemma reads_done: "reads (ReadSelector v n) (doneBytes v) (doneSel, n)"
proof -
  have f: "\<not> has (ItemTransfer OR ItemMissingData) ItemBasisTypeFollows" "\<not> has (ItemTransfer OR ItemMissingData) ItemXnameFollows"
    by (simp_all add: has_item bit_transfer_flags)
  have "reads (if 30 \<le> v then ReadNdx n else bnd ReadInt32 (\<lambda>v. ret (v, n))) (doneBytes v) (NDxDone, n)"
  proof (cases "30 \<le> v")
    case False
    then show ?thesis by (auto simp: doneBytes_def reads_ret intro: reads_bnd_last [OF reads_ints(1)])
  qed (simp add: reads_done_ndx)
  then show ?thesis
    unfolding ReadSelector_def by (rule reads_bnd_last) (simp add: f doneSel_def reads_def)
qed

subsection \<open>The server's side\<close>

lemma sendStep_done:
  "sendStep fsRead st (n, m, phase) \<lparr>cin = Src (doneBytes (ver st) @ rest) e, cout = out\<rparr> =
    (if maxPhase (ver st) < phase + 1 then (Inr (None, m), \<lparr>cin = Src rest e, cout = out\<rparr>)
     else (Inr (Some (n, m, phase + 1), m), \<lparr>cin = Src rest e, cout = out @ doneBytes (ver st)\<rparr>))"
proof -
  have "rd (wrapping ''read selector'' (ReadSelector (ver st) n)) \<lparr>cin = Src (doneBytes (ver st) @ rest) e, cout = out\<rparr> =
      (Inr (doneSel, n), \<lparr>cin = Src rest e, cout = out\<rparr>)"
    by (subst rd_reads [OF reads_wrapping [OF reads_done]]) simp_all
  then show ?thesis by (simp add: sendStep_def bnd_def echoNdx_done)
qed

lemma sendLoop_done:
  "maxPhase (ver st) = phase + k \<Longrightarrow>
   sendLoop (Suc k) fsRead st (n, m, phase) \<lparr>cin = Src (dones (ver st) (Suc k) @ rest) e, cout = out\<rparr> =
     Some (Inr m, \<lparr>cin = Src rest e, cout = out @ dones (ver st) k\<rparr>)"
proof (induction k arbitrary: phase out)
  case (Suc k)
  have "sendStep fsRead st (n, m, phase) \<lparr>cin = Src (doneBytes (ver st) @ dones (ver st) (Suc k) @ rest) e, cout = out\<rparr> =
      (Inr (Some (n, m, phase + 1), m), \<lparr>cin = Src (dones (ver st) (Suc k) @ rest) e, cout = out @ doneBytes (ver st)\<rparr>)"
    using Suc.prems by (subst sendStep_done) simp
  with Suc.IH [of "phase + 1" "out @ doneBytes (ver st)"] Suc.prems show ?case
    by (subst sendLoop.simps) simp
qed (simp add: sendStep_done)

lemma sendLoop_more: "sendLoop n fsRead st vars c = Some r \<Longrightarrow> sendLoop (n + k) fsRead st vars c = Some r"
  by (induction n fsRead st vars c rule: sendLoop.induct) (auto split: prod.splits sum.splits option.splits)

lemma sendFiles_loop:
  assumes "sendLoop n fsRead st (NewNdxState, NewNdxState, 0) c = Some (Inr m, c')"
  shows "sendFiles fsRead st c = (Inr (), c'\<lparr>cout := cout c' @ doneBytes (ver st)\<rparr>)"
proof -
  let ?l = "Suc (length (avail (cin c)))"
  obtain r where r: "sendLoop ?l fsRead st (NewNdxState, NewNdxState, 0) c = Some r"
    using sendLoop_returns [of c ?l fsRead st] by blast
  from sendLoop_more [OF assms, of ?l] sendLoop_more [OF r, of n] have "r = (Inr m, c')" by (simp add: add.commute)
  with r show ?thesis by (simp add: sendFiles_def bnd_def echoNdx_done)
qed

lemma sendFiles_idle:
  "sendFiles fsRead st \<lparr>cin = Src (dones (ver st) (maxPhase (ver st) + 1) @ rest) e, cout = out\<rparr> =
    (Inr (), \<lparr>cin = Src rest e, cout = out @ dones (ver st) (maxPhase (ver st) + 1)\<rparr>)"
proof -
  let ?k = "maxPhase (ver st)"
  have "sendLoop (Suc ?k) fsRead st (NewNdxState, NewNdxState, 0) \<lparr>cin = Src (dones (ver st) (?k + 1) @ rest) e, cout = out\<rparr> =
      Some (Inr NewNdxState, \<lparr>cin = Src rest e, cout = out @ dones (ver st) ?k\<rparr>)"
    using sendLoop_done [where phase = 0 and k = ?k and st = st] by simp
  from sendFiles_loop [OF this] show ?thesis by (simp flip: replicate_append_same)
qed

lemma sendFiles_transfer:
  assumes f: "fits st se" and i: "i < length (entries st)" "length (entries st) < 2 ^ 31"
    and reg: "modeIsRegular (fmode (entries st ! i))" "fsRead (fname (entries st ! i)) = Inr data"
    and req: "WriteSelector (ver st) NewNdxState (transferSel (word_of_nat i)) = (r1, n', request)"
    and echo: "WriteSelector (ver st) NewNdxState (sel_view (ver st) (transferSel (word_of_nat i))) = (r2, m', echo)"
  shows "sendFiles fsRead st
      \<lparr>cin = Src (request @ WriteSumHead nullSumHead (ver st) @ dones (ver st) (maxPhase (ver st) + 1) @ rest) e, cout = out\<rparr> =
    (Inr (), \<lparr>cin = Src rest e, cout = out @ fileReply se echo data @ dones (ver st) (maxPhase (ver st) + 1)\<rparr>)"
proof -
  let ?k = "maxPhase (ver st)"
  have "sendLoop (Suc ?k) fsRead st (n', m', 0) \<lparr>cin = Src (dones (ver st) (?k + 1) @ rest) e, cout = out @ fileReply se echo data\<rparr> =
      Some (Inr m', \<lparr>cin = Src rest e, cout = (out @ fileReply se echo data) @ dones (ver st) ?k\<rparr>)"
    using sendLoop_done [where phase = 0 and k = ?k and st = st] by simp
  then have "sendLoop (Suc (Suc ?k)) fsRead st (NewNdxState, NewNdxState, 0)
      \<lparr>cin = Src (request @ WriteSumHead nullSumHead (ver st) @ dones (ver st) (?k + 1) @ rest) e, cout = out\<rparr> =
      Some (Inr m', \<lparr>cin = Src rest e, cout = (out @ fileReply se echo data) @ dones (ver st) ?k\<rparr>)"
    using sendStep_transfer [where phase = 0 and fsRead = fsRead, OF f i reg _ req echo] by (subst sendLoop.simps) simp
  from sendFiles_loop [OF this] show ?thesis by (simp flip: replicate_append_same)
qed

definition statBytes :: "transfer_state \<Rightarrow> byte list" where
  "statBytes st = concat (map (writeStat (ver st)) (statValues st))"

definition goodbyeBytes :: "int \<Rightarrow> byte list" where
  "goodbyeBytes v = doneBytes v @ (if 31 \<le> v then doneBytes v else [])"

lemma firstGoodbye_done:
  "cin c = Src (doneBytes v @ rest) e \<Longrightarrow> firstGoodbye v c = (Inr (NDxDone, NewNdxState), c\<lparr>cin := Src rest e\<rparr>)"
proof (cases "v < 29")
  case True
  assume c: "cin c = Src (doneBytes v @ rest) e"
  have "reads (readNdxVer v NewNdxState) (doneBytes v) (NDxDone, NewNdxState)"
    using True by (auto simp: readNdxVer_def doneBytes_def reads_ret intro: reads_bnd_last [OF reads_ints(1)])
  with rd_reads [OF this c] show ?thesis using True by (simp add: firstGoodbye_def)
next
  case False
  assume c: "cin c = Src (doneBytes v @ rest) e"
  from rd_reads [OF reads_wrapping [OF reads_done] c] False show ?thesis
    by (simp add: firstGoodbye_def bnd_def)
qed

lemma readFinalGoodbye_done:
  "readFinalGoodbye v \<lparr>cin = Src (goodbyeBytes v @ rest) e, cout = out\<rparr> =
    (Inr (), \<lparr>cin = Src rest e, cout = out @ (if 31 \<le> v then doneBytes v else [])\<rparr>)"
proof -
  have f: "firstGoodbye v \<lparr>cin = Src (goodbyeBytes v @ rest) e, cout = out\<rparr> =
      (Inr (NDxDone, NewNdxState), \<lparr>cin = Src ((if 31 \<le> v then doneBytes v else []) @ rest) e, cout = out\<rparr>)"
    by (subst firstGoodbye_done) (auto simp: goodbyeBytes_def)
  have s: "rd (ReadSelector v n) \<lparr>cin = Src (doneBytes v @ rest) e, cout = out'\<rparr> =
      (Inr (doneSel, n), \<lparr>cin = Src rest e, cout = out'\<rparr>)" for n out'
    by (subst rd_reads [OF reads_done]) simp_all
  show ?thesis
    unfolding readFinalGoodbye_def by (rule bnd_eq, rule f) (simp add: bnd_def echoNdx_done s)
qed

text \<open>The whole server side, with a file pulled or without.\<close>

lemma reads_recvFilterList: "reads recvFilterList (WriteInt32 0) ()"
  by (simp add: reads_def recvFilterList.simps [of "Src _ _"] codec_simps)

definition serverBytes :: "transfer_state \<Rightarrow> byte list \<Rightarrow> byte list" where
  "serverBytes st reply =
    flistBytes st @ reply @ dones (ver st) (maxPhase (ver st) + 1) @ statBytes st @
    (if 31 \<le> ver st then doneBytes (ver st) else [])"

definition clientBytes :: "int \<Rightarrow> byte list \<Rightarrow> byte list" where
  "clientBytes v request = WriteInt32 0 @ request @ dones v (maxPhase v + 1) @ goodbyeBytes v"

lemma doServerSender_run:
  assumes es: "st = st0\<lparr>entries := es\<rparr>" "es \<noteq> []"
    and files: "\<And>rest out. sendFiles fsRead st \<lparr>cin = Src (request @ dones (ver st) (maxPhase (ver st) + 1) @ rest) e, cout = out\<rparr> =
      (Inr (), \<lparr>cin = Src rest e, cout = out @ reply @ dones (ver st) (maxPhase (ver st) + 1)\<rparr>)"
  shows "doServerSender fsRead (Inr es) st0 \<lparr>cin = Src (clientBytes (ver st) request @ rest) e, cout = []\<rparr> =
    (Inr (), \<lparr>cin = Src rest e, cout = serverBytes st reply\<rparr>)"
proof -
  have filt: "rd recvFilterList \<lparr>cin = Src (clientBytes (ver st) request @ rest) e, cout = []\<rparr> =
      (Inr (), \<lparr>cin = Src (request @ dones (ver st) (maxPhase (ver st) + 1) @ goodbyeBytes (ver st) @ rest) e, cout = []\<rparr>)"
    by (subst rd_reads [OF reads_recvFilterList]) (simp_all add: clientBytes_def)
  show ?thesis
    unfolding doServerSender_def
    by (rule bnd_eq, rule filt)
       (simp add: es(2) es(1) [symmetric] bnd_def sendFileList_bytes files [simplified] sendStats_def wr_def readFinalGoodbye_done serverBytes_def statBytes_def)
qed

subsection \<open>The client's side\<close>

lemma readPhaseNdx_done:
  assumes "cin c = Src (doneBytes (sversion se) @ rest) e"
  shows "readPhaseNdx se c = (Inr (), c\<lparr>cin := Src rest e\<rparr>)"
proof (cases "29 \<le> sversion se")
  case True
  have "readSel se c = (Inr doneSel, c\<lparr>cin := Src rest e\<rparr>)"
    using readsD [OF reads_done] assms by (simp add: readSel_def)
  with True show ?thesis by (simp add: readPhaseNdx_def bnd_def wrapping_def)
next
  case False
  then have "cin c = Src (WriteInt32 NDxDone @ rest) e" using assms by (simp add: doneBytes_def)
  from rd_reads [OF reads_wrapping [OF reads_ints(1)] this] False show ?thesis
    by (simp add: readPhaseNdx_def bnd_def)
qed

lemma phaseLoop_done:
  "cin c = Src (dones (sversion se) k @ rest) e \<Longrightarrow>
   phaseLoop k se c = (Inr (), c\<lparr>cin := Src rest e, cout := cout c @ dones (sversion se) k\<rparr>)"
proof (induction k arbitrary: c)
  case 0
  then have "c = c\<lparr>cin := Src rest e, cout := cout c\<rparr>" by simp
  then show ?case by simp
next
  case (Suc k)
  let ?d = "c\<lparr>cout := cout c @ doneBytes (sversion se)\<rparr>"
  have "readPhaseNdx se ?d = (Inr (), ?d\<lparr>cin := Src (dones (sversion se) k @ rest) e\<rparr>)"
    using Suc.prems by (intro readPhaseNdx_done) simp
  with Suc.IH [of "?d\<lparr>cin := Src (dones (sversion se) k @ rest) e\<rparr>"] show ?case
    by (simp add: bnd_def writePhaseNdx_done)
qed

lemma reads_readN: "(\<And>x. x \<in> set xs \<Longrightarrow> reads m (enc x) x) \<Longrightarrow> reads (readN (length xs) m) (concat (map enc xs)) xs"
  by (induction xs) (auto intro!: reads_bnd [of m] reads_bnd_last [of "readN _ m"] simp: reads_ret)

lemma reads_readStats:
  assumes "sversion se = ver st"
  shows "reads (readStats se) (statBytes st) ()"
proof -
  let ?m = "wrapping ''read stat'' (if 30 \<le> sversion se then ReadVarlong 3 else ReadLongInt)"
  have "reads ?m (writeStat (ver st) x) x" for x
    using assms by (auto simp: writeStat_def intro!: reads_wrapping reads_ints)
  then have r: "reads (readN (length (statValues st)) ?m) (statBytes st) (statValues st)"
    unfolding statBytes_def by (intro reads_readN)
  have "length (statValues st) = (if 29 \<le> sversion se then 5 else 3)"
    using assms by (simp add: statValues_def)
  with r show ?thesis unfolding readStats_def by (auto intro: reads_bnd_last reads_ret)
qed

lemma finalGoodbye_done:
  assumes "cin c = Src ((if 31 \<le> sversion se then doneBytes (sversion se) else []) @ rest) e"
  shows "finalGoodbye se c = (Inr (), c\<lparr>cin := Src rest e, cout := cout c @ goodbyeBytes (sversion se)\<rparr>)"
proof -
  consider "sversion se < 29" | "29 \<le> sversion se" "sversion se < 31" | "31 \<le> sversion se" by linarith
  then show ?thesis
  proof cases
    case 1
    then show ?thesis using assms by (simp add: finalGoodbye_def wr_def goodbyeBytes_def doneBytes_def)
  next
    case 2
    then show ?thesis using assms by (simp add: finalGoodbye_def bnd_def writePhaseNdx_done goodbyeBytes_def)
  next
    case 3
    let ?d = "c\<lparr>cout := cout c @ doneBytes (sversion se)\<rparr>"
    have "readPhaseNdx se ?d = (Inr (), ?d\<lparr>cin := Src rest e\<rparr>)"
      using assms 3 by (intro readPhaseNdx_done) simp
    with 3 show ?thesis by (simp add: finalGoodbye_def bnd_def writePhaseNdx_done goodbyeBytes_def)
  qed
qed

definition serverEnd :: "transfer_state \<Rightarrow> byte list" where
  "serverEnd st = dones (ver st) (maxPhase (ver st) + 1) @ statBytes st @ (if 31 \<le> ver st then doneBytes (ver st) else [])"

definition clientEnd :: "int \<Rightarrow> byte list" where
  "clientEnd v = dones v (maxPhase v + 1) @ goodbyeBytes v"

lemma finishSession_done:
  assumes v: "sversion se = ver st" and c: "cin c = Src (serverEnd st @ rest) e"
  shows "finishSession se c = (Inr (), c\<lparr>cin := Src rest e, cout := cout c @ clientEnd (ver st)\<rparr>)"
proof -
  let ?g = "if 31 \<le> ver st then doneBytes (ver st) else []"
  let ?k = "maxPhase (sversion se) + 1"
  let ?c1 = "c\<lparr>cin := Src (statBytes st @ ?g @ rest) e, cout := cout c @ dones (sversion se) ?k\<rparr>"
  let ?c2 = "?c1\<lparr>cin := Src (?g @ rest) e\<rparr>"
  have 1: "phaseLoop ?k se c = (Inr (), ?c1)"
    using c v unfolding serverEnd_def by (intro phaseLoop_done) (simp only: append_assoc)
  have 2: "rd (readStats se) ?c1 = (Inr (), ?c2)"
    by (rule rd_reads [OF reads_readStats [OF v]]) simp
  have 3: "finalGoodbye se ?c2 = (Inr (), ?c2\<lparr>cin := Src rest e, cout := cout ?c2 @ goodbyeBytes (sversion se)\<rparr>)"
    using v by (intro finalGoodbye_done) simp
  show ?thesis
    unfolding finishSession_def
    by (rule bnd_eq, rule 1, rule bnd_eq, rule 2, subst 3) (simp add: v clientEnd_def)
qed

section \<open>One operation on the file list\<close>

text \<open>
  The contract of an operation that runs between the file list and the end of the session:
  it writes the request, consumes the reply, and gives the result.
\<close>

lemma withEntry_run:
  assumes f: "fits st se" and ok: "ok_all WriteEntry entry_ok (flistWriterOf st) (map toWire (entries st))"
    and name: "findFlistEntry (arrived st) name = Some x"
    and i: "sortFlistEntries (arrived st) (ver st) (Name x) = Some i"
    and c: "cin c = Src (flistBytes st @ reply @ serverEnd st @ rest) e"
    and op: "\<And>q. fn \<lparr>ctxEntries = arrived st, ctxEntry = x, ctxNdx = i, ctxName = name\<rparr> (c\<lparr>cin := Src (reply @ q) e\<rparr>) =
      (res, c\<lparr>cin := Src q e, cout := cout c @ request, sndx := n', srecvNdx := m'\<rparr>)"
  shows "withEntry se name fn c =
    (res, c\<lparr>cin := Src rest e, cout := cout c @ request @ clientEnd (ver st), sndx := n', srecvNdx := m'\<rparr>)"
proof -
  have v: "sversion se = ver st" using f by (simp add: fits_def)
  let ?c1 = "c\<lparr>cin := Src (reply @ serverEnd st @ rest) e\<rparr>"
  let ?c2 = "c\<lparr>cin := Src (serverEnd st @ rest) e, cout := cout c @ request, sndx := n', srecvNdx := m'\<rparr>"
  have l: "rd (wrapping ''read file list'' (readFileList se)) c = (Inr (arrived st), ?c1)"
    by (rule rd_reads [OF reads_wrapping [OF reads_readFileList [OF f ok]] c])
  have "finishSession se ?c2 = (Inr (), ?c2\<lparr>cin := Src rest e, cout := cout ?c2 @ clientEnd (ver st)\<rparr>)"
    using v by (intro finishSession_done) simp_all
  note fin = this
  show ?thesis
    unfolding withEntry_def
    by (rule bnd_eq, rule l) (simp add: name v i op fin split: sum.splits)
qed

lemma withEntry_missing:
  assumes f: "fits st se" and ok: "ok_all WriteEntry entry_ok (flistWriterOf st) (map toWire (entries st))"
    and name: "findFlistEntry (arrived st) name = None"
    and c: "cin c = Src (flistBytes st @ serverEnd st @ rest) e"
  shows "withEntry se name fn c =
    (Inl (Errorf ''file does not exist''), c\<lparr>cin := Src rest e, cout := cout c @ clientEnd (ver st)\<rparr>)"
proof -
  have v: "sversion se = ver st" using f by (simp add: fits_def)
  let ?c1 = "c\<lparr>cin := Src (serverEnd st @ rest) e\<rparr>"
  have l: "rd (wrapping ''read file list'' (readFileList se)) c = (Inr (arrived st), ?c1)"
    by (rule rd_reads [OF reads_wrapping [OF reads_readFileList [OF f ok]] c])
  have fin: "finishSession se ?c1 = (Inr (), ?c1\<lparr>cin := Src rest e, cout := cout ?c1 @ clientEnd (ver st)\<rparr>)"
    using v by (intro finishSession_done) simp_all
  show ?thesis
    unfolding withEntry_def by (rule bnd_eq, rule l) (simp add: name fin)
qed

section \<open>What arrives\<close>

text \<open>The type bits of a wire mode are the ones \<^verbatim>\<open>modeToWire\<close> put there.\<close>

lemma modeToWire_type:
  "modeToWire m AND 0xF000 =
    (if modeIsDir m then 0x4000 else if modeType m = ModeSymlink then 0xA000 else 0x8000)"
  by (simp add: modeToWire_def modePerm_def bit.conj_disj_distrib2 and.assoc)

lemma modeToWire_perm: "modeToWire m AND 0x1FF = modePerm m"
  by (simp add: modeToWire_def modePerm_def bit.conj_disj_distrib2 and.assoc)

lemma wire_type_checks [simp]:
  "wireModeIsDir (modeToWire m) = modeIsDir m"
  "wireModeIsSymlink (modeToWire m) \<longleftrightarrow> \<not> modeIsDir m \<and> modeType m = ModeSymlink"
  by (simp_all add: wireModeIsDir_def wireModeIsSymlink_def modeToWire_type)

lemma modeType_dir: "modeIsDir m \<Longrightarrow> modeType m \<noteq> 0 \<and> modeType m \<noteq> ModeSymlink"
proof -
  assume "modeIsDir m"
  have "modeType m AND ModeDir = m AND ModeDir" "ModeSymlink AND ModeDir = 0"
    by (simp_all add: modeType_def mode_defs and.assoc)
  with \<open>modeIsDir m\<close> show ?thesis by (auto simp: modeIsDir_def)
qed

lemma ok_all_inv:
  assumes "I w" and "\<And>w x. I w \<Longrightarrow> I (fst (enc w x))" and "\<And>w x. I w \<Longrightarrow> x \<in> set xs \<Longrightarrow> ok w x"
  shows "ok_all enc ok w xs"
  using assms(1,3) by (induction xs arbitrary: w) (simp_all add: assms(2))

text \<open>The configuration of the list writer, which writing an entry does not change.\<close>

definition writer_conf :: "int \<Rightarrow> flist_writer \<Rightarrow> bool" where
  "writer_conf v w \<longleftrightarrow>
     fversion w = v \<and> preserveUID w \<and> preserveGID w \<and> preserveLinks w \<and> preserveDevices w \<and>
     \<not> preserveHardlinks w \<and> \<not> hasAtimes w \<and> \<not> alwaysChecksum w"

lemma writer_conf_keeps: "writer_conf v w \<Longrightarrow> writer_conf v (fst (WriteEntry w e))"
  by (simp add: writer_conf_def WriteEntry_def computeXflags_def Let_def split: prod.splits)

lemma writer_conf_of: "fits st se \<Longrightarrow> writer_conf (ver st) (flistWriterOf st)"
  by (simp add: fits_def writer_conf_def flistWriterOf_def NewFlistWriter_def SetID0Names_def SetPreserveHardlinks_def
      SetPreserveLinks_def SetPreserveDevices_def SetPreserveGID_def SetPreserveUID_def)

text \<open>
  The entries a walk may give: a path the peer accepts, the root a directory, a target that
  can be sent, and below protocol 30 a time of 32 bits. Below protocol 28 names are short,
  which the long-name flag of a directory needs.
\<close>

definition servable :: "int \<Rightarrow> file_entry \<Rightarrow> bool" where
  "servable v e \<longleftrightarrow>
     (isRootName (fname e) \<longrightarrow> modeIsDir (fmode e)) \<and> int (length (fname e)) \<le> MaxPathLen \<and>
     length (flinkTarget e) < 2 ^ 31 \<and> (v < 30 \<longrightarrow> ucast (ucast (fmodSec e) :: u32) = fmodSec e) \<and>
     (v < 28 \<longrightarrow> length (fname e) < 128)"

lemma toWire_ok:
  assumes "writer_conf v w" "servable v e"
  shows "entry_ok w (toWire e)"
proof -
  have t: "fileType (Mode (toWire e)) =
      (if modeIsDir (fmode e) then 0x4000 else if modeType (fmode e) = ModeSymlink then 0xA000 else 0x8000)"
    by (simp add: toWire_def fileType_def modeToWire_type)
  then have "modeValid (Mode (toWire e))" by (simp add: modeValid_def)
  then show ?thesis
    using assms unfolding entry_ok_def writer_conf_def servable_def by (auto simp: t) (simp_all add: toWire_def)
qed

definition clientView :: "int \<Rightarrow> file_entry \<Rightarrow> flist_entry" where
  "clientView v e =
    (toWire e)\<lparr>ModNsec := (if 31 \<le> v then fmodNsec e else 0),
       LinkTarget := (if \<not> modeIsDir (fmode e) \<and> modeType (fmode e) = ModeSymlink then flinkTarget e else []),
       Nlink := 0, Dev := 0, Ino := 0, TopDir := modeIsDir (fmode e) \<and> fname e = dotName\<rparr>"

lemma entry_view_conf: "writer_conf v w \<Longrightarrow> entry_view w (toWire e) = clientView v e"
  by (simp add: entry_view_def writer_conf_def hlinkFlagged_def clientView_def Let_def toWire_def emptyEntry_def fileType_def
      modeToWire_type)

lemma arrived_views:
  assumes "fits st se"
  shows "arrived st = map (clientView (ver st)) (entries st)"
proof -
  have "writer_conf (ver st) w \<Longrightarrow> view_all WriteEntry entry_view w (map toWire es) = map (clientView (ver st)) es" for w es
    by (induction es arbitrary: w) (simp_all add: entry_view_conf writer_conf_keeps)
  with writer_conf_of [OF assms] show ?thesis by blast
qed

lemma arrived_ok:
  assumes "fits st se" "\<forall>e\<in>set (entries st). servable (ver st) e"
  shows "ok_all WriteEntry entry_ok (flistWriterOf st) (map toWire (entries st))"
  by (rule ok_all_inv [where I = "writer_conf (ver st)"])
     (use assms in \<open>auto simp: writer_conf_of writer_conf_keeps toWire_ok\<close>)

section \<open>The index of a name\<close>

lemma clientView_simps [simp]:
  "Name (clientView v e) = fname e" "Mode (clientView v e) = modeToWire (fmode e)" "Size (clientView v e) = fsize e"
  "Mtime (clientView v e) = fmodSec e" "ModNsec (clientView v e) = (if 31 \<le> v then fmodNsec e else 0)"
  by (simp_all add: clientView_def toWire_def)

text \<open>A served module: the walk succeeded, on names that are distinct and valid.\<close>

definition walked :: "int \<Rightarrow> file_entry list \<Rightarrow> bool" where
  "walked v es \<longleftrightarrow> distinct (map fname es) \<and> (\<forall>e\<in>set es. valid_name (fname e)) \<and>
     sorted (map (\<lambda>e. nameKey v (fname e) (modeIsDir (fmode e))) es)"

lemma walk_walked:
  assumes "walk v now readLink (Inr infos) = Inr es" and "distinct (map ipath infos)"
    and "\<forall>i\<in>set infos. valid_name (ipath i)"
  shows "walked v es" "mset es = mset (map (walkEntry now readLink) infos)"
proof -
  let ?raw = "map (walkEntry now readLink) infos"
  let ?s = "map (\<lambda>e. \<lparr>sentry = e, sisDir = modeIsDir (fmode e)\<rparr>) ?raw"
  let ?K = "\<lambda>x. nameKey v (fname (sentry x)) (sisDir x)"
  have es: "es = map sentry (sortFlist ?s v)" using assms(1) by (simp add: walk_def Let_def)
  have n: "fname (walkEntry now readLink i) = ipath i" for i
    by (simp add: walkEntry_def Let_def split: prod.splits)
  have S: "sortFlist ?s v = sort_key ?K ?s"
    by (rule sortFlist_key) (use assms(2,3) in \<open>simp_all add: comp_def n\<close>)
  have "mset es = image_mset sentry (mset ?s)" by (simp only: es S mset_map mset_sort)
  then show m: "mset es = mset ?raw" by (simp add: comp_def image_mset.compositionality)
  have "mset (map fname es) = mset (map ipath infos)"
    using arg_cong [OF m, of "image_mset fname"] by (simp add: image_mset.compositionality comp_def n)
  then have "distinct (map fname es)" using assms(2) by (metis mset_eq_imp_distinct_iff)
  moreover have "\<forall>e\<in>set es. valid_name (fname e)"
    using mset_eq_setD [OF m] assms(3) by (auto simp: n)
  moreover have "map (\<lambda>e. nameKey v (fname e) (modeIsDir (fmode e))) es = map ?K (sort_key ?K ?s)"
    unfolding es S by (auto intro!: map_cong simp: comp_def)
  ultimately show "walked v es" by (simp add: walked_def)
qed

lemma client_index_perm:
  assumes "walked v es" "i < length es" "mset vs = mset (map (clientView v) es)"
  shows "sortFlistEntries vs v (fname (es ! i)) = Some (word_of_nat i)"
    "findFlistEntry vs (fname (es ! i)) = Some (clientView v (es ! i))"
proof -
  let ?srv = "map (clientView v) es"
  have w: "distinct (map fname es)" "\<forall>e\<in>set es. valid_name (fname e)"
    "sorted (map (\<lambda>e. nameKey v (fname e) (modeIsDir (fmode e))) es)"
    using assms(1) by (simp_all add: walked_def)
  have s: "set vs = set ?srv" using mset_eq_setD [OF assms(3)] .
  have "mset (map Name vs) = mset (map fname es)"
    using arg_cong [OF assms(3), of "image_mset Name"] by (simp add: image_mset.compositionality comp_def)
  then have d: "distinct (map Name vs)" using w(1) by (metis mset_eq_imp_distinct_iff)
  have "sortFlistEntries vs v (Name (?srv ! i)) = Some (word_of_nat i)"
    by (rule sortFlistEntries_index) (use w assms(2) d s in \<open>simp_all add: comp_def\<close>)
  with assms(2) show "sortFlistEntries vs v (fname (es ! i)) = Some (word_of_nat i)" by simp
  have "clientView v (es ! i) \<in> set vs" using s assms(2) by simp
  then obtain j where "j < length vs" "vs ! j = clientView v (es ! i)" by (metis in_set_conv_nth)
  moreover have "Name (vs ! k) \<noteq> fname (es ! i)" if "k < j" for k
    using that d calculation nth_eq_iff_index_eq [of "map Name vs" k j] by auto
  ultimately show "findFlistEntry vs (fname (es ! i)) = Some (clientView v (es ! i))"
    by (auto simp: findFlistEntry_def find_Some_iff intro!: exI [of _ j])
qed

lemmas client_index = client_index_perm [OF _ _ refl]

section \<open>Both sides together\<close>

text \<open>A new connection of the client after the handshake, which ends with the empty filter list.\<close>

definition freshConn :: "byte list \<Rightarrow> go_error \<Rightarrow> client_conn" where
  "freshConn S e = \<lparr>cin = Src S e, cout = WriteInt32 0, sndx = NewNdxState, srecvNdx = NewNdxState\<rparr>"

text \<open>
  The client computation and the daemon are run on each other's output: what the daemon
  reads is all the client wrote, what the client reads is all the daemon wrote, and both
  consume everything.
\<close>

definition exchange :: "(gostring \<Rightarrow> go_error + byte list) \<Rightarrow> go_error + file_entry list \<Rightarrow> transfer_state \<Rightarrow>
    (client_conn, 'a) io \<Rightarrow> go_error + 'a \<Rightarrow> bool" where
  "exchange fsRead es st op res \<longleftrightarrow>
    (\<exists>C S c. (\<forall>e. doServerSender fsRead es st \<lparr>cin = Src C e, cout = []\<rparr> = (Inr (), \<lparr>cin = Src [] e, cout = S\<rparr>)) \<and>
       op (freshConn S EOF) = (res, c) \<and> cin c = Src [] EOF \<and> cout c = C)"

lemma exchangeI:
  assumes "\<And>e. doServerSender fsRead es st \<lparr>cin = Src C e, cout = []\<rparr> = (Inr (), \<lparr>cin = Src [] e, cout = S\<rparr>)"
    and "op (freshConn S EOF) = (res, c)" and "cin c = Src [] EOF" and "cout c = C"
  shows "exchange fsRead es st op res"
  using assms unfolding exchange_def by blast

text \<open>A module that is served: what the handshake and the walk establish.\<close>

definition served :: "transfer_state \<Rightarrow> session \<Rightarrow> file_entry list \<Rightarrow> bool" where
  "served st se es \<longleftrightarrow> fits st se \<and> walked (ver st) es \<and> es \<noteq> [] \<and> length es < 2 ^ 31 \<and>
     (\<forall>e\<in>set es. servable (ver st) e)"

lemma servedD:
  assumes "served st se es"
  shows "fits (st\<lparr>entries := es\<rparr>) se" "walked (ver st) es" "es \<noteq> []" "sversion se = ver st" "length es < 2 ^ 31"
    "ok_all WriteEntry entry_ok (flistWriterOf (st\<lparr>entries := es\<rparr>)) (map toWire (entries (st\<lparr>entries := es\<rparr>)))"
    "arrived (st\<lparr>entries := es\<rparr>) = map (clientView (ver st)) es"
proof -
  show f: "fits (st\<lparr>entries := es\<rparr>) se" using assms by (simp add: served_def fits_def)
  show "walked (ver st) es" "es \<noteq> []" "sversion se = ver st" "length es < 2 ^ 31" using assms by (simp_all add: served_def fits_def)
  show "ok_all WriteEntry entry_ok (flistWriterOf (st\<lparr>entries := es\<rparr>)) (map toWire (entries (st\<lparr>entries := es\<rparr>)))"
    by (rule arrived_ok [OF f]) (use assms in \<open>simp add: served_def\<close>)
  show "arrived (st\<lparr>entries := es\<rparr>) = map (clientView (ver st)) es"
    using arrived_views [OF f] by simp
qed

lemma server_idle:
  assumes "es \<noteq> []"
  shows "doServerSender fsRead (Inr es) st \<lparr>cin = Src (clientBytes (ver st) []) e, cout = []\<rparr> =
    (Inr (), \<lparr>cin = Src [] e, cout = serverBytes (st\<lparr>entries := es\<rparr>) []\<rparr>)"
  using doServerSender_run [where st = "st\<lparr>entries := es\<rparr>" and request = "[]" and reply = "[]" and rest = "[]"
      and fsRead = fsRead and e = e, OF refl assms]
    sendFiles_idle [of fsRead "st\<lparr>entries := es\<rparr>"]
  by simp

text \<open>An operation that only looks at the file list.\<close>

lemma exchange_idle:
  assumes s: "served st se es" and i: "i < length es"
    and op: "\<And>c. fn \<lparr>ctxEntries = map (clientView (ver st)) es, ctxEntry = clientView (ver st) (es ! i),
        ctxNdx = word_of_nat i, ctxName = fname (es ! i)\<rparr> c = (res, c)"
  shows "exchange fsRead (Inr es) st (withEntry se (fname (es ! i)) fn) res"
proof -
  let ?st = "st\<lparr>entries := es\<rparr>" and ?S = "serverBytes (st\<lparr>entries := es\<rparr>) []"
  have c: "cin (freshConn ?S EOF) = Src (flistBytes ?st @ [] @ serverEnd ?st @ []) EOF"
    by (simp add: freshConn_def serverBytes_def serverEnd_def)
  have w: "withEntry se (fname (es ! i)) fn (freshConn ?S EOF) =
      (res, (freshConn ?S EOF)\<lparr>cin := Src [] EOF, cout := cout (freshConn ?S EOF) @ [] @ clientEnd (ver ?st),
        sndx := NewNdxState, srecvNdx := NewNdxState\<rparr>)"
    by (rule withEntry_run [OF servedD(1,6) [OF s] _ _ c, where x = "clientView (ver st) (es ! i)"])
       (use client_index [OF servedD(2) [OF s] i] op servedD(7) [OF s] in \<open>simp_all add: freshConn_def\<close>)
  show ?thesis
    by (rule exchangeI [OF server_idle [OF servedD(3) [OF s]]], rule w)
       (simp_all add: freshConn_def clientBytes_def clientEnd_def)
qed

lemma exchange_missing:
  assumes s: "served st se es" and "name \<notin> fname ` set es"
  shows "exchange fsRead (Inr es) st (withEntry se name fn) (Inl (Errorf ''file does not exist''))"
proof -
  let ?st = "st\<lparr>entries := es\<rparr>" and ?S = "serverBytes (st\<lparr>entries := es\<rparr>) []"
  have n: "findFlistEntry (arrived ?st) name = None"
    using assms servedD(7) [OF s] by (auto simp: findFlistEntry_def find_None_iff)
  have c: "cin (freshConn ?S EOF) = Src (flistBytes ?st @ serverEnd ?st @ []) EOF"
    by (simp add: freshConn_def serverBytes_def serverEnd_def)
  show ?thesis
    by (rule exchangeI [OF server_idle [OF servedD(3) [OF s]]], rule withEntry_missing [OF servedD(1,6) [OF s] n c])
       (simp_all add: freshConn_def clientBytes_def clientEnd_def)
qed

text \<open>Pulling a regular file: the daemon's side, then both.\<close>

lemma server_pull:
  assumes s: "served st se es" and i: "i < length es"
    and reg: "modeIsRegular (fmode (es ! i))" "fsRead (fname (es ! i)) = Inr data"
    and req: "WriteSelector (ver st) NewNdxState (transferSel (word_of_nat i)) = (r1, n', request)"
    and echo: "WriteSelector (ver st) NewNdxState (sel_view (ver st) (transferSel (word_of_nat i))) = (r2, m', echo)"
  shows "doServerSender fsRead (Inr es) st
      \<lparr>cin = Src (clientBytes (ver st) (request @ WriteSumHead nullSumHead (ver st))) e, cout = []\<rparr> =
    (Inr (), \<lparr>cin = Src [] e, cout = serverBytes (st\<lparr>entries := es\<rparr>) (fileReply se echo data)\<rparr>)"
proof -
  let ?st = "st\<lparr>entries := es\<rparr>"
  have "sendFiles fsRead ?st
      \<lparr>cin = Src ((request @ WriteSumHead nullSumHead (ver st)) @ dones (ver ?st) (maxPhase (ver ?st) + 1) @ rest) e, cout = out\<rparr> =
      (Inr (), \<lparr>cin = Src rest e, cout = out @ fileReply se echo data @ dones (ver ?st) (maxPhase (ver ?st) + 1)\<rparr>)" for rest out
    using sendFiles_transfer [where fsRead = fsRead and data = data and rest = rest and e = e and out = out,
        OF servedD(1) [OF s], of i r1 n' request r2 m' echo]
      i servedD(5) [OF s] reg req echo
    by simp
  from doServerSender_run [where rest = "[]" and e = e, OF refl servedD(3) [OF s] this] show ?thesis by simp
qed

lemma exchange_pull:
  assumes s: "served st se es" and i: "i < length es"
    and h: "hashes_ok (shashes se)" "schecksum se \<in> set SupportedDigests"
    and reg: "modeIsRegular (fmode (es ! i))" "fsRead (fname (es ! i)) = Inr data"
  shows "exchange fsRead (Inr es) st (withEntry se (fname (es ! i)) (openFileFromContext se))
    (Inr (RegularFile (flistInfo (baseName (fname (es ! i))) (clientView (ver st) (es ! i))) data))"
proof -
  let ?st = "st\<lparr>entries := es\<rparr>" and ?i = "word_of_nat i :: i32"
  note f = servedD(1) [OF s]
  have v: "sversion se = ver st" by (rule servedD(4) [OF s])
  have nn: "0 \<le> sint ?i"
    using servedD(5) [OF s] i by (simp add: sint_word_of_nat take_bit_nat_eq_self)
  obtain r1 n' request where req: "WriteSelector (ver st) NewNdxState (transferSel ?i) = (r1, n', request)"
    by (metis prod_cases3)
  obtain r2 m' echo where echo: "WriteSelector (ver st) NewNdxState (sel_view (ver st) (transferSel ?i)) = (r2, m', echo)"
    by (metis prod_cases3)
  let ?req = "request @ WriteSumHead nullSumHead (ver st)" and ?reply = "fileReply se echo data"
  let ?S = "serverBytes ?st ?reply"
  have c: "cin (freshConn ?S EOF) = Src (flistBytes ?st @ ?reply @ serverEnd ?st @ []) EOF"
    by (simp add: freshConn_def serverBytes_def serverEnd_def)
  have ns: "modeType (fmode (es ! i)) \<noteq> ModeSymlink" "\<not> modeIsDir (fmode (es ! i))"
    using reg(1) modeType_dir by (auto simp: modeIsRegular_def mode_defs)
  have op: "openFileFromContext se \<lparr>ctxEntries = arrived ?st, ctxEntry = clientView (ver st) (es ! i), ctxNdx = ?i, ctxName = fname (es ! i)\<rparr>
      ((freshConn ?S EOF)\<lparr>cin := Src (?reply @ q) EOF\<rparr>) =
      (Inr (RegularFile (flistInfo (baseName (fname (es ! i))) (clientView (ver st) (es ! i))) data),
       (freshConn ?S EOF)\<lparr>cin := Src q EOF, cout := cout (freshConn ?S EOF) @ ?req, sndx := n', srecvNdx := m'\<rparr>)" for q
    using openFile_reply [where c = "(freshConn ?S EOF)\<lparr>cin := Src (?reply @ q) EOF\<rparr>" and e = EOF and rest = q and data = data, OF h nn]
      req echo ns
    by (simp add: openFileFromContext_def v freshConn_def bnd_def)
  note ix = client_index [OF servedD(2) [OF s] i] servedD(7) [OF s]
  have w: "withEntry se (fname (es ! i)) (openFileFromContext se) (freshConn ?S EOF) =
      (Inr (RegularFile (flistInfo (baseName (fname (es ! i))) (clientView (ver st) (es ! i))) data),
       (freshConn ?S EOF)\<lparr>cin := Src [] EOF, cout := cout (freshConn ?S EOF) @ ?req @ clientEnd (ver ?st),
        sndx := n', srecvNdx := m'\<rparr>)"
    by (rule withEntry_run [OF f servedD(6) [OF s] _ _ c, where x = "clientView (ver st) (es ! i)"], use ix in simp, use ix in simp)
       (rule op)
  show ?thesis
    by (rule exchangeI [OF server_pull [where fsRead = fsRead, OF s i reg req echo]], rule w) (simp_all add: freshConn_def clientBytes_def clientEnd_def)
qed

section \<open>A pull is verified\<close>

text \<open>What is left of a connection's input.\<close>

definition tail_of :: "src \<Rightarrow> src \<Rightarrow> bool" where
  "tail_of s s' \<longleftrightarrow> (\<exists>p. avail s = p @ avail s')"

lemma tail_of_refl [simp]: "tail_of s s"
  by (simp add: tail_of_def)

lemma tail_of_trans: "tail_of s s' \<Longrightarrow> tail_of s' s'' \<Longrightarrow> tail_of s s''"
  by (auto simp: tail_of_def)

lemma streaming_tail: "streaming m \<Longrightarrow> m s = (Inr x, s') \<Longrightarrow> tail_of s s'"
  by (cases s) (fastforce simp: tail_of_def streaming_def)

lemma streaming_ReadToken: "streaming (ReadToken r)"
  unfolding ReadToken_def readChunk_def Let_def by (intro streaming_intros)

lemma pullLoop_tail: "pullLoop dr data s = (Inr x, s') \<Longrightarrow> tail_of s s'"
proof (induction dr data s rule: pullLoop.induct)
  case (1 dr data s)
  obtain res t where r: "ReadToken dr s = (res, t)" by (cases "ReadToken dr s")
  show ?case
  proof (cases res)
    case (Inr y)
    obtain lit bi en dr' where y: "y = ((lit, bi, en), dr')" by (metis prod.collapse)
    have t: "tail_of s t" using streaming_tail [OF streaming_ReadToken] r Inr by blast
    show ?thesis
    proof (cases en)
      case True
      then show ?thesis using "1.prems" t r Inr y by (simp add: pullLoop.simps [of dr])
    next
      case False
      with "1.IH" [of res t y "(lit, bi, en)" dr' lit "(bi, en)" bi en] "1.prems" r Inr y
      have "tail_of t s'" by (simp add: pullLoop.simps [of dr])
      with t show ?thesis by (rule tail_of_trans)
    qed
  qed (use "1.prems" r in \<open>simp add: pullLoop.simps [of dr]\<close>)
qed

lemma readSel_tail: "wrapping msg (readSel se) c = (Inr x, c') \<Longrightarrow> tail_of (cin c) (cin c')"
  by (auto simp: wrapping_def readSel_def split: prod.splits sum.splits dest: streaming_tail [OF streaming_ReadSelector])

lemma rd_tail: "(\<And>s' x. m (cin c) = (Inr x, s') \<Longrightarrow> tail_of (cin c) s') \<Longrightarrow> rd m c = (Inr x, c') \<Longrightarrow> tail_of (cin c) (cin c')"
  by (auto simp: rd_def split: prod.splits)

lemma openFile_checksum:
  assumes "openFile se ndx c = (Inr data, c')"
  shows "\<exists>pre. avail (cin c) = pre @ FileChecksum (shashes se) data (schecksum se) (sversion se) (sseed se) @ avail (cin c')"
proof -
  let ?sum = "FileChecksum (shashes se) data (schecksum se) (sversion se) (sseed se)"
  obtain c1 c2 c3 c4 c5 sel sh want n where
    1: "wrapping ''write selector'' (writeSel se (transferSel ndx)) c = (Inr (), c1)" and
    2: "wr (WriteSumHead nullSumHead (sversion se)) c1 = (Inr (), c2)" and
    3: "wrapping ''read echoed selector'' (readSel se) c2 = (Inr sel, c3)" and
    4: "rd (wrapping ''read sum head'' (ReadSumHead (sversion se))) c3 = (Inr sh, c4)" and
    5: "rd (pullLoop NewDeltaReader []) c4 = (Inr data, c5)" and
    6: "rd (wrapping ''read file checksum'' (readFull n)) c5 = (Inr want, c')" and 7: "?sum = want"
    using assms unfolding openFile_def transferSel_def [symmetric]
    by (fastforce simp: bnd_Inr_iff split: if_splits)
  have "tail_of (cin c) (cin c2)"
    using 1 2 by (auto simp: wrapping_def writeSel_def wr_def Let_def split: prod.splits sum.splits)
  also have "tail_of (cin c2) (cin c3)" using readSel_tail 3 .
  finally (tail_of_trans) have "tail_of (cin c) (cin c3)" .
  moreover have "tail_of (cin c3) (cin c4)"
    using 4 by (rule rd_tail [rotated]) (rule streaming_tail [OF streaming_wrapping [OF streaming_ReadSumHead]])
  moreover have "tail_of (cin c4) (cin c5)" using 5 by (rule rd_tail [rotated]) (rule pullLoop_tail)
  moreover have "avail (cin c5) = want @ avail (cin c')"
    using 6 by (auto simp: rd_def wrapping_def split: prod.splits sum.splits dest: readFull_InrD)
  ultimately show ?thesis using 7 unfolding tail_of_def by (metis append.assoc)
qed

section \<open>The children of a directory\<close>

text \<open>A child of a directory is one more component; at the root the name is the component.\<close>

definition childName :: "gostring \<Rightarrow> gostring \<Rightarrow> gostring" where
  "childName d b = (if d = dotName then b else d @ slash # b)"

definition child :: "gostring \<Rightarrow> gostring \<Rightarrow> bool" where
  "child d n \<longleftrightarrow> (\<exists>b. slash \<notin> set b \<and> n = childName d b) \<and> n \<noteq> dotName"

lemma dotName_slash: "slash \<notin> set dotName" "dotName \<noteq> d @ slash # b"
  by (auto simp: dotName_def slash_def Cons_eq_append_conv)

lemma isChild_iff: "isChild d n \<longleftrightarrow> child d n"
proof (cases "d = dotName")
  case False
  have "HasPrefix n (d @ [slash]) \<and> slash \<notin> set (drop (length d + 1) n) \<longleftrightarrow> (\<exists>b. slash \<notin> set b \<and> n = d @ slash # b)"
    by (auto simp: HasPrefix_def intro!: exI [of _ "drop (length d + 1) n"]) (metis append_take_drop_id append.assoc append_Cons append_Nil)
  moreover have "d @ slash # b \<noteq> dotName" for b using dotName_slash(2) by metis
  ultimately show ?thesis using False by (auto simp: isChild_def child_def childName_def)
qed (auto simp: isChild_def child_def childName_def)

lemma baseName_childName: "slash \<notin> set b \<Longrightarrow> baseName (childName d b) = b"
proof -
  assume "slash \<notin> set b"
  then have "\<forall>x\<in>set (rev b). x \<noteq> slash" by auto
  then have "takeWhile (\<lambda>x. x \<noteq> slash) (rev b @ slash # r) = rev b" "takeWhile (\<lambda>x. x \<noteq> slash) (rev b @ []) = rev b" for r
    by (subst takeWhile_append2; simp)+
  then show ?thesis by (simp add: baseName_def childName_def del: takeWhile_eq_all_conv)
qed

lemma child_base: "child d n \<Longrightarrow> n = childName d (baseName n)"
  by (auto simp: child_def baseName_childName)

lemma filterFlistChildren_sorted:
  assumes "distinct (map Name es)"
  shows "filterFlistChildren es d = sort_key (\<lambda>e. baseName (Name e)) (filter (\<lambda>e. child d (Name e)) es)"
    "distinct (map (\<lambda>e. baseName (Name e)) (filter (\<lambda>e. child d (Name e)) es))"
proof -
  let ?F = "filter (\<lambda>e. child d (Name e)) es"
  have "inj_on Name (set ?F)" "distinct ?F" using assms by (auto simp: distinct_map inj_on_def)
  moreover have "inj_on (\<lambda>e. baseName (Name e)) (set ?F)"
  proof (rule inj_onI)
    fix x y assume "x \<in> set ?F" "y \<in> set ?F" "baseName (Name x) = baseName (Name y)"
    then have "Name x = Name y" using child_base [of d "Name x"] child_base [of d "Name y"] by simp
    with \<open>inj_on Name (set ?F)\<close> \<open>x \<in> set ?F\<close> \<open>y \<in> set ?F\<close> show "x = y" by (metis inj_onD)
  qed
  ultimately show d: "distinct (map (\<lambda>e. baseName (Name e)) ?F)" by (simp add: distinct_map)
  show "filterFlistChildren es d = sort_key (\<lambda>e. baseName (Name e)) ?F"
    unfolding filterFlistChildren_def isChild_iff
    by (rule sortStable_key) (use d in \<open>auto simp: strCompare_def\<close>)
qed

text \<open>A module and its walk, with the negotiated parameters.\<close>

definition module_served :: "transfer_state \<Rightarrow> session \<Rightarrow> i64 \<times> i32 \<Rightarrow> (gostring \<Rightarrow> go_error + gostring) option \<Rightarrow>
    walk_info list \<Rightarrow> bool" where
  "module_served st se now readLink infos \<longleftrightarrow>
     fits st se \<and> infos \<noteq> [] \<and> distinct (map ipath infos) \<and> (\<forall>i\<in>set infos. valid_name (ipath i)) \<and>
     length infos < 2 ^ 31 \<and> (\<forall>i\<in>set infos. servable (ver st) (walkEntry now readLink i))"

lemma module_servedE:
  assumes "module_served st se now readLink infos" "info \<in> set infos"
  obtains es i where "walk (ver st) now readLink (Inr infos) = Inr es" "served st se es" "i < length es"
    "es ! i = walkEntry now readLink info" "set es = set (map (walkEntry now readLink) infos)"
proof -
  obtain es where es: "walk (ver st) now readLink (Inr infos) = Inr es" by (simp add: walk_def Let_def)
  note m = assms(1) [unfolded module_served_def]
  have w: "walked (ver st) es" and ms: "mset es = mset (map (walkEntry now readLink) infos)"
    using walk_walked [OF es] m by blast+
  have s: "set es = set (map (walkEntry now readLink) infos)" using mset_eq_setD [OF ms] .
  have l: "length es = length infos" using mset_eq_length [OF ms] by simp
  have "served st se es" using m w s l by (auto simp: served_def)
  moreover have "walkEntry now readLink info \<in> set es" using s assms(2) by simp
  ultimately show ?thesis using that [OF es] s by (metis in_set_conv_nth)
qed

lemma fname_walkEntry [simp]: "fname (walkEntry now readLink i) = ipath i" "fmode (walkEntry now readLink i) = imode i"
  "fsize (walkEntry now readLink i) = isize i"
  by (simp_all add: walkEntry_def Let_def split: prod.splits)

lemma wireModeToFS_modeToWire:
  "wireModeToFS (modeToWire m) =
    modePerm m OR (if modeIsDir m then ModeDir else if modeType m = ModeSymlink then ModeSymlink else 0)"
proof -
  have "modePerm (modeToWire m AND 0xFFF) = modePerm m"
    using modeToWire_perm [of m] by (simp add: modePerm_def and.assoc)
  then show ?thesis by (simp add: wireModeToFS_def modeToWire_type Let_def or.commute)
qed

lemma modePerm_bits:
  assumes "m AND NOT 0x1FF = t"
  shows "m = modePerm m OR t"
proof -
  have "m = (m AND 0x1FF) OR (m AND NOT 0x1FF)" by (simp add: bit_eq_iff bit_simps) blast
  with assms show ?thesis by (simp add: modePerm_def)
qed

lemma wireModeToFS_plain:
  assumes "m AND NOT 0x1FF \<in> {0, ModeDir, ModeSymlink}"
  shows "wireModeToFS (modeToWire m) = m"
proof -
  have b: "m AND t = (m AND NOT 0x1FF) AND t" if "NOT 0x1FF AND t = t" for t
    using that by (simp add: and.assoc)
  have d: "modeIsDir m \<longleftrightarrow> (m AND NOT 0x1FF) AND ModeDir \<noteq> 0"
    unfolding modeIsDir_def by (subst b) (simp_all add: mode_defs)
  have t: "modeType m = (m AND NOT 0x1FF) AND (ModeDir OR ModeSymlink OR ModeNamedPipe OR ModeSocket OR ModeDevice OR ModeCharDevice OR ModeIrregular)"
    unfolding modeType_def by (subst b) (simp_all add: mode_defs)
  from assms show ?thesis
    by (subst (3) modePerm_bits [OF refl], auto simp: wireModeToFS_modeToWire d t) (simp_all add: mode_defs)
qed

end
