(* ===== verification/Handshake_Exchange.thy ===== *)
theory Handshake_Exchange
  imports Server_Handshake Client_Connect Session_Exchange
begin

text \<open>
  The two sides of the handshake against each other: on each other's output both succeed,
  and the parameters they come out with are the ones the transfer needs them to agree on.
\<close>

section \<open>Messages\<close>

lemma reads_greeting: "greeting_ok g \<Longrightarrow> reads ReadGreeting (WriteGreeting g) g"
  by (rule greet.reads_enc)

lemma reads_module: "10 \<notin> set name \<Longrightarrow> reads ReadModuleRequest (WriteModuleRequest name) name"
  unfolding ReadModuleRequest_def WriteModuleRequest_def by (rule line.reads_enc)

lemma reads_response: "user_ok u \<Longrightarrow> reads ReadAuthResponse (WriteAuthResponse u d) (u, d)"
  using authresp.reads_enc [of "(u, d)"] by simp

lemma reads_line: "10 \<notin> set l \<Longrightarrow> readLine (Src (l @ 10 # rest) e) = (Inr l, Src rest e)"
  by (simp add: readLine_def readLineLoop_line)

lemma reads_ok: "reads ReadAuthChallenge WriteAuthOK None"
proof (rule readsI)
  fix rest e
  have "readLine (Src (WriteAuthOK @ rest) e) = (Inr (str ''@RSYNCD: OK''), Src rest e)"
    using reads_line [of "str ''@RSYNCD: OK''" rest e] by (simp add: WriteAuthOK_def str_def)
  then show "ReadAuthChallenge (Src (WriteAuthOK @ rest) e) = (Inr None, Src rest e)"
    by (simp add: ReadAuthChallenge.simps [of "Src _ _"] ParseError_def CutPrefix_def HasPrefix_def str_def)
qed

lemma TrimSpace_base64: "TrimSpace (EncodeToString bs) = EncodeToString bs"
proof (cases "EncodeToString bs = []")
  case True
  then show ?thesis by (simp add: TrimSpace_def trimLeft.simps [of "[]"] trimRight.simps [of "[]"] spaceEnd_def)
next
  case False
  then show ?thesis using EncodeToString_graphic [of bs] by (intro TrimSpace_id) (simp_all add: list_all_iff)
qed

lemma reads_challenge: "reads ReadAuthChallenge (WriteAuthChallenge ch) (Some ch)"
proof (rule readsI)
  fix rest e
  let ?l = "str ''@RSYNCD: AUTHREQD '' @ EncodeToString ch"
  have "10 \<notin> set ?l" using EncodeToString_no_newline by (simp add: str_def)
  from reads_line [OF this, of rest e]
  have "readLine (Src (WriteAuthChallenge ch @ rest) e) = (Inr ?l, Src rest e)" by (simp add: WriteAuthChallenge_def)
  moreover have "\<not> HasPrefix ?l (str ''@ERROR: '')" "\<not> HasPrefix ?l (str ''@RSYNCD: OK'')" "\<not> HasPrefix ?l (str ''@RSYNCD: EXIT'')"
    by (simp_all add: HasPrefix_def str_def)
  ultimately show "ReadAuthChallenge (Src (WriteAuthChallenge ch @ rest) e) = (Inr (Some ch), Src rest e)"
    by (simp add: ReadAuthChallenge.simps [of "Src _ _"] ParseError_def CutPrefix_def [of _ "str ''@ERROR: ''"]
        TrimSpace_base64 DecodeString_EncodeToString)
qed

section \<open>Flags and checksum\<close>

text \<open>What the client's argument makes the daemon resolve, and what follows from it.\<close>

definition agreedFlags :: "int \<Rightarrow> flags" where
  "agreedFlags v = (if 30 \<le> v then CompatSafeFlist OR CompatAvoidXattrOptim OR CompatChksumSeedFix OR CompatVarintFlistFlags else 0)"

lemma agreed_has:
  "has (agreedFlags v) CompatVarintFlistFlags \<longleftrightarrow> 30 \<le> v" "has (agreedFlags v) CompatChksumSeedFix \<longleftrightarrow> 30 \<le> v"
  "\<not> has (agreedFlags v) CompatId0Names"
proof -
  have "has (agreedFlags 30) CompatVarintFlistFlags" "has (agreedFlags 30) CompatChksumSeedFix" "\<not> has (agreedFlags 30) CompatId0Names"
    by code_simp+
  moreover have "agreedFlags v = (if 30 \<le> v then agreedFlags 30 else 0)" by (simp add: agreedFlags_def)
  ultimately show "has (agreedFlags v) CompatVarintFlistFlags \<longleftrightarrow> 30 \<le> v" "has (agreedFlags v) CompatChksumSeedFix \<longleftrightarrow> 30 \<le> v"
    "\<not> has (agreedFlags v) CompatId0Names"
    by (simp_all add: has_def)
qed

lemma clientArgs_info: "30 \<le> v \<Longrightarrow> ExtractClientInfo (clientArgs cl v) = clientInfo"
  by (simp add: clientArgs_def transferArgstr_def clientInfo_def str_def isShortOption_def HasPrefix_def)

lemma resolve_agreed: "ResolveCompatFlags serverCapabilities clientInfo = agreedFlags 30"
  by code_simp

lemma serverCompat_agreed:
  "serverCompat v (clientArgs cl v) c = (Inr (agreedFlags v), c\<lparr>cout := cout c @ WriteCompatFlags (agreedFlags v) v\<rparr>)"
  by (auto simp: serverCompat_def clientArgs_info resolve_agreed bnd_def wr_def agreedFlags_def WriteCompatFlags_def Let_def)

lemma reads_compat: "30 \<le> v \<Longrightarrow> reads (ReadCompatFlags v) (WriteCompatFlags (agreedFlags v) v) (agreedFlags v)"
proof -
  assume v: "30 \<le> v"
  have "scast (ucast (agreedFlags 30) :: i32) = agreedFlags 30" by code_simp
  then have s: "scast (ucast (agreedFlags v) :: i32) = agreedFlags v" using v by (simp add: agreedFlags_def)
  show ?thesis
    using v unfolding ReadCompatFlags_def WriteCompatFlags_def
    by (simp add: not_le [symmetric]) (rule reads_bnd_last [OF reads_ints(4)], simp add: s reads_ret)
qed

definition digestList :: "byte list" where
  "digestList = (case WriteVstring (Join SupportedDigests [32]) of Inr bs \<Rightarrow> bs | Inl _ \<Rightarrow> [])"

lemma negotiate_md5:
  assumes "cin c = Src (digestList @ rest) e"
  shows "NegotiateAlgorithms SupportedDigests [] c =
    (Inr \<lparr>algChecksum = str ''md5'', algCompress = []\<rparr>, c\<lparr>cin := Src rest e, cout := cout c @ digestList\<rparr>)"
proof -
  have l: "length (Join SupportedDigests [32]) \<le> 0x7FFF" by code_simp
  have w: "WriteVstring (Join SupportedDigests [32]) = Inr digestList"
    using l WriteVstring_Inr_iff [of "Join SupportedDigests [32]"] by (auto simp: digestList_def split: sum.splits)
  have p: "pickOne SupportedDigests (Join SupportedDigests [32]) = str ''md5''" by code_simp
  have "reads ReadVstring digestList (Join SupportedDigests [32])"
    using vstring.reads_enc [OF l] by (simp add: w)
  from rd_reads [OF reads_wrapping [OF this], of "c\<lparr>cout := cout c @ digestList\<rparr>" rest e] assms show ?thesis
    by (simp add: NegotiateAlgorithms_def sendVstring_def w bnd_def wr_def p)
qed

text \<open>The bytes each side sends for the algorithm lists, and the checksum both arrive at.\<close>

definition listBytes :: "int \<Rightarrow> byte list" where
  "listBytes v = (if 30 \<le> v then digestList else [])"

definition agreedChecksum :: "int \<Rightarrow> gostring" where
  "agreedChecksum v = (if 30 \<le> v then str ''md5'' else str ''md4'')"

lemma chooseChecksum_agreed:
  assumes "cin c = Src (listBytes v @ rest) e"
  shows "chooseChecksum (agreedFlags v) v c =
    (Inr (agreedChecksum v), c\<lparr>cin := Src rest e, cout := cout c @ listBytes v\<rparr>)"
proof (cases "30 \<le> v")
  case True
  with assms have "cin c = Src (digestList @ rest) e" by (simp add: listBytes_def)
  from negotiate_md5 [OF this] True show ?thesis
    by (simp add: chooseChecksum_def agreed_has bnd_def wrapping_def agreedChecksum_def listBytes_def)
next
  case False
  with assms show ?thesis
    by (simp add: chooseChecksum_def agreed_has DefaultAlgorithms_def agreedChecksum_def listBytes_def)
qed

lemma clientNegotiate_agreed:
  assumes "cin c = Src (WriteCompatFlags (agreedFlags v) v @ listBytes v @ rest) e"
  shows "clientNegotiate v c = (Inr (agreedFlags v, agreedChecksum v), c\<lparr>cin := Src rest e, cout := cout c @ listBytes v\<rparr>)"
proof (cases "30 \<le> v")
  case True
  let ?d = "c\<lparr>cin := Src (digestList @ rest) e\<rparr>"
  have r: "rd (wrapping ''read compat flags'' (ReadCompatFlags v)) c = (Inr (agreedFlags v), ?d)"
    using rd_reads [OF reads_wrapping [OF reads_compat [OF True]] assms] True by (simp add: listBytes_def)
  have n: "NegotiateAlgorithms SupportedDigests [] ?d =
      (Inr \<lparr>algChecksum = str ''md5'', algCompress = []\<rparr>, ?d\<lparr>cin := Src rest e, cout := cout ?d @ digestList\<rparr>)"
    by (rule negotiate_md5) simp
  show ?thesis
    using True by (simp add: clientNegotiate_def bnd_def r agreed_has wrapping_def n agreedChecksum_def listBytes_def)
next
  case False
  with assms show ?thesis
    by (simp add: clientNegotiate_def DefaultAlgorithms_def agreedChecksum_def listBytes_def agreedFlags_def WriteCompatFlags_def)
qed

section \<open>The two runs\<close>

text \<open>
  What the two sides bring: greetings that can be sent and lead to a version, a module the
  daemon has under a name that can be sent, and credentials when it asks for them.
\<close>

definition auth_ok :: "client \<Rightarrow> server_module \<Rightarrow> byte list \<Rightarrow> gostring \<Rightarrow> byte list \<Rightarrow> bool" where
  "auth_ok cl m challenge digest hash \<longleftrightarrow>
    (case smAuth m of
       None \<Rightarrow> True
     | Some callback \<Rightarrow> cAuthUser cl \<noteq> [] \<and> user_ok (cAuthUser cl) \<and>
         (\<exists>response. cAuthResponse cl = Some response \<and> response digest challenge = Inr hash) \<and>
         callback (cAuthUser cl) challenge = Inr hash)"

definition module_ok :: "gostring \<Rightarrow> int \<Rightarrow> bool" where
  "module_ok name v \<longleftrightarrow> name \<noteq> [] \<and> name \<noteq> str ''#list'' \<and> 10 \<notin> set name \<and> argDelim v \<notin> set name \<and>
     \<not> isShortOption (name @ str ''/'')"

definition compatible :: "client \<Rightarrow> greeting \<Rightarrow> (gostring \<times> server_module) list \<Rightarrow> byte list \<Rightarrow>
    server_module \<Rightarrow> int \<Rightarrow> byte \<Rightarrow> gostring \<Rightarrow> byte list \<Rightarrow> bool" where
  "compatible cl g modules challenge m v sub digest hash \<longleftrightarrow>
     greeting_ok (ApplyDefaults (cGreeting cl)) \<and> greeting_ok (ApplyDefaults g) \<and>
     Negotiate (ApplyDefaults (cGreeting cl)) (ApplyDefaults g) = Inr (v, sub, digest) \<and>
     module_ok (cModule cl) v \<and> map_of modules (cModule cl) = Some m \<and> smRoot m = Inr () \<and>
     auth_ok cl m challenge digest hash"

text \<open>The bytes of the authentication, in the two directions.\<close>

definition askBytes :: "server_module \<Rightarrow> byte list \<Rightarrow> byte list" where
  "askBytes m challenge = (if smAuth m = None then [] else WriteAuthChallenge challenge) @ WriteAuthOK"

definition answerBytes :: "client \<Rightarrow> server_module \<Rightarrow> byte list \<Rightarrow> byte list" where
  "answerBytes cl m hash = (if smAuth m = None then [] else WriteAuthResponse (cAuthUser cl) hash)"

lemma serverGreet_run:
  assumes "greeting_ok cg" "Negotiate cg (ApplyDefaults g) = Inr (v, sub, digest)" "cin c = Src (WriteGreeting cg @ rest) e"
  shows "serverGreet g c = (Inr v, c\<lparr>cin := Src rest e, cout := cout c @ WriteGreeting (ApplyDefaults g)\<rparr>)"
  using rd_reads [OF reads_greeting [OF assms(1)], of "c\<lparr>cout := cout c @ WriteGreeting (ApplyDefaults g)\<rparr>" rest e] assms(2,3)
  by (simp add: serverGreet_def bnd_def wr_def orRefuse_def)

lemma selectModule_run:
  assumes "module_ok name v" "map_of modules name = Some m" "smRoot m = Inr ()" "cin c = Src (WriteModuleRequest name @ rest) e"
  shows "selectModule modules v c = (Inr (Some m), c\<lparr>cin := Src rest e\<rparr>)"
  using rd_reads [OF reads_module assms(4)] assms(1-3) by (simp add: selectModule_def module_ok_def)

lemma serverAuth_run:
  assumes "auth_ok cl m challenge digest hash" "cin c = Src (answerBytes cl m hash @ rest) e"
  shows "serverAuth m (Inr challenge) c = (Inr (), c\<lparr>cin := Src rest e, cout := cout c @ askBytes m challenge\<rparr>)"
proof (cases "smAuth m")
  case None
  with assms(2) show ?thesis by (simp add: serverAuth_def answerBytes_def askBytes_def wr_def)
next
  case (Some callback)
  have u: "user_ok (cAuthUser cl)" "callback (cAuthUser cl) challenge = Inr hash"
    using assms(1) Some by (auto simp: auth_ok_def)
  show ?thesis
    using rd_reads [OF reads_response [OF u(1)], of "c\<lparr>cout := cout c @ WriteAuthChallenge challenge\<rparr>" hash rest e] assms(2) Some
    by (simp add: serverAuth_def answerBytes_def askBytes_def bnd_def wr_def orRefuse_def u(2) hashEqual_iff)
qed

lemma authLoop_OK:
  assumes "cin c = Src (WriteAuthOK @ rest) e"
  shows "authLoop cl digest c = (Inr (), c\<lparr>cin := Src rest e\<rparr>)"
  using rd_reads [OF reads_wrapping [OF reads_ok] assms] by (simp add: authLoop.simps [of cl digest c])

lemma authLoop_run:
  assumes "auth_ok cl m challenge digest hash" "cin c = Src (askBytes m challenge @ rest) e"
  shows "authLoop cl digest c = (Inr (), c\<lparr>cin := Src rest e, cout := cout c @ answerBytes cl m hash\<rparr>)"
proof (cases "smAuth m")
  case None
  with assms(2) show ?thesis by (simp add: authLoop_OK answerBytes_def askBytes_def)
next
  case (Some callback)
  let ?c1 = "c\<lparr>cin := Src (WriteAuthOK @ rest) e\<rparr>"
  have "cin c = Src (WriteAuthChallenge challenge @ WriteAuthOK @ rest) e" using assms(2) Some by (simp add: askBytes_def)
  from rd_reads [OF reads_wrapping [OF reads_challenge] this]
  have r: "rd (wrapping ''read server response'' ReadAuthChallenge) c = (Inr (Some challenge), ?c1)" .
  obtain response where "cAuthResponse cl = Some response" "response digest challenge = Inr hash" "cAuthUser cl \<noteq> []"
    using assms(1) Some by (auto simp: auth_ok_def)
  with r Some show ?thesis
    by (simp add: authLoop.simps [of cl digest c] authLoop_OK answerBytes_def)
qed

lemma reads_args:
  assumes "module_ok (cModule cl) v"
  shows "reads (ReadArgs v) (WriteArgs (clientArgs cl v) v) (clientArgs cl v)"
proof (rule readsI, rule ReadArgs_WriteArgs)
  have d: "argDelim v = 0 \<or> argDelim v = 10" by (simp add: argDelim_def)
  then show "\<forall>arg\<in>set (clientArgs cl v). arg_ok v arg"
    using assms by (auto simp: clientArgs_def arg_ok_def module_ok_def transferArgstr_def clientInfo_def str_def)
qed (simp add: clientArgs_def)

lemma clientArgs_preserve:
  assumes "module_ok (cModule cl) v"
  shows "ExtractPreserveFlags (clientArgs cl v) = (True, True, False)"
  using assms
  by (simp add: ExtractPreserveFlags_def clientArgs_def module_ok_def)
     (simp add: transferArgstr_def clientInfo_def str_def isShortOption_def HasPrefix_def)

definition clientHello :: "client \<Rightarrow> server_module \<Rightarrow> byte list \<Rightarrow> int \<Rightarrow> byte list" where
  "clientHello cl m hash v =
    WriteGreeting (ApplyDefaults (cGreeting cl)) @ WriteModuleRequest (cModule cl) @ answerBytes cl m hash @
    WriteArgs (clientArgs cl v) v @ listBytes v"

definition serverHello :: "greeting \<Rightarrow> server_module \<Rightarrow> byte list \<Rightarrow> int \<Rightarrow> i32 \<Rightarrow> byte list" where
  "serverHello g m challenge v seed =
    WriteGreeting (ApplyDefaults g) @ askBytes m challenge @ WriteCompatFlags (agreedFlags v) v @ listBytes v @
    (if v < 23 then [] else WriteChecksumSeed seed)"

definition agreedResult :: "server_module \<Rightarrow> int \<Rightarrow> i32 \<Rightarrow> handshake_result" where
  "agreedResult m v seed =
    \<lparr>rModule = m, rVer = v, rVarint = (30 \<le> v), rSeedFix = (30 \<le> v), rId0Names = False, rPreserve = (True, True),
     rPreserveHlinks = False, rChecksum = agreedChecksum v, rSeed = seed,
     rOutMw = (if v < 23 then Some (snd (Write (NewWriter []) (WriteChecksumSeed seed))) else None)\<rparr>"

lemma doHandshake_run:
  assumes ok: "compatible cl g modules challenge m v sub digest hash"
  shows "doHandshake g modules (Inr challenge) seedRand now \<lparr>cin = Src (clientHello cl m hash v @ rest) e, cout = []\<rparr> =
    (Inr (Some (agreedResult m v (chooseSeed seedRand now))),
     \<lparr>cin = Src rest e, cout = serverHello g m challenge v (chooseSeed seedRand now)\<rparr>)"
proof -
  let ?seed = "chooseSeed seedRand now"
  note k = ok [unfolded compatible_def]
  define r1 where "r1 = WriteModuleRequest (cModule cl) @ answerBytes cl m hash @ WriteArgs (clientArgs cl v) v @ listBytes v @ rest"
  define r2 where "r2 = answerBytes cl m hash @ WriteArgs (clientArgs cl v) v @ listBytes v @ rest"
  define r3 where "r3 = WriteArgs (clientArgs cl v) v @ listBytes v @ rest"
  have 1: "serverGreet g \<lparr>cin = Src (clientHello cl m hash v @ rest) e, cout = []\<rparr> =
      (Inr v, \<lparr>cin = Src r1 e, cout = WriteGreeting (ApplyDefaults g)\<rparr>)"
    by (subst serverGreet_run [where rest = r1]) (use k in \<open>auto simp: clientHello_def r1_def\<close>)
  have 2: "selectModule modules v \<lparr>cin = Src r1 e, cout = out\<rparr> = (Inr (Some m), \<lparr>cin = Src r2 e, cout = out\<rparr>)" for out
    by (subst selectModule_run [where rest = r2 and name = "cModule cl" and m = m]) (use k in \<open>auto simp: r1_def r2_def\<close>)
  have 3: "serverAuth m (Inr challenge) \<lparr>cin = Src r2 e, cout = out\<rparr> = (Inr (), \<lparr>cin = Src r3 e, cout = out @ askBytes m challenge\<rparr>)" for out
    by (subst serverAuth_run [where rest = r3 and cl = cl]) (use k in \<open>auto simp: r2_def r3_def\<close>)
  have 4: "rd (wrapping ''read arguments'' (ReadArgs v)) \<lparr>cin = Src r3 e, cout = out\<rparr> =
      (Inr (clientArgs cl v), \<lparr>cin = Src (listBytes v @ rest) e, cout = out\<rparr>)" for out
    by (subst rd_reads [OF reads_wrapping [OF reads_args]]) (use k in \<open>auto simp: r3_def\<close>)
  have 5: "chooseChecksum (agreedFlags v) v \<lparr>cin = Src (listBytes v @ rest) e, cout = out\<rparr> =
      (Inr (agreedChecksum v), \<lparr>cin = Src rest e, cout = out @ listBytes v\<rparr>)" for out
    by (subst chooseChecksum_agreed) simp_all
  have p: "ExtractPreserveFlags (clientArgs cl v) = (True, True, False)" using clientArgs_preserve k by blast
  have a: "admit m v (Inr challenge) seedRand now \<lparr>cin = Src r2 e, cout = WriteGreeting (ApplyDefaults g)\<rparr> =
      (Inr (agreedResult m v ?seed), \<lparr>cin = Src rest e, cout = serverHello g m challenge v ?seed\<rparr>)"
    by (simp add: admit_def bnd_def 3 4 5 serverCompat_agreed sendSeed_def wr_def p agreed_has agreedResult_def serverHello_def)
  show ?thesis by (simp add: doHandshake_def bnd_def 1 2 a)
qed

definition agreedSession :: "hashes \<Rightarrow> client \<Rightarrow> int \<Rightarrow> byte \<Rightarrow> gostring \<Rightarrow> i32 \<Rightarrow> full_session" where
  "agreedSession H cl v sub digest seed =
    \<lparr>sversion = v, shashes = H, schecksum = agreedChecksum v, sseed = seed, svarintFlist = (30 \<le> v), sid0Names = False,
     ssubProtocol = sub, sdigest = digest, scompatFlags = agreedFlags v, sseedFix = (30 \<le> v), smoduleName = cModule cl\<rparr>"

lemma runHandshake_run:
  assumes ok: "compatible cl g modules challenge m v sub digest hash"
    and frames: "demux (Src frames e) = Src ((if v < 23 then WriteChecksumSeed seed else []) @ payload) e'"
  shows "runHandshake H cl \<lparr>cin = Src (serverHello g m challenge v seed @ frames) e, cout = []\<rparr> =
    (Inr (agreedSession H cl v sub digest seed, freshConn payload e'),
     \<lparr>cin = Src ((if v < 23 then [] else WriteChecksumSeed seed) @ frames) e, cout = clientHello cl m hash v\<rparr>)"
proof -
  note k = ok [unfolded compatible_def]
  let ?tail = "(if v < 23 then [] else WriteChecksumSeed seed) @ frames"
  define r1 where "r1 = askBytes m challenge @ WriteCompatFlags (agreedFlags v) v @ listBytes v @ ?tail"
  define r2 where "r2 = WriteCompatFlags (agreedFlags v) v @ listBytes v @ ?tail"
  have 1: "rd (wrapping ''read server greeting'' ReadGreeting) \<lparr>cin = Src (serverHello g m challenge v seed @ frames) e, cout = out\<rparr> =
      (Inr (ApplyDefaults g), \<lparr>cin = Src r1 e, cout = out\<rparr>)" for out
    by (subst rd_reads [OF reads_wrapping [OF reads_greeting]]) (use k in \<open>auto simp: serverHello_def r1_def\<close>)
  have 2: "authLoop cl digest \<lparr>cin = Src r1 e, cout = out\<rparr> = (Inr (), \<lparr>cin = Src r2 e, cout = out @ answerBytes cl m hash\<rparr>)" for out
    by (subst authLoop_run [where rest = r2 and m = m and challenge = challenge and hash = hash]) (use k in \<open>auto simp: r1_def r2_def\<close>)
  have 3: "clientNegotiate v \<lparr>cin = Src r2 e, cout = out\<rparr> =
      (Inr (agreedFlags v, agreedChecksum v), \<lparr>cin = Src ?tail e, cout = out @ listBytes v\<rparr>)" for out
    by (subst clientNegotiate_agreed [where rest = ?tail]) (simp_all add: r2_def)
  have 4: "clientSeed v (Src ?tail e) = (Inr seed, Src payload e')"
    using frames by (simp add: clientSeed_def wrapping_def ReadChecksumSeed_def WriteChecksumSeed_def readsD [OF reads_ints(1)])
  have n: "Negotiate (ApplyDefaults (cGreeting cl)) (ApplyDefaults g) = Inr (v, sub, digest)" using k by blast
  show ?thesis
    by (simp add: runHandshake_def bnd_def wr_def 1 2 3 4 n agreed_has agreedSession_def freshConn_def clientHello_def Let_def)
qed

text \<open>What the two come out with fits, in the sense the transfer needs.\<close>

lemma agreed_fits: "fits (transferOf H (agreedResult m v seed)) (session.truncate (agreedSession H cl v sub digest seed))"
  by (simp add: fits_def transferOf_def agreedResult_def agreedSession_def session.truncate_def)

lemma agreed_checksum: "schecksum (session.truncate (agreedSession H cl v sub digest seed)) \<in> set SupportedDigests"
  by (simp add: agreedSession_def session.truncate_def agreedChecksum_def SupportedDigests_def)

section \<open>A whole connection\<close>

lemma exchange_open:
  assumes "module_served st se now readLink infos" and "info \<in> set infos"
    and "hashes_ok (shashes se)" and "schecksum se \<in> set SupportedDigests"
    and "modeIsRegular (imode info)" and "fsRead (ipath info) = Inr data" and "valid (ipath info)"
  shows "exchange fsRead (walk (ver st) now readLink (Inr infos)) st (Open valid se (ipath info))
    (Inr (RegularFile (flistInfo (baseName (ipath info)) (clientView (ver st) (walkEntry now readLink info))) data))"
proof -
  obtain es i where es: "walk (ver st) now readLink (Inr infos) = Inr es" "served st se es" "i < length es"
    "es ! i = walkEntry now readLink info"
    by (rule module_servedE [OF assms(1,2)])
  show ?thesis
    using exchange_pull [OF es(2,3) assms(3,4), of fsRead data] assms(5-7) es by (simp add: Open_def)
qed

text \<open>How the client's payload reaches the daemon: framed from protocol 30 on, plain before.\<close>

definition clientCarries :: "int \<Rightarrow> byte list \<Rightarrow> go_error \<Rightarrow> byte list \<Rightarrow> bool" where
  "clientCarries v raw e payload \<longleftrightarrow> (if 30 \<le> v then \<exists>e'. demux (Src raw e) = Src payload e' else raw = payload)"

end
