(* ===== verification/Client_Session.thy ===== *)
theory Client_Session
  imports Handshake_Exchange
begin

text \<open>
  The rest of the client: the life of a \<^verbatim>\<open>Session\<close> over several operations (each consumes its
  connection, the next one dials again), root mode with its module listing
  (\<^verbatim>\<open>src/client-open.go\<close>), and the password response of \<^verbatim>\<open>src/client.go\<close>. What \<^verbatim>\<open>ConnectFunc\<close>
  returns is a parameter of each operation, \<open>None\<close> when there is no such function.
\<close>

section \<open>Definitions\<close>

subsection \<open>Password authentication\<close>

definition computeAuthHash :: "hashes \<Rightarrow> gostring \<Rightarrow> gostring \<Rightarrow> byte list \<Rightarrow> go_error + byte list" where
  "computeAuthHash H digest password challenge =
    (if digest = str ''md4'' then Inr (md4 H (password @ challenge))
     else if digest = str ''md5'' then Inr (md5 H (password @ challenge))
     else Inl (Errorf ''auth digest not supported''))"

definition PasswordAuth :: "hashes \<Rightarrow> gostring \<Rightarrow> gostring \<Rightarrow> byte list \<Rightarrow> go_error + byte list" where
  "PasswordAuth H password = (\<lambda>digest challenge. computeAuthHash H digest password challenge)"

subsection \<open>The life of a session\<close>

text \<open>
  \<open>lrw\<close>: there is a connection; \<open>lconn\<close>: the streams of a completed handshake, which are nil
  while it runs and after \<^verbatim>\<open>consume\<close>.
\<close>

record live_session =
  lrw :: bool
  lconsumed :: bool
  lconn :: "client_conn option"
  lsess :: "full_session option"

text \<open>
  How \<^verbatim>\<open>runHandshake\<close> changes the session it is given: first of all it stores the connection and
  clears everything else, \<^verbatim>\<open>consumed\<close> included; the input stream comes in when the seed has been
  read, and what was negotiated on the way is only looked at together with it. Nothing is
  undone when it fails in between; the one statement behind the stream that can fail is a
  write.
\<close>

definition resetSession :: "live_session \<Rightarrow> live_session" where
  "resetSession s = s\<lparr>lrw := True, lconsumed := False, lconn := None, lsess := None\<rparr>"

definition handshakeOn :: "hashes \<Rightarrow> client \<Rightarrow> conn \<Rightarrow> (live_session, unit) io" where
  "handshakeOn H cl rw s =
    (let s0 = resetSession s
     in case runHandshake H cl rw of
          (Inl err, _) \<Rightarrow> (Inl err, s0)
        | (Inr (se, c), _) \<Rightarrow> (Inr (), s0\<lparr>lconn := Some c, lsess := Some se\<rparr>))"

definition acquireLive :: "hashes \<Rightarrow> client \<Rightarrow> (go_error + conn) option \<Rightarrow> (live_session, unit) io" where
  "acquireLive H cl dial s =
    (if lrw s \<and> \<not> lconsumed s then (Inr (), s)
     else case dial of
         None \<Rightarrow> (Inl (Errorf ''no live connection and ConnectFunc is not set''), s)
       | Some (Inl err) \<Rightarrow> (Inl (Wrap ''ConnectFunc'' err), s)
       | Some (Inr rw) \<Rightarrow> handshakeOn H cl rw s)"

definition consume :: "live_session \<Rightarrow> live_session" where
  "consume s = s\<lparr>lconsumed := True, lrw := False, lconn := None\<rparr>"

text \<open>
  \<^verbatim>\<open>withEntry\<close> on the session: \<^verbatim>\<open>consume\<close> is deferred once a connection is acquired. Reading from
  the nil stream of a handshake that did not complete is a nil dereference.
\<close>

definition liveWithEntry :: "hashes \<Rightarrow> client \<Rightarrow> (go_error + conn) option \<Rightarrow> gostring \<Rightarrow>
    (session \<Rightarrow> open_context \<Rightarrow> (client_conn, 'a) io) \<Rightarrow> (live_session, 'a) io" where
  "liveWithEntry H cl dial name fn s =
    (case acquireLive H cl dial s of
       (Inl err, s') \<Rightarrow> (Inl err, s')
     | (Inr _, s') \<Rightarrow>
         (case (lconn s', lsess s') of
            (Some c, Some se) \<Rightarrow> (fst (withEntry (session.truncate se) name (fn (session.truncate se)) c), consume s')
          | _ \<Rightarrow> (Inl (Panic ''nil pointer dereference''), consume s')))"

definition liveOpen :: "hashes \<Rightarrow> client \<Rightarrow> (go_error + conn) option \<Rightarrow> (gostring \<Rightarrow> bool) \<Rightarrow> gostring \<Rightarrow> (live_session, opened) io" where
  "liveOpen H cl dial valid name =
    (if \<not> valid name then fail (Errorf ''open: invalid argument'') else liveWithEntry H cl dial name openFileFromContext)"

subsection \<open>Listing modules\<close>

definition readTextLine :: "(src, gostring) io" where
  "readTextLine s = readLineLoop [] (avail s) (fin s)"

lemma readTextLine_line: "readTextLine = readLine"
  by (rule ext) (simp add: readTextLine_def readLine_def)

definition listEntry :: "gostring \<Rightarrow> module_info" where
  "listEntry line =
    (case Cut line 9 of (name, comment) \<Rightarrow>
       \<lparr>miName = TrimSpace name, miComment = (case comment of Some c \<Rightarrow> c | None \<Rightarrow> [])\<rparr>)"

function listLoop :: "client \<Rightarrow> module_info list \<Rightarrow> (conn, module_info list) io" where
  "listLoop cl modules c =
    (case rd readTextLine c of
       (Inl err, c') \<Rightarrow> (if err = EOF then Inr modules else Inl (Wrap ''read module list'' err), c')
     | (Inr line, c') \<Rightarrow>
         if HasPrefix line (str ''@RSYNCD: EXIT'') then (Inr modules, c')
         else if HasPrefix line (str ''@ERROR'') then (Inl (Errorf ''server error''), c')
         else (case CutPrefix line (str ''@RSYNCD: AUTHREQD '') of
             Some challenge \<Rightarrow>
               (case DecodeString (TrimSpace challenge) of
                  Inl err \<Rightarrow> (Inl (Wrap ''decode auth challenge'' err), c')
                | Inr data \<Rightarrow>
                    if cAuthUser cl = [] then (Inl (Errorf ''#list requires authentication''), c')
                    else (case cAuthResponse cl of
                        None \<Rightarrow> (Inl (Errorf ''#list requires authentication''), c')
                      | Some response \<Rightarrow>
                          (case response [] data of
                             Inl err \<Rightarrow> (Inl (Wrap ''compute auth response'' err), c')
                           | Inr digestBytes \<Rightarrow>
                               listLoop cl modules (c'\<lparr>cout := cout c' @ WriteAuthResponse (cAuthUser cl) digestBytes\<rparr>))))
           | None \<Rightarrow> listLoop cl (modules @ [listEntry line]) c'))"
  by pat_completeness auto
termination
  by (relation "measure (\<lambda>(cl, modules, c). length (avail (cin c)))")
     (auto simp: rd_def readTextLine_line split: prod.splits dest!: consumesD [OF readLine_consumes])

declare listLoop.simps [simp del]

definition doListRequest :: "client \<Rightarrow> (conn, module_info list) io" where
  "doListRequest cl =
    (let greet = ApplyDefaults (cGreeting cl)
     in bnd (wr (WriteGreeting greet)) (\<lambda>_.
        bnd (rd (wrapping ''read server greeting'' ReadGreeting)) (\<lambda>serverGreet.
          case Negotiate greet serverGreet of
            Inl err \<Rightarrow> fail (Wrap ''negotiate'' err)
          | Inr _ \<Rightarrow> bnd (wr (WriteModuleRequest (str ''#list''))) (\<lambda>_. listLoop cl []))))"

subsection \<open>Root mode\<close>

definition listModules :: "client \<Rightarrow> (gostring \<Rightarrow> go_error + conn) \<Rightarrow> go_error + module_info list" where
  "listModules cl connectFunc =
    (case connectFunc [] of
       Inl err \<Rightarrow> Inl (Wrap ''connect for #list'' err)
     | Inr rw \<Rightarrow> fst (doListRequest (cl\<lparr>cModule := []\<rparr>) rw))"

text \<open>
  A module and the hidden link that carries its comment. The source sorts with an unstable
  sort; the stable one here is one of its outcomes, and the only one for distinct names.
\<close>

record root_entry =
  reName :: gostring
  reSymlink :: bool
  reTarget :: gostring

definition rootEntries :: "module_info list \<Rightarrow> root_entry list" where
  "rootEntries modules =
    sortStable (\<lambda>a b. strCompare (reName a) (reName b))
      (concat (map (\<lambda>m. [\<lparr>reName = miName m, reSymlink = False, reTarget = []\<rparr>,
         \<lparr>reName = str ''.'' @ miName m @ [9] @ miComment m, reSymlink = True, reTarget = miName m\<rparr>]) modules))"

definition rootDirReadDir :: "module_info list \<Rightarrow> nat \<Rightarrow> int \<Rightarrow> (go_error + root_entry list) \<times> nat" where
  "rootDirReadDir modules off n =
    (let all = rootEntries modules
     in if length all \<le> off then (if n \<le> 0 then Inr [] else Inl EOF, off)
        else let k = (if n \<le> 0 \<or> int (length all - off) < n then length all - off else nat n)
             in (Inr (take k (drop off all)), off + k))"

text \<open>The seconds of Go's zero time, which an info without a modification time reports.\<close>

definition zeroTimeSec :: i64 where
  "zeroTimeSec = - 62135596800"

definition rootEntryInfo :: "root_entry \<Rightarrow> file_info" where
  "rootEntryInfo e =
    \<lparr>finfoName = reName e, finfoMode = (if reSymlink e then ModeSymlink else ModeDir),
     finfoSize = word_of_nat (length (reTarget e)), finfoSec = zeroTimeSec, finfoNsec = 0\<rparr>"

text \<open>\<^verbatim>\<open>strings.SplitN(strings.TrimPrefix(name, "/"), "/", 2)\<close>.\<close>

definition rootParts :: "gostring \<Rightarrow> gostring \<times> gostring option" where
  "rootParts name = Cut (case CutPrefix name [slash] of Some r \<Rightarrow> r | None \<Rightarrow> name) slash"

datatype root_file =
    RootDir "module_info list"
  | InModule opened

text \<open>An operation inside a module, on a connection of its own.\<close>

definition inModule :: "hashes \<Rightarrow> client \<Rightarrow> (gostring \<Rightarrow> go_error + conn) \<Rightarrow> gostring \<Rightarrow> gostring \<Rightarrow>
    (session \<Rightarrow> open_context \<Rightarrow> (client_conn, 'a) io) \<Rightarrow> go_error + 'a" where
  "inModule H cl connectFunc modName path fn =
    (case connectFunc modName of
       Inl err \<Rightarrow> Inl (Wrap ''connect to module'' err)
     | Inr rw \<Rightarrow>
         (case Connect H (cl\<lparr>cModule := modName\<rparr>) (Some rw) None of
            Inl err \<Rightarrow> Inl (Wrap ''handshake with module'' err)
          | Inr (se, c) \<Rightarrow> fst (withEntry (session.truncate se) path (fn (session.truncate se)) c)))"

definition openRoot :: "hashes \<Rightarrow> client \<Rightarrow> (gostring \<Rightarrow> go_error + conn) \<Rightarrow> gostring \<Rightarrow> go_error + root_file" where
  "openRoot H cl connectFunc name =
    (if name = dotName \<or> name = [] then
       (case listModules cl connectFunc of Inl err \<Rightarrow> Inl err | Inr modules \<Rightarrow> Inr (RootDir modules))
     else case rootParts name of (modName, rest) \<Rightarrow>
       (case inModule H cl connectFunc modName
               (case rest of None \<Rightarrow> dotName | Some p \<Rightarrow> if p = [] then dotName else p) openFileFromContext of
          Inl err \<Rightarrow> Inl err | Inr f \<Rightarrow> Inr (InModule f)))"

definition rootLstat :: "hashes \<Rightarrow> client \<Rightarrow> (gostring \<Rightarrow> go_error + conn) \<Rightarrow> gostring \<Rightarrow> go_error + file_info" where
  "rootLstat H cl connectFunc name =
    (case rootParts name of (modName, rest) \<Rightarrow>
       if rest = None \<or> rest = Some []
       then Inr \<lparr>finfoName = modName, finfoMode = ModeDir, finfoSize = 0, finfoSec = zeroTimeSec, finfoNsec = 0\<rparr>
       else inModule H cl connectFunc modName (the rest)
              (\<lambda>_ ctx. ret (flistInfo (baseName (the rest)) (ctxEntry ctx))))"

definition rootReadLink :: "hashes \<Rightarrow> client \<Rightarrow> (gostring \<Rightarrow> go_error + conn) \<Rightarrow> gostring \<Rightarrow> go_error + gostring" where
  "rootReadLink H cl connectFunc name =
    (case rootParts name of (modName, rest) \<Rightarrow>
       if rest = None \<or> rest = Some [] then Inl (Errorf ''readlink: not a module path'')
       else inModule H cl connectFunc modName (the rest)
              (\<lambda>_ ctx. if \<not> wireModeIsSymlink (Mode (ctxEntry ctx)) then fail (Errorf ''not a symlink'')
                      else ret (LinkTarget (ctxEntry ctx))))"

section \<open>The module listing arrives\<close>

lemma spaceEnd_blank [simp]: "spaceEnd (r @ [32]) = 1"
  by (simp add: spaceEnd_def asciiSpace_def)

lemma trimRight_blank: "trimRight (t @ [32]) = trimRight t"
  by (subst trimRight.simps) simp

lemma trimRight_blanks: "trimRight (s @ replicate k 32) = trimRight s"
proof (induction k)
  case (Suc k)
  have e: "s @ replicate (Suc k) 32 = (s @ replicate k 32) @ [32]" by (simp add: replicate_append_same)
  show ?case unfolding e by (simp only: trimRight_blank Suc)
qed simp

lemma TrimSpace_padName: "token name \<Longrightarrow> TrimSpace (padName name) = name"
proof -
  assume t: "token name"
  then obtain b r where n: "name = b # r" "graphic b" by (cases name) (auto simp: token_def)
  have "trimRight name = name"
    using t by (cases name rule: rev_cases) (auto simp: token_def)
  then show ?thesis using n by (simp add: TrimSpace_def padName_def trimRight_blanks [of "b # r", simplified])
qed

text \<open>Modules whose line can be told from the daemon's own: visible names, no line break.\<close>

definition listable :: "module_info \<Rightarrow> bool" where
  "listable m \<longleftrightarrow> token (miName m) \<and> hd (miName m) \<noteq> 64 \<and> 10 \<notin> set (miComment m)"

definition moduleLine :: "module_info \<Rightarrow> gostring" where
  "moduleLine m = padName (miName m) @ [9] @ miComment m"

lemma listable_line:
  assumes "listable m"
  shows "10 \<notin> set (moduleLine m)" "listEntry (moduleLine m) = m" "\<not> HasPrefix (moduleLine m) (64 # p)"
proof -
  obtain b r where n: "miName m = b # r" "b \<noteq> 64" using assms by (cases "miName m") (auto simp: listable_def token_def)
  have g: "\<forall>x\<in>set (padName (miName m)). x \<noteq> 10 \<and> x \<noteq> 9"
    using assms by (auto simp: listable_def token_def padName_def list_all_iff graphic_def)
  then show "10 \<notin> set (moduleLine m)" using assms by (auto simp: moduleLine_def listable_def)
  have "Cut (padName (miName m) @ 9 # miComment m) 9 = (padName (miName m), Some (miComment m))"
    by (rule Cut_append) (use g in blast)
  then show "listEntry (moduleLine m) = m"
    using TrimSpace_padName assms by (simp add: listEntry_def moduleLine_def listable_def)
  show "\<not> HasPrefix (moduleLine m) (64 # p)" using n by (simp add: HasPrefix_def moduleLine_def padName_def)
qed

lemma at_prefixes:
  "str ''@RSYNCD: EXIT'' = 64 # tl (str ''@RSYNCD: EXIT'')" "str ''@ERROR'' = 64 # tl (str ''@ERROR'')"
  "str ''@RSYNCD: AUTHREQD '' = 64 # tl (str ''@RSYNCD: AUTHREQD '')"
  by (simp_all add: str_def)

lemma listLoop_line:
  assumes "listable m" "cin c = Src (moduleLine m @ 10 # rest) e"
  shows "listLoop cl acc c = listLoop cl (acc @ [m]) (c\<lparr>cin := Src rest e\<rparr>)"
proof -
  note l = listable_line [OF assms(1)]
  have r: "rd readTextLine c = (Inr (moduleLine m), c\<lparr>cin := Src rest e\<rparr>)"
    using reads_line [OF l(1), of rest e] assms(2) by (simp add: rd_def readTextLine_line)
  have "\<not> HasPrefix (moduleLine m) (str ''@RSYNCD: EXIT'')" "\<not> HasPrefix (moduleLine m) (str ''@ERROR'')"
    "CutPrefix (moduleLine m) (str ''@RSYNCD: AUTHREQD '') = None"
    unfolding CutPrefix_def by (subst at_prefixes, simp only: l(3) if_False not_False_eq_True)+
  with r show ?thesis by (simp add: listLoop.simps [of cl acc c] l(2))
qed

lemma listLoop_end:
  "cin c = Src (if 25 \<le> v then str ''@RSYNCD: EXIT'' @ [10] else []) EOF \<Longrightarrow>
   \<exists>c'. listLoop cl acc c = (Inr acc, c') \<and> cout c' = cout c"
proof (cases "25 \<le> v")
  case True
  assume "cin c = Src (if 25 \<le> v then str ''@RSYNCD: EXIT'' @ [10] else []) EOF"
  with True have "rd readTextLine c = (Inr (str ''@RSYNCD: EXIT''), c\<lparr>cin := Src [] EOF\<rparr>)"
    using reads_line [of "str ''@RSYNCD: EXIT''" "[]" EOF] by (simp add: rd_def readTextLine_line str_def)
  then show ?thesis by (simp add: listLoop.simps [of cl acc c] HasPrefix_def)
next
  case False
  assume "cin c = Src (if 25 \<le> v then str ''@RSYNCD: EXIT'' @ [10] else []) EOF"
  with False have "rd readTextLine c = (Inl EOF, c\<lparr>cin := Src [] EOF\<rparr>)"
    by (simp add: rd_def readTextLine_def)
  then show ?thesis by (simp add: listLoop.simps [of cl acc c])
qed

lemma listLoop_list:
  assumes "\<forall>m\<in>set ms. listable m" "cin c = Src (WriteModuleList ms v) EOF"
  shows "\<exists>c'. listLoop cl acc c = (Inr (acc @ ms), c') \<and> cout c' = cout c"
  using assms
proof (induction ms arbitrary: acc c)
  case Nil
  then show ?case using listLoop_end [of c v cl acc] by (simp add: WriteModuleList_def)
next
  case (Cons m ms)
  have "cin c = Src (moduleLine m @ 10 # WriteModuleList ms v) EOF"
    using Cons.prems(2) by (simp add: WriteModuleList_def moduleLine_def)
  then have "listLoop cl acc c = listLoop cl (acc @ [m]) (c\<lparr>cin := Src (WriteModuleList ms v) EOF\<rparr>)"
    using Cons.prems(1) by (intro listLoop_line) simp_all
  with Cons.IH [of "c\<lparr>cin := Src (WriteModuleList ms v) EOF\<rparr>" "acc @ [m]"] Cons.prems(1) show ?case by simp
qed

text \<open>Both ends of a listing request, for a table of modules in any order.\<close>

definition moduleInfo :: "server_module \<Rightarrow> module_info" where
  "moduleInfo m = \<lparr>miName = smName m, miComment = smComment m\<rparr>"

definition listRequest :: "client \<Rightarrow> byte list" where
  "listRequest cl = WriteGreeting (ApplyDefaults (cGreeting cl)) @ WriteModuleRequest (str ''#list'')"

definition listAnswer :: "greeting \<Rightarrow> (gostring \<times> server_module) list \<Rightarrow> int \<Rightarrow> byte list" where
  "listAnswer g modules v = WriteGreeting (ApplyDefaults g) @ WriteModuleList (map (moduleInfo \<circ> snd) modules) v"

lemma doHandshake_list:
  assumes "greeting_ok (ApplyDefaults (cGreeting cl))"
    and "Negotiate (ApplyDefaults (cGreeting cl)) (ApplyDefaults g) = Inr (v, sub, digest)"
  shows "doHandshake g modules rand seedRand now \<lparr>cin = Src (listRequest cl) e, cout = []\<rparr> =
    (Inr None, \<lparr>cin = Src [] e, cout = listAnswer g modules v\<rparr>)"
proof -
  have 1: "serverGreet g \<lparr>cin = Src (listRequest cl) e, cout = []\<rparr> =
      (Inr v, \<lparr>cin = Src (WriteModuleRequest (str ''#list'')) e, cout = WriteGreeting (ApplyDefaults g)\<rparr>)"
    by (subst serverGreet_run [OF assms, where rest = "WriteModuleRequest (str ''#list'')"]) (simp_all add: listRequest_def)
  have "10 \<notin> set (str ''#list'')" by (simp add: str_def)
  note m = rd_reads [OF reads_module [OF this], where rest = "[]"]
  have "(\<lambda>(_ :: gostring, m). \<lparr>miName = smName m, miComment = smComment m\<rparr>) = moduleInfo \<circ> snd"
    by (simp add: moduleInfo_def comp_def case_prod_unfold)
  then show ?thesis by (simp add: doHandshake_def bnd_def 1 selectModule_def m wr_def listAnswer_def)
qed

lemma doListRequest_run:
  assumes "greeting_ok (ApplyDefaults g)"
    and "Negotiate (ApplyDefaults (cGreeting cl)) (ApplyDefaults g) = Inr (v, sub, digest)"
    and "\<forall>m\<in>set (map (moduleInfo \<circ> snd) modules). listable m"
  shows "\<exists>c'. doListRequest cl \<lparr>cin = Src (listAnswer g modules v) EOF, cout = []\<rparr> = (Inr (map (moduleInfo \<circ> snd) modules), c') \<and>
    cout c' = listRequest cl"
proof -
  let ?ms = "map (moduleInfo \<circ> snd) modules"
  let ?c = "\<lparr>cin = Src (WriteModuleList ?ms v) EOF, cout = listRequest cl\<rparr>"
  have 1: "rd (wrapping ''read server greeting'' ReadGreeting) \<lparr>cin = Src (listAnswer g modules v) EOF, cout = out\<rparr> =
      (Inr (ApplyDefaults g), \<lparr>cin = Src (WriteModuleList ?ms v) EOF, cout = out\<rparr>)" for out
    by (subst rd_reads [OF reads_wrapping [OF reads_greeting [OF assms(1)]]]) (simp_all add: listAnswer_def)
  obtain c' where "listLoop cl [] ?c = (Inr ?ms, c')" "cout c' = listRequest cl"
    using listLoop_list [OF assms(3), of ?c v cl "[]"] by auto
  then show ?thesis by (simp add: doListRequest_def Let_def bnd_def wr_def 1 assms(2) listRequest_def)
qed

lemma listRequest_module [simp]: "listRequest (cl\<lparr>cModule := n\<rparr>) = listRequest cl"
  by (simp add: listRequest_def)

text \<open>
  C16: opening the root of a daemon lists its modules. The client's request is what the daemon
  reads, the daemon ends the connection cleanly, and what it answers is read as the modules
  the server was made of, each with its comment, in whatever order Go iterates the map.
\<close>

theorem root_listing:
  assumes "NewServer mods = Inr table" and "mset modules = mset table"
    and "\<forall>m\<in>set mods. listable (moduleInfo m)"
    and "greeting_ok (ApplyDefaults (cGreeting cl))" and "greeting_ok (ApplyDefaults g)"
    and "Negotiate (ApplyDefaults (cGreeting cl)) (ApplyDefaults g) = Inr (v, sub, digest)"
  shows "\<exists>request answer listed.
    doHandshake g modules rand seedRand now \<lparr>cin = Src request e, cout = []\<rparr> = (Inr None, \<lparr>cin = Src [] e, cout = answer\<rparr>) \<and>
    (\<exists>c'. doListRequest (cl\<lparr>cModule := []\<rparr>) \<lparr>cin = Src answer EOF, cout = []\<rparr> = (Inr listed, c') \<and> cout c' = request) \<and>
    openRoot H cl (\<lambda>_. Inr \<lparr>cin = Src answer EOF, cout = []\<rparr>) dotName = Inr (RootDir listed) \<and>
    mset listed = image_mset moduleInfo (mset mods)"
proof -
  let ?ms = "map (moduleInfo \<circ> snd) modules"
  have t: "table = map (\<lambda>m. (smName m, m)) mods"
    using assms(1) by (simp add: NewServer_def addModules_result split: if_splits)
  have m: "mset ?ms = image_mset moduleInfo (mset mods)"
    unfolding mset_map assms(2) t by (simp add: multiset.map_comp comp_def)
  then have "set ?ms = moduleInfo ` set mods" by (metis set_image_mset set_mset_mset)
  with assms(3) have l: "\<forall>m\<in>set ?ms. listable m" by simp
  obtain c' where c: "doListRequest (cl\<lparr>cModule := []\<rparr>) \<lparr>cin = Src (listAnswer g modules v) EOF, cout = []\<rparr> = (Inr ?ms, c')"
      "cout c' = listRequest cl"
    using doListRequest_run [OF assms(5) _ l, of "cl\<lparr>cModule := []\<rparr>" v sub digest] assms(6) by auto
  have "openRoot H cl (\<lambda>_. Inr \<lparr>cin = Src (listAnswer g modules v) EOF, cout = []\<rparr>) dotName = Inr (RootDir ?ms)"
    by (simp add: openRoot_def listModules_def c)
  with doHandshake_list [OF assms(4,6)] c m show ?thesis
    by (intro exI [of _ "listRequest cl"] exI [of _ "listAnswer g modules v"] exI [of _ ?ms]) blast
qed

text \<open>The zero greeting, which both sides fill in with the defaults.\<close>

definition zeroGreeting :: greeting where
  "zeroGreeting = \<lparr>Version = 0, SubProtocol = 0, Digests = []\<rparr>"

lemma zeroGreeting_agrees:
  "greeting_ok (ApplyDefaults zeroGreeting)"
  "Negotiate (ApplyDefaults zeroGreeting) (ApplyDefaults zeroGreeting) = Inr (32, 0, str ''md5'')"
  by code_simp+

theorem root_listing_witness:
  "\<exists>answer c'. doListRequest \<lparr>cModule = [], cGreeting = zeroGreeting, cAuthUser = [], cAuthResponse = None\<rparr>
      \<lparr>cin = Src answer EOF, cout = []\<rparr> = (Inr [\<lparr>miName = str ''pub'', miComment = str ''public files''\<rparr>], c')"
proof -
  let ?m = "\<lparr>smName = str ''pub'', smComment = str ''public files'', smRoot = Inr (), smReadOnly = True, smAuth = None\<rparr>"
  let ?cl = "\<lparr>cModule = [], cGreeting = zeroGreeting, cAuthUser = [], cAuthResponse = None\<rparr>"
  have n: "NewServer [?m] = Inr [(str ''pub'', ?m)]" by (simp add: NewServer_def)
  have "listable \<lparr>miName = str ''pub'', miComment = str ''public files''\<rparr>" by code_simp
  then have l: "\<forall>m\<in>set [?m]. listable (moduleInfo m)" by (simp add: moduleInfo_def)
  have g: "greeting_ok (ApplyDefaults (cGreeting ?cl))"
    "Negotiate (ApplyDefaults (cGreeting ?cl)) (ApplyDefaults zeroGreeting) = Inr (32, 0, str ''md5'')"
    by (simp_all add: zeroGreeting_agrees)
  from root_listing [OF n refl l g(1) zeroGreeting_agrees(1) g(2), of "Inl EOF" None 0 EOF "\<lparr>md4 = id, md5 = id\<rparr>"]
  obtain answer listed c' where "doListRequest ?cl \<lparr>cin = Src answer EOF, cout = []\<rparr> = (Inr listed, c')"
      "mset listed = {#moduleInfo ?m#}"
    by auto
  then show ?thesis by (intro exI [of _ answer] exI [of _ c']) (simp add: moduleInfo_def)
qed

section \<open>Reading a directory in pieces\<close>

text \<open>Calls of \<^verbatim>\<open>ReadDir(n)\<close> with a positive count until the end of the directory.\<close>

function readPages :: "'a list \<Rightarrow> nat \<Rightarrow> nat \<Rightarrow> 'a list list" where
  "readPages xs n off =
    (case moduleDirReadDir xs off (int (Suc n)) of
       (Inl _, _) \<Rightarrow> []
     | (Inr page, off') \<Rightarrow> page # readPages xs n off')"
  by pat_completeness auto
termination
  by (relation "measure (\<lambda>(xs, n, off). length xs - off)") (auto simp: moduleDirReadDir_def Let_def split: if_splits)

declare readPages.simps [simp del]

lemma rootDir_pages: "rootDirReadDir modules = moduleDirReadDir (rootEntries modules)"
  by (intro ext) (simp add: rootDirReadDir_def moduleDirReadDir_def Let_def)

lemma concat_readPages: "concat (readPages xs n off) = drop off xs"
proof (induction xs n off rule: readPages.induct)
  case (1 xs n off)
  show ?case
  proof (cases "length xs \<le> off")
    case False
    let ?m = "if int (length xs - off) < int (Suc n) then length xs - off else Suc n"
    have p: "moduleDirReadDir xs off (int (Suc n)) = (Inr (take ?m (drop off xs)), off + ?m)"
      using False by (auto simp add: moduleDirReadDir_def Let_def nat_add_distrib)
    from "1.IH" [OF p [symmetric] refl] show ?thesis
      by (subst readPages.simps) (simp only: p sum.case prod.case concat.simps drop_drop add.commute [of ?m]
          append_take_drop_id [of ?m "drop off xs", unfolded drop_drop add.commute [of ?m]])
  qed (simp add: readPages.simps [of xs n off] moduleDirReadDir_def)
qed

lemma readPages_bounded: "list_all (\<lambda>page. page \<noteq> [] \<and> length page \<le> Suc n) (readPages xs n off)"
proof (induction xs n off rule: readPages.induct)
  case (1 xs n off)
  then show ?case
    by (subst readPages.simps) (auto simp: moduleDirReadDir_def Let_def)
qed

lemma sortStable_strCompare: "sortStable (\<lambda>a b. strCompare (f a) (f b)) xs = sort_key f xs"
proof -
  have "insertBy (\<lambda>a b. strCompare (f a) (f b)) x ys = insort_key f x ys" for x ys
    by (induction ys) (auto simp: strCompare_def)
  then show ?thesis by (induction xs) (simp_all add: sortStable_def)
qed

text \<open>
  C18: what reading a directory gives. Calls of \<^verbatim>\<open>ReadDir\<close> with any positive count deliver the
  children in non-empty pages of at most that many, in order, none twice and none left out,
  and then the end; a non-positive count delivers the rest at once. In root mode the children
  are, sorted by name, one directory and one comment link for each module.
\<close>

theorem readdir_pages:
  "concat (readPages children n 0) = children \<and>
   list_all (\<lambda>page. page \<noteq> [] \<and> length page \<le> Suc n) (readPages children n 0) \<and>
   fst (moduleDirReadDir children off 0) = Inr (drop off children) \<and>
   rootDirReadDir modules off k = moduleDirReadDir (rootEntries modules) off k \<and>
   sorted (map reName (rootEntries modules)) \<and>
   mset (rootEntries modules) =
     mset (map (\<lambda>m. \<lparr>reName = miName m, reSymlink = False, reTarget = []\<rparr>) modules) +
     mset (map (\<lambda>m. \<lparr>reName = 46 # miName m @ 9 # miComment m, reSymlink = True, reTarget = miName m\<rparr>) modules)"
proof -
  have "mset (concat (map (\<lambda>m. [f m, g m]) ms)) = mset (map f ms) + mset (map g ms)"
    for f g :: "module_info \<Rightarrow> root_entry" and ms
    by (induction ms) auto
  then show ?thesis
    by (simp add: concat_readPages readPages_bounded rootDir_pages rootEntries_def sortStable_strCompare str_def)
       (simp add: moduleDirReadDir_def)
qed

section \<open>A session over several operations\<close>

text \<open>
  C40: a re-handshake that fails breaks the session. The failed operation leaves the session
  marked as live without streams, so that the next one, instead of dialing again, dereferences
  nil; only the one after that dials.
\<close>

theorem failed_reconnect_panics:
  assumes "lconsumed s \<or> \<not> lrw s" and "runHandshake H cl rw = (Inl err, rw')" and "valid name" and "valid name'"
  defines "s1 \<equiv> snd (liveOpen H cl (Some (Inr rw)) valid name s)"
  shows "fst (liveOpen H cl (Some (Inr rw)) valid name s) = Inl err \<and>
    fst (liveOpen H cl dial valid name' s1) = Inl (Panic ''nil pointer dereference'') \<and>
    lconsumed (snd (liveOpen H cl dial valid name' s1))"
  using assms by (auto simp: liveOpen_def liveWithEntry_def acquireLive_def handshakeOn_def resetSession_def consume_def)

theorem failed_reconnect_panics_witness:
  "\<forall>H cl dial. let rw = \<lparr>cin = Src [] EOF, cout = []\<rparr>; s = \<lparr>lrw = False, lconsumed = True, lconn = None, lsess = None\<rparr>;
       s1 = snd (liveOpen H cl (Some (Inr rw)) (\<lambda>_. True) dotName s)
     in fst (liveOpen H cl (Some (Inr rw)) (\<lambda>_. True) dotName s) = Inl (Wrap ''read server greeting'' (Wrap ''read greeting'' EOF)) \<and>
       fst (liveOpen H cl dial (\<lambda>_. True) dotName s1) = Inl (Panic ''nil pointer dereference'')"
proof -
  have "runHandshake H cl \<lparr>cin = Src [] EOF, cout = []\<rparr> =
      (Inl (Wrap ''read server greeting'' (Wrap ''read greeting'' EOF)),
       \<lparr>cin = Src [] EOF, cout = WriteGreeting (ApplyDefaults (cGreeting cl))\<rparr>)" for H cl
    by (simp add: runHandshake_def Let_def bnd_def wr_def rd_def wrapping_def ReadGreeting_def readLine_def)
  from failed_reconnect_panics [OF _ this, of "\<lparr>lrw = False, lconsumed = True, lconn = None, lsess = None\<rparr>"]
  show ?thesis by (simp add: Let_def)
qed

end
