(* ===== verification/Client_Files.thy ===== *)
theory Client_Files
  imports Client_Session
begin

text \<open>
  The values the client hands out (\<^verbatim>\<open>src/client-open.go\<close>): open files with their offsets, the
  entries of their listings, and the methods of \<^verbatim>\<open>fs.File\<close>, \<^verbatim>\<open>fs.ReadDirFile\<close>, \<^verbatim>\<open>fs.FileInfo\<close>
  and \<^verbatim>\<open>fs.DirEntry\<close> on them. What a value answers about its type is what it can be used for.
\<close>

section \<open>Definitions\<close>

record flist_file =
  ffInfo :: file_info
  ffData :: "byte list"
  ffOff :: nat

record module_dir_file =
  mdInfo :: file_info
  mdChildren :: "flist_entry list"
  mdOff :: nat

record symlink_file =
  slInfo :: file_info
  slTarget :: gostring

record root_dir =
  rdModules :: "module_info list"
  rdOff :: nat

text \<open>A value of the interface \<^verbatim>\<open>fs.File\<close>.\<close>

datatype client_file =
    FlistFile flist_file
  | ModuleDirFile module_dir_file
  | LinkFile symlink_file
  | RootDirFile root_dir

datatype dir_entry =
    FlistDirEntry flist_entry
  | RootDirEntry root_entry

subsection \<open>Entries\<close>

fun entryName :: "dir_entry \<Rightarrow> gostring" where
  "entryName (FlistDirEntry e) = baseName (Name e)"
| "entryName (RootDirEntry e) = reName e"

definition rootMode :: "root_entry \<Rightarrow> u32" where
  "rootMode e = (if reSymlink e then ModeSymlink else ModeDir)"

fun entryIsDir :: "dir_entry \<Rightarrow> bool" where
  "entryIsDir (FlistDirEntry e) \<longleftrightarrow> wireModeIsDir (Mode e)"
| "entryIsDir (RootDirEntry e) \<longleftrightarrow> modeIsDir (rootMode e)"

fun entryType :: "dir_entry \<Rightarrow> u32" where
  "entryType (FlistDirEntry e) = modeType (wireModeToFS (Mode e))"
| "entryType (RootDirEntry e) = modeType (rootMode e)"

fun entryInfo :: "dir_entry \<Rightarrow> file_info" where
  "entryInfo (FlistDirEntry e) = flistInfo (baseName (Name e)) e"
| "entryInfo (RootDirEntry e) = rootEntryInfo e"

definition infoIsDir :: "file_info \<Rightarrow> bool" where
  "infoIsDir fi \<longleftrightarrow> modeIsDir (finfoMode fi)"

subsection \<open>Files\<close>

text \<open>What \<^verbatim>\<open>openFile\<close>, \<^verbatim>\<open>openFileFromContext\<close> and \<^verbatim>\<open>openRoot\<close> build: the offset starts at zero.\<close>

fun newFile :: "opened \<Rightarrow> client_file" where
  "newFile (RegularFile info data) = FlistFile \<lparr>ffInfo = info, ffData = data, ffOff = 0\<rparr>"
| "newFile (DirFile info children) = ModuleDirFile \<lparr>mdInfo = info, mdChildren = children, mdOff = 0\<rparr>"
| "newFile (SymlinkFile info target) = LinkFile \<lparr>slInfo = info, slTarget = target\<rparr>"

fun newRootFile :: "root_file \<Rightarrow> client_file" where
  "newRootFile (RootDir modules) = RootDirFile \<lparr>rdModules = modules, rdOff = 0\<rparr>"
| "newRootFile (InModule f) = newFile f"

definition rootDirStat :: "root_dir \<Rightarrow> file_info" where
  "rootDirStat d = \<lparr>finfoName = dotName, finfoMode = ModeDir, finfoSize = 0, finfoSec = zeroTimeSec, finfoNsec = 0\<rparr>"

fun fileStat :: "client_file \<Rightarrow> file_info" where
  "fileStat (FlistFile f) = ffInfo f"
| "fileStat (ModuleDirFile d) = mdInfo d"
| "fileStat (LinkFile l) = slInfo l"
| "fileStat (RootDirFile d) = rootDirStat d"

definition errInvalid :: go_error where
  "errInvalid = Errorf ''invalid argument''"

text \<open>\<^verbatim>\<open>Read\<close> into a buffer of \<open>n\<close> bytes; of the four kinds only a regular file has bytes.\<close>

definition flistRead :: "flist_file \<Rightarrow> nat \<Rightarrow> (go_error + byte list) \<times> flist_file" where
  "flistRead f n = (case flistFileRead (ffData f) (ffOff f) n of (res, off) \<Rightarrow> (res, f\<lparr>ffOff := off\<rparr>))"

definition moduleDirRead :: "module_dir_file \<Rightarrow> nat \<Rightarrow> go_error + byte list" where
  "moduleDirRead d n = Inl errInvalid"

definition symlinkRead :: "symlink_file \<Rightarrow> nat \<Rightarrow> go_error + byte list" where
  "symlinkRead l n = Inl errInvalid"

definition rootDirRead :: "root_dir \<Rightarrow> nat \<Rightarrow> go_error + byte list" where
  "rootDirRead d n = Inl errInvalid"

fun fileRead :: "client_file \<Rightarrow> nat \<Rightarrow> (go_error + byte list) \<times> client_file" where
  "fileRead (FlistFile f) n = (case flistRead f n of (res, f') \<Rightarrow> (res, FlistFile f'))"
| "fileRead (ModuleDirFile d) n = (moduleDirRead d n, ModuleDirFile d)"
| "fileRead (LinkFile l) n = (symlinkRead l n, LinkFile l)"
| "fileRead (RootDirFile d) n = (rootDirRead d n, RootDirFile d)"

definition flistFileReadDir :: "flist_file \<Rightarrow> int \<Rightarrow> go_error + dir_entry list" where
  "flistFileReadDir f n = Inl (Wrap ''readdir'' errInvalid)"

definition symlinkReadDir :: "symlink_file \<Rightarrow> int \<Rightarrow> go_error + dir_entry list" where
  "symlinkReadDir l n = Inl (Wrap ''readdir'' errInvalid)"

fun fileReadDir :: "client_file \<Rightarrow> int \<Rightarrow> (go_error + dir_entry list) \<times> client_file" where
  "fileReadDir (FlistFile f) n = (flistFileReadDir f n, FlistFile f)"
| "fileReadDir (LinkFile l) n = (symlinkReadDir l n, LinkFile l)"
| "fileReadDir (ModuleDirFile d) n =
    (case moduleDirReadDir (mdChildren d) (mdOff d) n of
       (res, off) \<Rightarrow> (map_sum id (map FlistDirEntry) res, ModuleDirFile (d\<lparr>mdOff := off\<rparr>)))"
| "fileReadDir (RootDirFile d) n =
    (case rootDirReadDir (rdModules d) (rdOff d) n of
       (res, off) \<Rightarrow> (map_sum id (map RootDirEntry) res, RootDirFile (d\<lparr>rdOff := off\<rparr>)))"

lemmas method_defs = rootDirStat_def flistRead_def moduleDirRead_def symlinkRead_def rootDirRead_def flistFileReadDir_def symlinkReadDir_def

text \<open>One use of an open file; \<^verbatim>\<open>Close\<close> and \<^verbatim>\<open>Stat\<close> change nothing.\<close>

inductive file_step :: "client_file \<Rightarrow> client_file \<Rightarrow> bool" where
  reading: "fileRead f n = (res, f') \<Longrightarrow> file_step f f'"
| listing: "fileReadDir f n = (res, f') \<Longrightarrow> file_step f f'"

text \<open>The files a client has opened, in either mode, and used since.\<close>

inductive in_use :: "client_file \<Rightarrow> bool" where
  from_module: "Open valid se name c = (Inr f, c') \<Longrightarrow> in_use (newFile f)"
| from_root: "openRoot H cl connectFunc name = Inr f \<Longrightarrow> in_use (newRootFile f)"
| used: "in_use f \<Longrightarrow> file_step f f' \<Longrightarrow> in_use f'"

section \<open>Types\<close>

text \<open>The type bits of a mode made from a wire mode are the ones the type asks for.\<close>

lemma wireModeToFS_type:
  "modeIsDir (wireModeToFS m) \<longleftrightarrow> wireModeIsDir m" "modeType (wireModeToFS m) = ModeSymlink \<longleftrightarrow> wireModeIsSymlink m"
proof -
  define t where "t = m AND 0xF000"
  define p where "p = modePerm (m AND 0xFFF)"
  have perm: "p AND x = 0" if "0x1FF AND x = 0" for x
    using that by (simp add: p_def modePerm_def and.assoc)
  have w: "wireModeToFS m = (if t = 0x4000 then ModeDir else if t = 0xA000 then ModeSymlink
      else if t = 0x2000 then ModeDevice OR ModeCharDevice else if t = 0x6000 then ModeDevice
      else if t = 0x1000 then ModeNamedPipe else if t = 0xC000 then ModeSocket else 0) OR p"
    by (simp add: wireModeToFS_def t_def p_def)
  have 1: "p AND ModeDir = 0" "p AND (ModeDir OR ModeSymlink OR ModeNamedPipe OR ModeSocket OR ModeDevice OR ModeCharDevice OR ModeIrregular) = 0"
    by (rule perm, simp add: mode_defs)+
  show "modeIsDir (wireModeToFS m) \<longleftrightarrow> wireModeIsDir m"
    unfolding w wireModeIsDir_def t_def [symmetric] modeIsDir_def bit.conj_disj_distrib2 1 by (simp add: mode_defs)
  show "modeType (wireModeToFS m) = ModeSymlink \<longleftrightarrow> wireModeIsSymlink m"
    unfolding w wireModeIsSymlink_def t_def [symmetric] modeType_def bit.conj_disj_distrib2 1 by (simp add: mode_defs)
qed

fun typed :: "client_file \<Rightarrow> bool" where
  "typed (FlistFile f) \<longleftrightarrow> \<not> infoIsDir (ffInfo f) \<and> modeType (finfoMode (ffInfo f)) \<noteq> ModeSymlink"
| "typed (ModuleDirFile d) \<longleftrightarrow> infoIsDir (mdInfo d)"
| "typed (LinkFile l) \<longleftrightarrow> \<not> infoIsDir (slInfo l) \<and> modeType (finfoMode (slInfo l)) = ModeSymlink"
| "typed (RootDirFile d) \<longleftrightarrow> True"

lemma info_types: "infoIsDir (flistInfo name e) \<longleftrightarrow> wireModeIsDir (Mode e)"
  "modeType (finfoMode (flistInfo name e)) = ModeSymlink \<longleftrightarrow> wireModeIsSymlink (Mode e)"
  by (simp_all add: infoIsDir_def flistInfo_def wireModeToFS_type)

lemma openFileFromContext_typed: "openFileFromContext se ctx c = (Inr f, c') \<Longrightarrow> typed (newFile f)"
  by (auto simp: openFileFromContext_def Let_def info_types bnd_Inr_iff split: if_splits) 

lemma withEntry_Inr:
  assumes "withEntry se name fn c = (Inr f, c')"
  shows "\<exists>ctx c1 c2. fn ctx c1 = (Inr f, c2)"
proof (rule ccontr)
  assume n: "\<not> ?thesis"
  have "fst (withEntry se name fn c) \<noteq> Inr f"
  proof -
    obtain res c1 where l: "rd (wrapping ''read file list'' (readFileList se)) c = (res, c1)" by (rule prod.exhaust)
    show ?thesis
    proof (cases res)
      case (Inr es)
      let ?e = "case findFlistEntry es name of
             Some e \<Rightarrow> fn \<lparr>ctxEntries = es, ctxEntry = e,
                          ctxNdx = (case sortFlistEntries es (sversion se) (Name e) of Some i \<Rightarrow> i | None \<Rightarrow> 0), ctxName = name\<rparr> c1
           | None \<Rightarrow> (Inl (Errorf ''file does not exist''), c1)"
      obtain r c2 where r: "?e = (r, c2)" by (rule prod.exhaust)
      have "r \<noteq> Inr f" using n r by (auto split: option.splits)
      then show ?thesis using l Inr r by (cases "finishSession se c2") (auto simp: withEntry_def bnd_def split: sum.splits)
    qed (use l in \<open>simp add: withEntry_def bnd_def\<close>)
  qed
  with assms show False by simp
qed

lemma inModule_Inr:
  assumes "inModule H cl connectFunc modName path fn = Inr f"
  shows "\<exists>se ctx c1 c2. fn se ctx c1 = (Inr f, c2)"
proof -
  obtain se :: full_session and c where "fst (withEntry (session.truncate se) path (fn (session.truncate se)) c) = Inr f"
    using assms by (auto simp: inModule_def split: sum.splits)
  then obtain c' where "withEntry (session.truncate se) path (fn (session.truncate se)) c = (Inr f, c')" by (metis prod.collapse)
  from withEntry_Inr [OF this] show ?thesis by blast
qed

lemma in_use_typed: "in_use f \<Longrightarrow> typed f"
proof (induction rule: in_use.induct)
  case (from_module valid se name c f c')
  then have "withEntry se name (openFileFromContext se) c = (Inr f, c')" by (simp add: Open_def split: if_splits)
  from withEntry_Inr [OF this] obtain ctx c1 c2 where "openFileFromContext se ctx c1 = (Inr f, c2)" by blast
  then show ?case by (rule openFileFromContext_typed)
next
  case (from_root H cl connectFunc name f)
  show ?case
  proof (cases f)
    case (InModule g)
    then obtain modName path where "inModule H cl connectFunc modName path openFileFromContext = Inr g"
      using from_root by (auto simp: openRoot_def split: if_splits sum.splits prod.splits)
    from inModule_Inr [OF this] obtain se ctx c1 c2 where "openFileFromContext se ctx c1 = (Inr g, c2)" by blast
    from openFileFromContext_typed [OF this] InModule show ?thesis by simp
  qed simp
next
  case (used f f')
  from used(2,3) show ?case by (cases f rule: client_file.exhaust) (auto elim!: file_step.cases simp: method_defs split: prod.splits)
qed

lemma file_step_stat: "file_step f f' \<Longrightarrow> fileStat f' = fileStat f"
  by (cases f) (auto elim!: file_step.cases simp: method_defs split: prod.splits)

lemma entry_types:
  "entryIsDir d \<longleftrightarrow> infoIsDir (entryInfo d)" "entryType d = modeType (finfoMode (entryInfo d))" "entryName d = finfoName (entryInfo d)"
  by (cases d; simp add: info_types; simp add: infoIsDir_def rootMode_def rootEntryInfo_def flistInfo_def)+

text \<open>
  C17: the type a client's file or entry reports is what it can be used for. For every file opened
  in either mode, after any use of it: \<^verbatim>\<open>ReadDir\<close> is refused exactly when \<^verbatim>\<open>Stat\<close> does not say
  directory, \<^verbatim>\<open>Read\<close> exactly when it says directory or symbolic link, using the file does not
  change what \<^verbatim>\<open>Stat\<close> says, and every entry of a listing has the name, type and directory
  flag of the information it gives.
\<close>

theorem file_types:
  assumes "in_use f"
  shows "(fst (fileReadDir f k) = Inl (Wrap ''readdir'' errInvalid) \<longleftrightarrow> \<not> infoIsDir (fileStat f)) \<and>
    (fst (fileRead f n) = Inl errInvalid \<longleftrightarrow> infoIsDir (fileStat f) \<or> modeType (finfoMode (fileStat f)) = ModeSymlink) \<and>
    fileStat (snd (fileReadDir f k)) = fileStat f \<and> fileStat (snd (fileRead f n)) = fileStat f \<and>
    (entryIsDir d \<longleftrightarrow> infoIsDir (entryInfo d)) \<and> entryType d = modeType (finfoMode (entryInfo d)) \<and>
    entryName d = finfoName (entryInfo d)"
proof -
  have "file_step f (snd (fileReadDir f k))" "file_step f (snd (fileRead f n))"
    by (rule file_step.listing [OF prod.collapse [symmetric]], rule file_step.reading [OF prod.collapse [symmetric]])
  moreover have "infoIsDir (fileStat (RootDirFile d))" for d by (simp add: rootDirStat_def infoIsDir_def modeIsDir_def mode_defs)
  ultimately show ?thesis
    using in_use_typed [OF assms] file_step_stat [of f]
    by (cases f rule: client_file.exhaust) (simp_all add: entry_types moduleDirReadDir_def rootDirReadDir_def flistFileRead_def errInvalid_def Let_def method_defs)
qed

theorem file_types_witness:
  "\<exists>d. in_use (RootDirFile d) \<and> infoIsDir (fileStat (RootDirFile d)) \<and>
     fst (fileRead (RootDirFile d) 4) = Inl errInvalid \<and>
     fst (fileReadDir (RootDirFile d) 0) =
       Inr [RootDirEntry \<lparr>reName = str ''pub'', reSymlink = False, reTarget = []\<rparr>]"
proof -
  let ?ms = "[\<lparr>miName = str ''pub'', miComment = []\<rparr>]"
  let ?start = "\<lparr>rdModules = ?ms, rdOff = 0\<rparr>" and ?d = "\<lparr>rdModules = ?ms, rdOff = 1\<rparr>"
  let ?cl = "\<lparr>cModule = [], cGreeting = zeroGreeting, cAuthUser = [], cAuthResponse = None\<rparr> :: client"
  let ?m = "\<lparr>smName = str ''pub'', smComment = [], smRoot = Inr (), smReadOnly = True, smAuth = None\<rparr>"
  have l: "\<forall>m\<in>set (map (moduleInfo \<circ> snd) [(str ''pub'', ?m)]). listable m" by code_simp
  obtain c' where "doListRequest ?cl \<lparr>cin = Src (listAnswer zeroGreeting [(str ''pub'', ?m)] 32) EOF, cout = []\<rparr> = (Inr ?ms, c')"
    using doListRequest_run [OF zeroGreeting_agrees(1) _ l, of ?cl] zeroGreeting_agrees(2) by (auto simp: moduleInfo_def)
  then have "openRoot \<lparr>md4 = id, md5 = id\<rparr> ?cl (\<lambda>_. Inr \<lparr>cin = Src (listAnswer zeroGreeting [(str ''pub'', ?m)] 32) EOF, cout = []\<rparr>) dotName =
      Inr (RootDir ?ms)"
    by (simp add: openRoot_def listModules_def)
  from in_use.from_root [OF this] have 0: "in_use (RootDirFile ?start)" by simp
  have "fileReadDir (RootDirFile ?start) 1 = (fst (fileReadDir (RootDirFile ?start) 1), RootDirFile ?d)" by code_simp
  from in_use.used [OF 0 file_step.listing [OF this]] have u: "in_use (RootDirFile ?d)" .
  have r: "fst (fileReadDir (RootDirFile ?d) 0) = Inr [RootDirEntry \<lparr>reName = str ''pub'', reSymlink = False, reTarget = []\<rparr>]"
    by code_simp
  have "fst (fileReadDir (RootDirFile ?d) 0) = Inl (Wrap ''readdir'' errInvalid) \<longleftrightarrow> \<not> infoIsDir (fileStat (RootDirFile ?d))"
    "fst (fileRead (RootDirFile ?d) 4) = Inl errInvalid \<longleftrightarrow>
      infoIsDir (fileStat (RootDirFile ?d)) \<or> modeType (finfoMode (fileStat (RootDirFile ?d))) = ModeSymlink"
    using file_types [OF u, of 0 4] by blast+
  note t = this
  have d: "infoIsDir (fileStat (RootDirFile ?d))" by (rule ccontr) (use t(1) r in \<open>simp only: sum.distinct simp_thms\<close>)
  with t(2) u r show ?thesis by blast
qed

end
