(* ===== verification/Interaction.thy ===== *)
theory Interaction
  imports Server_Send Mux_Frames
begin

text \<open>
  Programs that read and write in a definite order, for what the other theories leave out:
  when output reaches the peer, and whether two sides over one transport ever wait for each
  other. A program is a tree of its actions. \<open>run\<close> is what it does on a complete input, and
  connects it with the definitions of the other theories; the steps of a party model the
  multiplexing writer's buffer, \<^verbatim>\<open>flush\<close> and \<^verbatim>\<open>flushBeforeRead\<close> of \<^verbatim>\<open>src/server-send.go\<close>.
\<close>

section \<open>Definitions\<close>

subsection \<open>Programs\<close>

text \<open>
  \<open>Rd f\<close> reads one message: \<open>f\<close> says how the program goes on and what it leaves of its input.
  \<open>SwIn\<close> and \<open>SwOut\<close> start multiplexing on the way in and on the way out.
\<close>

datatype 'r prog =
    Ret 'r
  | Wr "byte list" "'r prog"
  | Fl "'r prog"
  | Rd "src \<Rightarrow> 'r prog \<times> src"
  | SwIn "'r prog"
  | SwOut "'r prog"

primrec thenP :: "'r prog \<Rightarrow> ('r \<Rightarrow> 's prog) \<Rightarrow> 's prog" where
  "thenP (Ret r) k = k r"
| "thenP (Wr bs p) k = Wr bs (thenP p k)"
| "thenP (Fl p) k = Fl (thenP p k)"
| "thenP (Rd f) k = Rd (\<lambda>s. map_prod (\<lambda>p. thenP p k) id (f s))"
| "thenP (SwIn p) k = SwIn (thenP p k)"
| "thenP (SwOut p) k = SwOut (thenP p k)"

text \<open>The effect on a complete input, with the output as payload.\<close>

primrec run :: "'r prog \<Rightarrow> 'c conn_scheme \<Rightarrow> 'r \<times> 'c conn_scheme" where
  "run (Ret r) = (\<lambda>c. (r, c))"
| "run (Wr bs p) = (\<lambda>c. run p (c\<lparr>cout := cout c @ bs\<rparr>))"
| "run (Fl p) = run p"
| "run (Rd f) = (\<lambda>c. case map_prod run id (f (cin c)) of (g, s') \<Rightarrow> g (c\<lparr>cin := s'\<rparr>))"
| "run (SwIn p) = (\<lambda>c. run p (c\<lparr>cin := demux (cin c)\<rparr>))"
| "run (SwOut p) = run p"

text \<open>Programs with an error result and a state of their own.\<close>

type_synonym ('s, 'a) act = "'s \<Rightarrow> ((go_error + 'a) \<times> 's) prog"

definition aret :: "'a \<Rightarrow> ('s, 'a) act" where "aret x s = Ret (Inr x, s)"
definition afail :: "go_error \<Rightarrow> ('s, 'a) act" where "afail e s = Ret (Inl e, s)"
definition awr :: "byte list \<Rightarrow> ('s, unit) act" where "awr bs s = Wr bs (Ret (Inr (), s))"
definition aflush :: "('s, unit) act" where "aflush s = Fl (Ret (Inr (), s))"
definition aswIn :: "('s, unit) act" where "aswIn s = SwIn (Ret (Inr (), s))"
definition aswOut :: "('s, unit) act" where "aswOut s = SwOut (Ret (Inr (), s))"
definition ard :: "(src, 'a) io \<Rightarrow> ('s, 'a) act" where "ard m s = Rd (\<lambda>i. map_prod (\<lambda>r. Ret (r, s)) id (m i))"
definition aget :: "('s, 's) act" where "aget s = Ret (Inr s, s)"
definition aput :: "'s \<Rightarrow> ('s, unit) act" where "aput s' s = Ret (Inr (), s')"

text \<open>Going on with the result, error or not, and going on if there is none.\<close>

definition atry :: "('s, 'a) act \<Rightarrow> (go_error + 'a \<Rightarrow> ('s, 'b) act) \<Rightarrow> ('s, 'b) act" where
  "atry m k s = thenP (m s) (\<lambda>(r, s'). k r s')"

definition abnd :: "('s, 'a) act \<Rightarrow> ('a \<Rightarrow> ('s, 'b) act) \<Rightarrow> ('s, 'b) act" where
  "abnd m f = atry m (\<lambda>r. case r of Inl e \<Rightarrow> afail e | Inr x \<Rightarrow> f x)"

definition awrap :: "string \<Rightarrow> ('s, 'a) act \<Rightarrow> ('s, 'a) act" where
  "awrap msg m = atry m (\<lambda>r. case r of Inl e \<Rightarrow> afail (Wrap msg e) | Inr x \<Rightarrow> aret x)"

text \<open>An action as a computation on a connection that holds its state.\<close>

definition den :: "('c conn_scheme \<Rightarrow> 's) \<Rightarrow> ('s \<Rightarrow> 'c conn_scheme \<Rightarrow> 'c conn_scheme) \<Rightarrow>
    ('s, 'a) act \<Rightarrow> ('c conn_scheme, 'a) io" where
  "den get put m c = (case run (m (get c)) c of ((r, s), c') \<Rightarrow> (r, put s c'))"

subsection \<open>Two parties and a transport\<close>

text \<open>What a side writes to: the transport itself, or a multiplexing writer on it.\<close>

datatype out_stream = Raw "byte list" | Muxed mux_writer

fun outWrite :: "out_stream \<Rightarrow> byte list \<Rightarrow> out_stream" where
  "outWrite (Raw w) bs = Raw (w @ bs)"
| "outWrite (Muxed w) bs = Muxed (snd (Write w bs))"

fun outFlush :: "out_stream \<Rightarrow> out_stream" where
  "outFlush (Raw w) = Raw w"
| "outFlush (Muxed w) = Muxed (snd (Flush w))"

fun outPend :: "out_stream \<Rightarrow> byte list" where
  "outPend (Raw w) = []"
| "outPend (Muxed w) = wbuf w"

text \<open>All bytes given to the transport so far.\<close>

fun outRaw :: "out_stream \<Rightarrow> byte list" where
  "outRaw (Raw w) = w"
| "outRaw (Muxed w) = sink w"

fun startMux :: "out_stream \<Rightarrow> out_stream" where
  "startMux (Raw w) = Muxed (NewWriter w)"
| "startMux (Muxed w) = Muxed w"

text \<open>
  What a side reads from: how far it has read the transport, or where its multiplexing reader
  started and how far it has read the payload; \<open>inView\<close> is what it could read now.
\<close>

datatype in_stream = RawIn nat | MuxIn nat nat

fun inView :: "in_stream \<Rightarrow> byte list \<Rightarrow> byte list" where
  "inView (RawIn got) raw = drop got raw"
| "inView (MuxIn start got) raw = drop got (avail (demux (Src (drop start raw) EOF)))"

fun inTake :: "nat \<Rightarrow> in_stream \<Rightarrow> in_stream" where
  "inTake n (RawIn got) = RawIn (got + n)"
| "inTake n (MuxIn start got) = MuxIn start (got + n)"

fun startDemux :: "in_stream \<Rightarrow> in_stream" where
  "startDemux (RawIn got) = MuxIn got 0"
| "startDemux (MuxIn start got) = MuxIn start got"

record 'r party =
  pcode :: "'r prog"
  pout :: out_stream
  pin :: in_stream

text \<open>
  A message can be read once the bytes that determine it have arrived; until then the read
  blocks.
\<close>

definition takes :: "(src \<Rightarrow> 'r prog \<times> src) \<Rightarrow> byte list \<Rightarrow> 'r prog \<Rightarrow> bool" where
  "takes f bs q \<longleftrightarrow> (\<forall>rest e. f (Src (bs @ rest) e) = (q, Src rest e))"

definition flushBeforeRead :: "out_stream \<Rightarrow> out_stream" where
  "flushBeforeRead w = outFlush w"

text \<open>One step of a party, when the peer has put \<open>raw\<close> on the transport.\<close>

inductive party_step :: "byte list \<Rightarrow> 'r party \<Rightarrow> 'r party \<Rightarrow> bool" for raw where
  p_write: "party_step raw \<lparr>pcode = Wr bs q, pout = w, pin = i\<rparr> \<lparr>pcode = q, pout = outWrite w bs, pin = i\<rparr>"
| p_flush: "party_step raw \<lparr>pcode = Fl q, pout = w, pin = i\<rparr> \<lparr>pcode = q, pout = outFlush w, pin = i\<rparr>"
| p_before_read: "outPend w \<noteq> [] \<Longrightarrow>
    party_step raw \<lparr>pcode = Rd f, pout = w, pin = i\<rparr> \<lparr>pcode = Rd f, pout = flushBeforeRead w, pin = i\<rparr>"
| p_read: "outPend w = [] \<Longrightarrow> inView i raw = bs @ rest \<Longrightarrow> takes f bs q \<Longrightarrow>
    party_step raw \<lparr>pcode = Rd f, pout = w, pin = i\<rparr> \<lparr>pcode = q, pout = w, pin = inTake (length bs) i\<rparr>"
| p_switch_in: "party_step raw \<lparr>pcode = SwIn q, pout = w, pin = i\<rparr> \<lparr>pcode = q, pout = w, pin = startDemux i\<rparr>"
| p_switch_out: "party_step raw \<lparr>pcode = SwOut q, pout = w, pin = i\<rparr> \<lparr>pcode = q, pout = startMux w, pin = i\<rparr>"

record ('a, 'b) net =
  client :: "'a party"
  daemon :: "'b party"

inductive net_step :: "('a, 'b) net \<Rightarrow> ('a, 'b) net \<Rightarrow> bool" where
  client_step: "party_step (outRaw (pout d)) c c' \<Longrightarrow> net_step \<lparr>client = c, daemon = d\<rparr> \<lparr>client = c', daemon = d\<rparr>"
| daemon_step: "party_step (outRaw (pout c)) d d' \<Longrightarrow> net_step \<lparr>client = c, daemon = d\<rparr> \<lparr>client = c, daemon = d'\<rparr>"

definition startParty :: "'r prog \<Rightarrow> 'r party" where
  "startParty p = \<lparr>pcode = p, pout = Raw [], pin = RawIn 0\<rparr>"

definition startNet :: "'a prog \<Rightarrow> 'b prog \<Rightarrow> ('a, 'b) net" where
  "startNet p q = \<lparr>client = startParty p, daemon = startParty q\<rparr>"

section \<open>Programs as computations\<close>

lemma prog_induct [case_names Ret Wr Fl Rd SwIn SwOut, induct type: prog]:
  assumes "\<And>r. P (Ret r)" "\<And>bs p. P p \<Longrightarrow> P (Wr bs p)" "\<And>p. P p \<Longrightarrow> P (Fl p)"
    and "\<And>f. (\<And>s. P (fst (f s))) \<Longrightarrow> P (Rd f)" "\<And>p. P p \<Longrightarrow> P (SwIn p)" "\<And>p. P p \<Longrightarrow> P (SwOut p)"
  shows "P p"
  by (induction p rule: prog.induct) (use assms in \<open>auto intro: assms(4) simp: fsts.simps\<close>)

lemma run_Rd: "run (Rd f) c = (case f (cin c) of (p, s') \<Rightarrow> run p (c\<lparr>cin := s'\<rparr>))"
  by (simp add: case_prod_beta)

lemma run_thenP: "run (thenP p k) c = (case run p c of (r, c') \<Rightarrow> run (k r) c')"
proof (induction p arbitrary: c)
  case (Rd f)
  then show ?case by (simp add: run_Rd case_prod_beta)
qed simp_all

locale stateful =
  fixes get :: "'c conn_scheme \<Rightarrow> 's" and put :: "'s \<Rightarrow> 'c conn_scheme \<Rightarrow> 'c conn_scheme"
  assumes get_put: "get (put s c) = s" and put_get: "put (get c) c = c" and put_put: "put s (put t c) = put s c"
    and cin_put: "cin (put s c) = cin c" and cout_put: "cout (put s c) = cout c"
    and put_cin: "put s (c\<lparr>cin := i\<rparr>) = (put s c)\<lparr>cin := i\<rparr>" and put_cout: "put s (c\<lparr>cout := w\<rparr>) = (put s c)\<lparr>cout := w\<rparr>"
begin

lemmas state_simps = get_put put_get put_put cin_put cout_put

lemma run_put: "run p (put s c) = map_prod id (put s) (run p c)"
proof (induction p arbitrary: c)
  case (Rd f)
  then show ?case by (simp add: run_Rd case_prod_beta state_simps put_cin [symmetric])
qed (simp_all add: state_simps put_cin [symmetric] put_cout [symmetric])

lemma put_upd: "put (get c) (c\<lparr>cin := i\<rparr>) = c\<lparr>cin := i\<rparr>" "put (get c) (c\<lparr>cout := w\<rparr>) = c\<lparr>cout := w\<rparr>"
  by (simp_all add: put_cin put_cout put_get)

lemma get_upd: "get (c\<lparr>cin := i\<rparr>) = get c" "get (c\<lparr>cout := w\<rparr>) = get c"
  by (metis get_put put_upd(1), metis get_put put_upd(2))

lemma den_basic:
  "den get put (aret x) = ret x" "den get put (afail e) = fail e" "den get put (awr bs) = wr bs"
  "den get put aflush = ret ()" "den get put aswOut = ret ()"
  "den get put aget = (\<lambda>c. (Inr (get c), c))" "den get put (aput s) = (\<lambda>c. (Inr (), put s c))"
  by (simp_all add: fun_eq_iff den_def aret_def afail_def awr_def aflush_def aswOut_def aget_def aput_def wr_def put_upd put_get)

lemma den_rd: "den get put (ard m) = rd m"
  by (simp add: fun_eq_iff den_def ard_def rd_def case_prod_beta run_Rd put_upd del: run.simps(4))

lemma den_atry: "den get put (atry m k) c = (case den get put m c of (r, c') \<Rightarrow> den get put (k r) c')"
  by (simp add: den_def atry_def run_thenP case_prod_beta run_put state_simps)

lemma den_abnd: "den get put (abnd m f) = bnd (den get put m) (\<lambda>x. den get put (f x))"
  by (auto simp: fun_eq_iff abnd_def den_atry bnd_def den_basic fail_def split: prod.splits sum.splits)

lemma den_awrap: "den get put (awrap msg m) = wrapping msg (den get put m)"
  by (auto simp: fun_eq_iff awrap_def den_atry wrapping_def den_basic fail_def ret_def split: prod.splits sum.splits)

lemma den_if: "den get put (if b then m else m') = (if b then den get put m else den get put m')"
  by simp

lemma den_case_sum: "den get put (case x of Inl a \<Rightarrow> f a | Inr b \<Rightarrow> g b) = (case x of Inl a \<Rightarrow> den get put (f a) | Inr b \<Rightarrow> den get put (g b))"
  by (simp split: sum.split)

lemma den_case_prod: "den get put (case x of (a, b) \<Rightarrow> f a b) = (case x of (a, b) \<Rightarrow> den get put (f a b))"
  by (simp split: prod.split)

lemmas den_simps = den_basic den_rd den_abnd den_awrap den_if den_case_sum den_case_prod

end

interpretation plain: stateful "\<lambda>_ :: conn. ()" "\<lambda>_ c. c"
  by unfold_locales simp_all

section \<open>What reaches the transport\<close>

text \<open>\<open>adds w w' p\<close>: from \<open>w\<close> to \<open>w'\<close> the writer was given \<open>p\<close>, and framed some of what it then had.\<close>

definition adds :: "mux_writer \<Rightarrow> mux_writer \<Rightarrow> byte list \<Rightarrow> bool" where
  "adds w w' p \<longleftrightarrow> (\<exists>bs d. sink w' = sink w @ bs \<and> carries bs d \<and> d @ wbuf w' = wbuf w @ p \<and> bufSize w' = bufSize w)"

lemma adds_refl: "adds w w []"
  unfolding adds_def by (intro exI [of _ "[]"]) (simp add: carries_Nil)

lemma adds_trans: "adds w w1 p \<Longrightarrow> adds w1 w2 q \<Longrightarrow> adds w w2 (p @ q)"
proof -
  assume "adds w w1 p" "adds w1 w2 q"
  then obtain b1 d1 b2 d2 where "sink w1 = sink w @ b1" "carries b1 d1" "d1 @ wbuf w1 = wbuf w @ p" "bufSize w1 = bufSize w"
    "sink w2 = sink w1 @ b2" "carries b2 d2" "d2 @ wbuf w2 = wbuf w1 @ q" "bufSize w2 = bufSize w1"
    unfolding adds_def by blast
  moreover from this have "(d1 @ d2) @ wbuf w2 = wbuf w @ p @ q" by (metis append.assoc)
  ultimately have "sink w2 = sink w @ b1 @ b2 \<and> carries (b1 @ b2) (d1 @ d2) \<and> (d1 @ d2) @ wbuf w2 = wbuf w @ p @ q \<and> bufSize w2 = bufSize w"
    by (simp add: carries_append)
  then show ?thesis unfolding adds_def by blast
qed

lemma adds_buffer: "adds w (w\<lparr>wbuf := wbuf w @ p\<rparr>) p"
  unfolding adds_def by (intro exI [of _ "[]"]) (simp add: carries_Nil)

lemma adds_Flush: "adds w (snd (Flush w)) []" "wbuf (snd (Flush w)) = []" "fst (Flush w) = Inr ()"
proof -
  obtain bs where f: "Flush w = (Inr (), w\<lparr>wbuf := [], sink := sink w @ bs\<rparr>)" "carries bs (wbuf w)" using Flush_ok [of w] by blast
  then show "wbuf (snd (Flush w)) = []" "fst (Flush w) = Inr ()" by simp_all
  from f show "adds w (snd (Flush w)) []"
    unfolding adds_def by (intro exI [of _ bs] exI [of _ "wbuf w"]) simp
qed

lemma adds_bufSize: "adds w w' p \<Longrightarrow> bufSize w' = bufSize w"
  by (auto simp: adds_def)

lemma adds_writeLoop: "0 < bufSize w \<Longrightarrow> adds w (snd (writeLoop w n p)) p"
proof (induction "length p" arbitrary: w n p rule: less_induct)
  case less
  show ?case
  proof (cases "p = []")
    case False
    define w1 where "w1 = (if bufSize w \<le> int (length (wbuf w)) then snd (Flush w) else w)"
    have f: "(if bufSize w \<le> int (length (wbuf w)) then Flush w else (Inr (), w)) = (Inr (), w1)"
      using adds_Flush(3) [of w] by (cases "Flush w") (simp add: w1_def)
    have a1: "adds w w1 []" using adds_refl adds_Flush(1) by (auto simp: w1_def)
    have b1: "bufSize w1 = bufSize w" "int (length (wbuf w1)) < bufSize w"
      using adds_bufSize [OF a1] less.prems adds_Flush(2) [of w] by (auto simp: w1_def)
    define k where "k = nat (bufSize w1 - int (length (wbuf w1)))"
    let ?c = "take k p" and ?w2 = "w1\<lparr>wbuf := wbuf w1 @ take k p\<rparr>"
    have "0 < k" using b1 by (simp add: k_def)
    have step: "writeLoop w n p = writeLoop ?w2 (n + length ?c) (drop (length ?c) p)"
      using b1 by (subst writeLoop.simps) (simp add: False f Let_def k_def)
    have "adds ?w2 (snd (writeLoop ?w2 (n + length ?c) (drop (length ?c) p))) (drop (length ?c) p)"
      by (rule less.hyps) (use False \<open>0 < k\<close> b1 less.prems in auto)
    from adds_trans [OF adds_trans [OF a1 adds_buffer [of w1 ?c]] this] show ?thesis
      unfolding step by (simp add: min_def split: if_splits)
  qed (simp add: writeLoop.simps adds_refl)
qed

lemma adds_Write: "0 \<le> bufSize w \<Longrightarrow> adds w (snd (Write w p)) p"
  using adds_writeLoop [of w 0 p] adds_buffer by (cases "bufSize w = 0") (simp_all add: Write_def)

section \<open>The order of steps does not matter\<close>

text \<open>
  A step relation in which two different steps from a state can be made one after the other,
  in any order. If some run ends, every run ends, in the same state and after the same
  number of steps.
\<close>

locale commuting =
  fixes step :: "'s \<Rightarrow> 's \<Rightarrow> bool"
  assumes diamond: "step s a \<Longrightarrow> step s b \<Longrightarrow> a = b \<or> (\<exists>d. step a d \<and> step b d)"
begin

lemma first_step:
  "(step ^^ n) s t \<Longrightarrow> \<forall>u. \<not> step t u \<Longrightarrow> step s a \<Longrightarrow> \<exists>m. n = Suc m \<and> (step ^^ m) a t"
proof (induction n arbitrary: s a)
  case (Suc n)
  obtain b where b: "step s b" "(step ^^ n) b t" using relpowp_Suc_D2 [OF Suc.prems(1)] by blast
  show ?case
  proof (cases "a = b")
    case False
    then obtain d where d: "step a d" "step b d" using diamond [OF Suc.prems(3) b(1)] by blast
    obtain m where "n = Suc m" "(step ^^ m) d t" using Suc.IH [OF b(2) Suc.prems(2) d(2)] by blast
    then show ?thesis using relpowp_Suc_I2 [of step a d m t] d(1) by blast
  qed (use b in blast)
qed simp

lemma run_ends:
  assumes "(step ^^ n) s t" and "\<forall>u. \<not> step t u" and "(step ^^ k) s u"
  shows "k \<le> n \<and> (step ^^ (n - k)) u t"
  using assms
proof (induction k arbitrary: n s)
  case (Suc k)
  obtain a where a: "step s a" "(step ^^ k) a u" using relpowp_Suc_D2 [OF Suc.prems(3)] by blast
  obtain m where m: "n = Suc m" "(step ^^ m) a t" using first_step [OF Suc.prems(1,2) a(1)] by blast
  show ?case using Suc.IH [OF m(2) Suc.prems(2) a(2)] m(1) by simp
qed simp

lemma stuck_unique:
  assumes "(step ^^ n) s t" and "\<forall>u. \<not> step t u" and "(step ^^ k) s u" and "\<forall>v. \<not> step u v"
  shows "u = t"
proof -
  have "(step ^^ (n - k)) u t" using run_ends [OF assms(1-3)] by blast
  then show ?thesis
  proof (cases "n - k")
    case (Suc m)
    with \<open>(step ^^ (n - k)) u t\<close> show ?thesis using relpowp_Suc_D2 [of m step u t] assms(4) by auto
  qed simp
qed

end

lemma sink_writeLoop: "\<exists>bs. sink (snd (writeLoop w n p)) = sink w @ bs"
proof (induction w n p rule: writeLoop.induct)
  case (1 w n p)
  define w1 where "w1 = (if bufSize w \<le> int (length (wbuf w)) then snd (Flush w) else w)"
  have f: "(if bufSize w \<le> int (length (wbuf w)) then Flush w else (Inr (), w)) = (Inr (), w1)"
    using adds_Flush(3) [of w] by (cases "Flush w") (simp add: w1_def)
  have s: "\<exists>bs. sink w1 = sink w @ bs" using adds_Flush(1) [of w] by (auto simp: w1_def adds_def)
  show ?case
  proof (cases "p = [] \<or> bufSize w1 - int (length (wbuf w1)) \<le> 0")
    case True
    then show ?thesis using s by (subst writeLoop.simps) (auto simp: f Let_def)
  next
    case False
    let ?c = "take (nat (bufSize w1 - int (length (wbuf w1)))) p"
    have "\<exists>bs. sink (snd (writeLoop (w1\<lparr>wbuf := wbuf w1 @ ?c\<rparr>) (n + length ?c) (drop (length ?c) p))) = sink w1 @ bs"
      using "1.IH" [OF _ f [symmetric] refl refl _ _ refl] False by simp
    then show ?thesis using s False by (subst writeLoop.simps) (auto simp: f Let_def)
  qed
qed

lemma sink_Write: "\<exists>bs. sink (snd (Write w p)) = sink w @ bs"
  using sink_writeLoop [of w 0 p] by (simp add: Write_def)

lemma sink_Flush: "\<exists>bs. sink (snd (Flush w)) = sink w @ bs"
  using adds_Flush(1) [of w] by (auto simp: adds_def)

inductive_cases party_stepE: "party_step raw p q"

lemma party_step_raw:
  assumes "party_step raw p q" shows "\<exists>bs. outRaw (pout q) = outRaw (pout p) @ bs"
proof -
  have "\<exists>bs. outRaw (outWrite w x) = outRaw w @ bs" for w x using sink_Write by (cases w) auto
  moreover have "\<exists>bs. outRaw (outFlush w) = outRaw w @ bs" for w using sink_Flush by (cases w) auto
  moreover have "outRaw (startMux w) = outRaw w" for w by (cases w) (simp_all add: NewWriter_def)
  ultimately show ?thesis using assms by (elim party_stepE) (simp_all add: flushBeforeRead_def)
qed

lemma streaming_readFrame: "streaming readFrame"
  unfolding readFrame_def Let_def by (intro streaming_intros)

lemma demux_prefix: "\<exists>more. avail (demux (Src (bs @ x) e')) = avail (demux (Src bs e)) @ more"
proof (induction "length bs" arbitrary: bs rule: less_induct)
  case less
  obtain res s' where r: "readFrame (Src bs e) = (res, s')" by (cases "readFrame (Src bs e)")
  show ?case
  proof (cases res)
    case (Inl err)
    then show ?thesis using demux_unfold(1) r by simp
  next
    case (Inr y)
    obtain code p where y: "y = (code, p)" by (cases y)
    obtain c rest where c: "bs = c @ rest" "s' = Src rest e" "\<And>q e'. readFrame (Src (c @ q) e') = (Inr y, Src q e')"
      using streamingE [OF streaming_readFrame] r Inr by metis
    have f: "readFrame (Src bs e) = (Inr (code, p), Src rest e)" "readFrame (Src (bs @ x) e') = (Inr (code, p), Src (rest @ x) e')"
      using c y by simp_all
    have "length rest < length bs" using readFrame_consumes f(1) by fastforce
    from less.hyps [OF this] obtain more where
      m: "avail (demux (Src (rest @ x) e')) = avail (demux (Src rest e)) @ more" by blast
    show ?thesis
    proof (cases "code = MsgData")
      case True
      then show ?thesis using f m by (simp add: demux_unfold(2) srcCons_def)
    next
      case False
      then show ?thesis
        using f m by (cases "isInfoMessage code") (simp_all add: demux_unfold(3,4))
    qed
  qed
qed

lemma inView_mono: "\<exists>more. inView i (raw @ x) = inView i raw @ more"
proof (cases i)
  case (MuxIn start got)
  obtain more where "avail (demux (Src (drop start (raw @ x)) EOF)) = avail (demux (Src (drop start raw) EOF)) @ more"
    using demux_prefix [of "drop start raw" "drop (start - length raw) x" EOF EOF] by auto
  with MuxIn show ?thesis by simp
qed simp

lemma party_mono: "party_step raw p q \<Longrightarrow> party_step (raw @ x) p q"
proof (induction rule: party_step.induct)
  case (p_read w i bs rest f q)
  obtain more where "inView i (raw @ x) = inView i raw @ more" using inView_mono by blast
  with p_read show ?case by (intro party_step.p_read [where rest = "rest @ more"]) simp_all
qed (auto intro: party_step.intros)

lemma takes_unique: "takes f bs q \<Longrightarrow> takes f bs' q' \<Longrightarrow> bs @ rest = bs' @ rest' \<Longrightarrow> bs = bs' \<and> q = q'"
proof -
  assume t: "takes f bs q" "takes f bs' q'" and e: "bs @ rest = bs' @ rest'"
  have "f (Src (bs @ rest) EOF) = (q, Src rest EOF)" "f (Src (bs' @ rest') EOF) = (q', Src rest' EOF)"
    using t by (simp_all add: takes_def)
  with e show ?thesis by simp
qed

lemma party_det: "party_step raw p q \<Longrightarrow> party_step raw p r \<Longrightarrow> q = r"
proof (induction rule: party_step.induct)
  case (p_read w i bs rest f q)
  from p_read.prems show ?case
    by (cases rule: party_step.cases) (use p_read.hyps in \<open>auto dest: takes_unique\<close>)
qed (auto elim: party_step.cases)

interpretation net: commuting net_step
proof
  fix s a b :: "('a, 'b) net" assume "net_step s a" "net_step s b"
  then show "a = b \<or> (\<exists>d. net_step a d \<and> net_step b d)"
  proof (induction rule: net_step.induct)
    case (client_step d c c')
    from client_step.prems show ?case
    proof (cases rule: net_step.cases)
      case (daemon_step c0 d0 d')
      then have [simp]: "c0 = c" "d0 = d" and step: "party_step (outRaw (pout c)) d d'" by simp_all
      obtain x y where "outRaw (pout c') = outRaw (pout c) @ x" "outRaw (pout d') = outRaw (pout d) @ y"
        using party_step_raw client_step.hyps step by metis
      then have "net_step \<lparr>client = c', daemon = d\<rparr> \<lparr>client = c', daemon = d'\<rparr>" "net_step b \<lparr>client = c', daemon = d'\<rparr>"
        using client_step.hyps step daemon_step(2) party_mono
        by (auto intro!: net_step.client_step net_step.daemon_step)
      then show ?thesis by blast
    qed (use client_step.hyps party_det in blast)
  next
    case (daemon_step c d d')
    from daemon_step.prems show ?case
    proof (cases rule: net_step.cases)
      case (client_step d0 c0 c')
      then have [simp]: "c0 = c" "d0 = d" and step: "party_step (outRaw (pout d)) c c'" by simp_all
      obtain x y where "outRaw (pout c') = outRaw (pout c) @ x" "outRaw (pout d') = outRaw (pout d) @ y"
        using party_step_raw daemon_step.hyps step by metis
      then have "net_step \<lparr>client = c, daemon = d'\<rparr> \<lparr>client = c', daemon = d'\<rparr>" "net_step b \<lparr>client = c', daemon = d'\<rparr>"
        using daemon_step.hyps step client_step(2) party_mono
        by (auto intro!: net_step.client_step net_step.daemon_step)
      then show ?thesis by blast
    qed (use daemon_step.hyps party_det in blast)
  qed
qed

end
