(* ===== verification/Dialogue.thy ===== *)
theory Dialogue
  imports Interaction
begin

text \<open>
  Conversations of two programs, message by message: one side says something and makes sure
  that it is sent, the other hears it when it gets there. One conversation that ends is
  enough for every interleaving of the two to end the same way.
\<close>

section \<open>Saying and hearing\<close>

inductive emits :: "'r prog \<Rightarrow> byte list \<Rightarrow> 'r prog \<Rightarrow> bool" where
  emits_refl: "emits p [] p"
| emits_Wr: "emits p bs q \<Longrightarrow> emits (Wr b p) (b @ bs) q"
| emits_Fl: "emits p bs q \<Longrightarrow> emits (Fl p) bs q"

inductive absorbs :: "'r prog \<Rightarrow> byte list \<Rightarrow> 'r prog \<Rightarrow> bool" where
  absorbs_refl: "absorbs p [] p"
| absorbs_Rd: "takes f b p \<Longrightarrow> absorbs p bs q \<Longrightarrow> absorbs (Rd f) (b @ bs) q"

named_theorems talk_intros "what programs say and hear"

lemma emits_thenP: "emits p bs q \<Longrightarrow> emits (thenP p k) bs (thenP q k)"
  by (induction rule: emits.induct) (auto intro: emits.intros)

lemma emits_trans: "emits p a q \<Longrightarrow> emits q b r \<Longrightarrow> emits p (a @ b) r"
  by (induction rule: emits.induct) (auto intro: emits.intros)

lemma takes_thenP: "takes f b p \<Longrightarrow> takes (\<lambda>s. map_prod (\<lambda>p. thenP p k) id (f s)) b (thenP p k)"
  by (simp add: takes_def)

lemma absorbs_thenP: "absorbs p bs q \<Longrightarrow> absorbs (thenP p k) bs (thenP q k)"
  by (induction rule: absorbs.induct) (auto intro: absorbs.intros takes_thenP)

lemma absorbs_trans: "absorbs p a q \<Longrightarrow> absorbs q b r \<Longrightarrow> absorbs p (a @ b) r"
  by (induction rule: absorbs.induct) (auto intro: absorbs.intros)

lemma absorbs_ard: "reads m bs x \<Longrightarrow> absorbs (ard m s) bs (Ret (Inr x, s))"
  using absorbs_Rd [OF _ absorbs_refl, of "\<lambda>i. map_prod (\<lambda>r. Ret (r, s)) id (m i)" bs "Ret (Inr x, s)"]
  by (simp add: ard_def takes_def reads_def)

section \<open>The state of one direction\<close>

text \<open>
  Plain bytes; one end already multiplexing, with nothing in flight; or frames. The last
  argument is what has been sent and not been read.
\<close>

datatype link = Plain | WriterAhead | ReaderAhead | Framed

fun chan :: "link \<Rightarrow> out_stream \<Rightarrow> in_stream \<Rightarrow> byte list \<Rightarrow> bool" where
  "chan Plain w i xs \<longleftrightarrow> (\<exists>bs got. w = Raw bs \<and> i = RawIn got \<and> got \<le> length bs \<and> drop got bs = xs)"
| "chan WriterAhead w i xs \<longleftrightarrow> (\<exists>m. w = Muxed m \<and> wbuf m = [] \<and> 0 \<le> bufSize m \<and> i = RawIn (length (sink m)) \<and> xs = [])"
| "chan ReaderAhead w i xs \<longleftrightarrow> (\<exists>bs. w = Raw bs \<and> i = MuxIn (length bs) 0 \<and> xs = [])"
| "chan Framed w i xs \<longleftrightarrow>
    (\<exists>m start got d. w = Muxed m \<and> wbuf m = [] \<and> 0 \<le> bufSize m \<and> i = MuxIn start got \<and> start \<le> length (sink m) \<and>
       carries (drop start (sink m)) d \<and> got \<le> length d \<and> drop got d = xs)"

lemma chan_pend: "chan l w i xs \<Longrightarrow> outPend w = []"
  by (cases l) auto

lemma chan_view:
  assumes "chan l w i xs" "l = Plain \<or> l = Framed"
  shows "inView i (outRaw w) = xs"
  using assms by (auto simp: carries_end)

lemma drop_taken:
  assumes "drop got d = b @ xs" "got \<le> length d"
  shows "drop (got + length b) d = xs" "got + length b \<le> length d"
proof -
  have "drop (length b) (drop got d) = xs" using assms(1) by simp
  then show "drop (got + length b) d = xs" by (simp add: add.commute)
  show "got + length b \<le> length d" using arg_cong [OF assms(1), of length] assms(2) by simp
qed

lemma chan_take:
  assumes "chan l w i (b @ xs)" "l = Plain \<or> l = Framed"
  shows "chan l w (inTake (length b) i) xs"
  using assms(2)
proof
  assume "l = Plain"
  with assms(1) show ?thesis by (auto simp: drop_taken)
next
  assume f: "l = Framed"
  with assms(1) obtain m start got d where c: "w = Muxed m" "wbuf m = []" "0 \<le> bufSize m" "i = MuxIn start got"
    "start \<le> length (sink m)" "carries (drop start (sink m)) d" "got \<le> length d" "drop got d = b @ xs" by auto
  with drop_taken [OF c(8,7)] f show ?thesis by (auto intro!: exI [of _ d])
qed

text \<open>What a side has written, some of it perhaps still in its buffer.\<close>

fun sent :: "out_stream \<Rightarrow> out_stream \<Rightarrow> byte list \<Rightarrow> bool" where
  "sent (Raw w) w' bs \<longleftrightarrow> w' = Raw (w @ bs)"
| "sent (Muxed m) w' bs \<longleftrightarrow> (\<exists>m'. w' = Muxed m' \<and> 0 \<le> bufSize m \<and> adds m m' bs)"

fun settled :: "out_stream \<Rightarrow> bool" where
  "settled (Raw w) \<longleftrightarrow> True"
| "settled (Muxed m) \<longleftrightarrow> 0 \<le> bufSize m"

lemma chan_settled: "chan l w i xs \<Longrightarrow> settled w"
  by (cases l) auto

lemma sent_refl: "settled w \<Longrightarrow> sent w w []"
  by (cases w) (auto simp: adds_refl)

lemma sent_settled: "sent w w' bs \<Longrightarrow> settled w \<Longrightarrow> settled w'"
  by (cases w) (auto dest: adds_bufSize)

lemma sent_trans:
  assumes "sent w w1 a" "sent w1 w2 b"
  shows "sent w w2 (a @ b)"
proof (cases w)
  case (Muxed m)
  with assms obtain m1 m2 where m: "w1 = Muxed m1" "w2 = Muxed m2" "0 \<le> bufSize m" "adds m m1 a" "adds m1 m2 b" by auto
  from adds_trans [OF m(4,5)] m Muxed show ?thesis by simp
qed (use assms in auto)

lemma sent_write: "settled w \<Longrightarrow> sent w (outWrite w bs) bs"
  by (cases w) (auto simp: adds_Write)

lemma sent_flush: "settled w \<Longrightarrow> sent w (outFlush w) []" "settled w \<Longrightarrow> outPend (outFlush w) = []"
  by (cases w; auto simp: adds_Flush)+

lemma chan_sent:
  assumes "chan l w i xs" "sent w w' bs" "outPend w' = []" "l = Plain \<or> l = Framed"
  shows "chan l w' i (xs @ bs)"
  using assms(4)
proof
  assume "l = Framed"
  with assms obtain m start got d where c: "w = Muxed m" "wbuf m = []" "0 \<le> bufSize m" "i = MuxIn start got" "start \<le> length (sink m)"
    "carries (drop start (sink m)) d" "got \<le> length d" "drop got d = xs" by auto
  from assms(2,3) c obtain m' fr where m: "w' = Muxed m'" "sink m' = sink m @ fr" "carries fr bs" "wbuf m' = []" "bufSize m' = bufSize m"
    by (auto simp: adds_def)
  have "carries (drop start (sink m')) (d @ bs)" using c m carries_append by simp
  with c m \<open>l = Framed\<close> show ?thesis by (auto intro!: exI [of _ "d @ bs"])
qed (use assms in auto)

section \<open>Conversations\<close>

text \<open>
  The two programs, and for each direction its state and what is in flight. \<open>says\<close>: output that
  will not stay in the buffer, because the connection is plain, or the program flushes, or
  it goes on to read.
\<close>

type_synonym ('a, 'b) talk = "('a prog \<times> link \<times> byte list) \<times> ('b prog \<times> link \<times> byte list)"

definition says :: "link \<Rightarrow> 'r prog \<Rightarrow> byte list \<Rightarrow> 'r prog \<Rightarrow> bool" where
  "says l p bs q \<longleftrightarrow>
     l = Plain \<and> emits p bs q \<or> l = Framed \<and> (emits p bs (Fl q) \<or> emits p bs q \<and> (\<exists>f. q = Rd f))"

fun readerSwitch :: "link \<Rightarrow> link" where
  "readerSwitch Plain = ReaderAhead" | "readerSwitch l = Framed"

fun writerSwitch :: "link \<Rightarrow> link" where
  "writerSwitch Plain = WriterAhead" | "writerSwitch l = Framed"

inductive talk_step :: "('a, 'b) talk \<Rightarrow> ('a, 'b) talk \<Rightarrow> bool" where
  c_say: "says l p bs p' \<Longrightarrow> talk_step ((p, l, xs), d) ((p', l, xs @ bs), d)"
| d_say: "says l p bs p' \<Longrightarrow> talk_step (c, (p, l, xs)) (c, (p', l, xs @ bs))"
| c_hear: "absorbs p bs p' \<Longrightarrow> m = Plain \<or> m = Framed \<Longrightarrow>
    talk_step ((p, l, xs), (q, m, bs @ ys)) ((p', l, xs), (q, m, ys))"
| d_hear: "absorbs q bs q' \<Longrightarrow> l = Plain \<or> l = Framed \<Longrightarrow>
    talk_step ((p, l, bs @ xs), (q, m, ys)) ((p, l, xs), (q', m, ys))"
| c_in: "m = Plain \<or> m = WriterAhead \<Longrightarrow> talk_step ((SwIn p, l, xs), (q, m, [])) ((p, l, xs), (q, readerSwitch m, []))"
| d_in: "l = Plain \<or> l = WriterAhead \<Longrightarrow> talk_step ((p, l, []), (SwIn q, m, ys)) ((p, readerSwitch l, []), (q, m, ys))"
| c_out: "l = Plain \<or> l = ReaderAhead \<Longrightarrow> talk_step ((SwOut p, l, []), d) ((p, writerSwitch l, []), d)"
| d_out: "m = Plain \<or> m = ReaderAhead \<Longrightarrow> talk_step (c, (SwOut q, m, [])) (c, (q, writerSwitch m, []))"

text \<open>A state of the two parties that a conversation has got to.\<close>

fun at_talk :: "('a, 'b) talk \<Rightarrow> ('a, 'b) net \<Rightarrow> bool" where
  "at_talk ((p, l, xs), (q, m, ys)) s \<longleftrightarrow>
     pcode (client s) = p \<and> pcode (daemon s) = q \<and>
     chan l (pout (client s)) (pin (daemon s)) xs \<and> chan m (pout (daemon s)) (pin (client s)) ys"

lemma emits_steps:
  assumes "emits p bs q" "settled w"
  shows "\<exists>w'. (party_step raw)\<^sup>*\<^sup>* \<lparr>pcode = p, pout = w, pin = i\<rparr> \<lparr>pcode = q, pout = w', pin = i\<rparr> \<and> sent w w' bs"
  using assms
proof (induction arbitrary: w rule: emits.induct)
  case (emits_refl p)
  then show ?case using sent_refl by blast
next
  case (emits_Wr p bs q b)
  let ?w = "outWrite w b"
  have "settled ?w" using emits_Wr.prems sent_write sent_settled by blast
  then obtain w' where w: "(party_step raw)\<^sup>*\<^sup>* \<lparr>pcode = p, pout = ?w, pin = i\<rparr> \<lparr>pcode = q, pout = w', pin = i\<rparr>" "sent ?w w' bs"
    using emits_Wr.IH by blast
  have "(party_step raw)\<^sup>*\<^sup>* \<lparr>pcode = Wr b p, pout = w, pin = i\<rparr> \<lparr>pcode = q, pout = w', pin = i\<rparr>"
    using party_step.p_write w(1) by (rule converse_rtranclp_into_rtranclp)
  with sent_trans [OF sent_write [OF emits_Wr.prems] w(2)] show ?case by blast
next
  case (emits_Fl p bs q)
  let ?w = "outFlush w"
  have f: "sent w ?w []" "settled ?w" using emits_Fl.prems sent_flush sent_settled by blast+
  then obtain w' where w: "(party_step raw)\<^sup>*\<^sup>* \<lparr>pcode = p, pout = ?w, pin = i\<rparr> \<lparr>pcode = q, pout = w', pin = i\<rparr>" "sent ?w w' bs"
    using emits_Fl.IH by blast
  have "(party_step raw)\<^sup>*\<^sup>* \<lparr>pcode = Fl p, pout = w, pin = i\<rparr> \<lparr>pcode = q, pout = w', pin = i\<rparr>"
    using party_step.p_flush w(1) by (rule converse_rtranclp_into_rtranclp)
  with sent_trans [OF f(1) w(2)] show ?case by auto
qed

lemma says_steps:
  assumes "says l p bs q" "chan l w j xs"
  shows "\<exists>w'. (party_step raw)\<^sup>*\<^sup>* \<lparr>pcode = p, pout = w, pin = i\<rparr> \<lparr>pcode = q, pout = w', pin = i\<rparr> \<and> chan l w' j (xs @ bs)"
proof -
  have l: "l = Plain \<or> l = Framed" using assms(1) by (auto simp: says_def)
  have s: "settled w" using chan_settled [OF assms(2)] .
  consider (plain) "l = Plain" "emits p bs q" | (flush) "emits p bs (Fl q)" | (waits) f where "emits p bs q" "q = Rd f"
    using assms(1) by (auto simp: says_def)
  then show ?thesis
  proof cases
    case plain
    then obtain w' where w: "(party_step raw)\<^sup>*\<^sup>* \<lparr>pcode = p, pout = w, pin = i\<rparr> \<lparr>pcode = q, pout = w', pin = i\<rparr>" "sent w w' bs"
      using emits_steps s by blast
    moreover have "outPend w' = []" using plain(1) assms(2) w(2) by auto
    ultimately show ?thesis using chan_sent [OF assms(2) _ _ l] by blast
  next
    case flush
    then obtain w' where w: "(party_step raw)\<^sup>*\<^sup>* \<lparr>pcode = p, pout = w, pin = i\<rparr> \<lparr>pcode = Fl q, pout = w', pin = i\<rparr>" "sent w w' bs"
      using emits_steps s by blast
    have s': "settled w'" using sent_settled [OF w(2) s] .
    have "(party_step raw)\<^sup>*\<^sup>* \<lparr>pcode = p, pout = w, pin = i\<rparr> \<lparr>pcode = q, pout = outFlush w', pin = i\<rparr>"
      using w(1) party_step.p_flush by (rule rtranclp.rtrancl_into_rtrancl)
    moreover have "sent w (outFlush w') bs" using sent_trans [OF w(2) sent_flush(1) [OF s']] by simp
    ultimately show ?thesis using chan_sent [OF assms(2) _ sent_flush(2) [OF s'] l] by blast
  next
    case waits
    then obtain w' where w: "(party_step raw)\<^sup>*\<^sup>* \<lparr>pcode = p, pout = w, pin = i\<rparr> \<lparr>pcode = Rd f, pout = w', pin = i\<rparr>" "sent w w' bs"
      using emits_steps s by blast
    have s': "settled w'" using sent_settled [OF w(2) s] .
    show ?thesis
    proof (cases "outPend w' = []")
      case True
      then show ?thesis using w waits chan_sent [OF assms(2) w(2) True l] by blast
    next
      case False
      have "(party_step raw)\<^sup>*\<^sup>* \<lparr>pcode = p, pout = w, pin = i\<rparr> \<lparr>pcode = Rd f, pout = outFlush w', pin = i\<rparr>"
        using w(1) party_step.p_before_read [OF False, unfolded flushBeforeRead_def] by (rule rtranclp.rtrancl_into_rtrancl)
      moreover have "sent w (outFlush w') bs" using sent_trans [OF w(2) sent_flush(1) [OF s']] by simp
      ultimately show ?thesis using waits(2) chan_sent [OF assms(2) _ sent_flush(2) [OF s'] l] by blast
    qed
  qed
qed

lemma hears_steps:
  assumes "absorbs p bs q" "chan l v i (bs @ xs)" "l = Plain \<or> l = Framed" "outPend w = []"
  shows "\<exists>i'. (party_step (outRaw v))\<^sup>*\<^sup>* \<lparr>pcode = p, pout = w, pin = i\<rparr> \<lparr>pcode = q, pout = w, pin = i'\<rparr> \<and> chan l v i' xs"
  using assms
proof (induction arbitrary: i rule: absorbs.induct)
  case (absorbs_refl p)
  then show ?case by auto
next
  case (absorbs_Rd f b p bs q)
  have "inView i (outRaw v) = b @ bs @ xs" using chan_view absorbs_Rd.prems by fastforce
  then have 1: "party_step (outRaw v) \<lparr>pcode = Rd f, pout = w, pin = i\<rparr> \<lparr>pcode = p, pout = w, pin = inTake (length b) i\<rparr>"
    using party_step.p_read absorbs_Rd.prems(3) absorbs_Rd.hyps(1) by blast
  have "chan l v (inTake (length b) i) (bs @ xs)" using chan_take absorbs_Rd.prems by simp
  then obtain i' where "(party_step (outRaw v))\<^sup>*\<^sup>* \<lparr>pcode = p, pout = w, pin = inTake (length b) i\<rparr> \<lparr>pcode = q, pout = w, pin = i'\<rparr>"
      "chan l v i' xs"
    using absorbs_Rd.IH absorbs_Rd.prems by blast
  with 1 show ?case using converse_rtranclp_into_rtranclp by metis
qed

lemma client_steps:
  "(party_step (outRaw (pout d)))\<^sup>*\<^sup>* c c' \<Longrightarrow> net_step\<^sup>*\<^sup>* \<lparr>client = c, daemon = d\<rparr> \<lparr>client = c', daemon = d\<rparr>"
proof (induction rule: rtranclp_induct)
  case (step b e)
  show ?case using step.IH net_step.client_step [OF step.hyps(2)] by (rule rtranclp.rtrancl_into_rtrancl)
qed simp

lemma daemon_steps:
  "(party_step (outRaw (pout c)))\<^sup>*\<^sup>* d d' \<Longrightarrow> net_step\<^sup>*\<^sup>* \<lparr>client = c, daemon = d\<rparr> \<lparr>client = c, daemon = d'\<rparr>"
proof (induction rule: rtranclp_induct)
  case (step b e)
  show ?case using step.IH net_step.daemon_step [OF step.hyps(2)] by (rule rtranclp.rtrancl_into_rtrancl)
qed simp

lemma chan_reader: "chan l w i [] \<Longrightarrow> l = Plain \<or> l = WriterAhead \<Longrightarrow> chan (readerSwitch l) w (startDemux i) []"
proof (elim disjE)
  assume "chan l w i []" "l = Plain"
  then show ?thesis by auto
qed (auto simp: carries_Nil intro!: exI [of _ "[]"])

lemma chan_writer: "chan l w i [] \<Longrightarrow> l = Plain \<or> l = ReaderAhead \<Longrightarrow> chan (writerSwitch l) (startMux w) i []"
  by (elim disjE) (auto simp: NewWriter_def defaultBufSize_def carries_Nil intro!: exI [of _ "[]"])

lemma talk_net:
  assumes "talk_step t t'" "at_talk t s"
  shows "\<exists>s'. net_step\<^sup>*\<^sup>* s s' \<and> at_talk t' s'"
proof -
  obtain p w i q v j where s: "s = \<lparr>client = \<lparr>pcode = p, pout = w, pin = i\<rparr>, daemon = \<lparr>pcode = q, pout = v, pin = j\<rparr>\<rparr>"
    by (metis net.surjective party.surjective unit.exhaust)
  have C: ?thesis if "(party_step (outRaw v))\<^sup>*\<^sup>* \<lparr>pcode = p, pout = w, pin = i\<rparr> \<lparr>pcode = p', pout = w', pin = i'\<rparr>"
      "at_talk t' \<lparr>client = \<lparr>pcode = p', pout = w', pin = i'\<rparr>, daemon = \<lparr>pcode = q, pout = v, pin = j\<rparr>\<rparr>" for p' w' i'
    using client_steps [of "\<lparr>pcode = q, pout = v, pin = j\<rparr>"] that s by auto
  have D: ?thesis if "(party_step (outRaw w))\<^sup>*\<^sup>* \<lparr>pcode = q, pout = v, pin = j\<rparr> \<lparr>pcode = q', pout = v', pin = j'\<rparr>"
      "at_talk t' \<lparr>client = \<lparr>pcode = p, pout = w, pin = i\<rparr>, daemon = \<lparr>pcode = q', pout = v', pin = j'\<rparr>\<rparr>" for q' v' j'
    using daemon_steps [of "\<lparr>pcode = p, pout = w, pin = i\<rparr>"] that s by auto
  have sw: "(party_step raw)\<^sup>*\<^sup>* \<lparr>pcode = SwIn x, pout = w, pin = i\<rparr> \<lparr>pcode = x, pout = w, pin = startDemux i\<rparr>"
    "(party_step raw)\<^sup>*\<^sup>* \<lparr>pcode = SwOut x, pout = w, pin = i\<rparr> \<lparr>pcode = x, pout = startMux w, pin = i\<rparr>"
    for raw w i and x :: "'c prog"
    by (rule r_into_rtranclp, rule party_step.p_switch_in, rule r_into_rtranclp, rule party_step.p_switch_out)
  from assms(1) show ?thesis
  proof (cases rule: talk_step.cases)
    case (c_say l x bs x' xs d)
    obtain y m ys where d: "d = (y, m, ys)" by (cases d) auto
    obtain w' where "(party_step (outRaw v))\<^sup>*\<^sup>* \<lparr>pcode = p, pout = w, pin = i\<rparr> \<lparr>pcode = x', pout = w', pin = i\<rparr>" "chan l w' j (xs @ bs)"
      using says_steps [OF c_say(3), of w j xs] assms(2) c_say(1) d s by auto
    then show ?thesis using assms(2) c_say d s by (intro C) auto
  next
    case (d_say l y bs y' c xs)
    obtain x m ys where c: "c = (x, m, ys)" by (cases c) auto
    obtain v' where "(party_step (outRaw w))\<^sup>*\<^sup>* \<lparr>pcode = q, pout = v, pin = j\<rparr> \<lparr>pcode = y', pout = v', pin = j\<rparr>" "chan l v' i (xs @ bs)"
      using says_steps [OF d_say(3), of v i xs] assms(2) d_say(1) c s by auto
    then show ?thesis using assms(2) d_say c s by (intro D) auto
  next
    case (c_hear x bs x' m l xs y ys)
    obtain i' where "(party_step (outRaw v))\<^sup>*\<^sup>* \<lparr>pcode = p, pout = w, pin = i\<rparr> \<lparr>pcode = x', pout = w, pin = i'\<rparr>" "chan m v i' ys"
      using hears_steps [OF c_hear(3) _ c_hear(4), of v i ys w] assms(2) c_hear(1) s chan_pend by auto
    then show ?thesis using assms(2) c_hear s by (intro C) auto
  next
    case (d_hear y bs y' l x xs m ys)
    obtain j' where "(party_step (outRaw w))\<^sup>*\<^sup>* \<lparr>pcode = q, pout = v, pin = j\<rparr> \<lparr>pcode = y', pout = v, pin = j'\<rparr>" "chan l w j' xs"
      using hears_steps [OF d_hear(3) _ d_hear(4), of w j xs v] assms(2) d_hear(1) s chan_pend by auto
    then show ?thesis using assms(2) d_hear s by (intro D) auto
  next
    case (c_in m x l xs y)
    then show ?thesis using assms(2) s chan_reader [of m v i] by (intro C [of x w "startDemux i"]) (auto simp: sw)
  next
    case (d_in l x y m ys)
    then show ?thesis using assms(2) s chan_reader [of l w j] by (intro D [of y v "startDemux j"]) (auto simp: sw)
  next
    case (c_out l x d)
    obtain y m ys where "d = (y, m, ys)" by (cases d) auto
    with c_out show ?thesis using assms(2) s chan_writer [of l w j] by (intro C [of x "startMux w" i]) (auto simp: sw)
  next
    case (d_out m c y)
    obtain x l xs where "c = (x, l, xs)" by (cases c) auto
    with d_out show ?thesis using assms(2) s chan_writer [of m v i] by (intro D [of y "startMux v" j]) (auto simp: sw)
  qed
qed

section \<open>Every run ends the same way\<close>

text \<open>
  Two programs complete with results \<open>x\<close> and \<open>y\<close>: no interleaving of their steps goes on for
  ever, and none stops anywhere but at the end of both.
\<close>

definition completes :: "'a prog \<Rightarrow> 'b prog \<Rightarrow> 'a \<Rightarrow> 'b \<Rightarrow> bool" where
  "completes p q x y \<longleftrightarrow>
    (\<exists>n. \<forall>k s. (net_step ^^ k) (startNet p q) s \<longrightarrow>
       k \<le> n \<and> ((\<forall>s'. \<not> net_step s s') \<longrightarrow> pcode (client s) = Ret x \<and> pcode (daemon s) = Ret y))"

lemma finished_stuck:
  assumes "pcode (client s) = Ret x" "pcode (daemon s) = Ret y"
  shows "\<not> net_step s s'"
  using assms by (auto elim!: net_step.cases party_step.cases)

lemma talk_completes:
  assumes "talk_step\<^sup>*\<^sup>* ((p, Plain, []), (q, Plain, [])) ((Ret x, l, xs), (Ret y, m, ys))"
  shows "completes p q x y"
proof -
  have start: "at_talk ((p, Plain, []), (q, Plain, [])) (startNet p q)"
    by (simp add: startNet_def startParty_def)
  have "\<exists>s. net_step\<^sup>*\<^sup>* (startNet p q) s \<and> at_talk ((Ret x, l, xs), (Ret y, m, ys)) s"
    using assms
  proof (induction rule: rtranclp_induct)
    case base
    then show ?case using start by blast
  next
    case (step b c)
    then show ?case using talk_net rtranclp_trans by metis
  qed
  then obtain s n where s: "(net_step ^^ n) (startNet p q) s" "pcode (client s) = Ret x" "pcode (daemon s) = Ret y"
    by (auto simp: rtranclp_power)
  have stuck: "\<forall>u. \<not> net_step s u" using finished_stuck [OF s(2,3)] by blast
  have "k \<le> n \<and> ((\<forall>s'. \<not> net_step u s') \<longrightarrow> pcode (client u) = Ret x \<and> pcode (daemon u) = Ret y)"
    if "(net_step ^^ k) (startNet p q) u" for k u
    using net.run_ends [OF s(1) stuck that] net.stuck_unique [OF s(1) stuck that] s(2,3) by blast
  then show ?thesis unfolding completes_def by blast
qed

end
