(* ===== verification/Transfer_Programs.thy ===== *)
theory Transfer_Programs
  imports Dialogue Session_Exchange
begin

text \<open>
  The two sides of a transfer, \<^verbatim>\<open>src/server-send.go\<close> and \<^verbatim>\<open>src/client-open.go\<close>, as programs: the
  same statements as in \<open>Server_Send\<close> and \<open>Client_Transfer\<close>, with every read, write and flush
  where the source has it. What they compute on a complete input is what those theories say.
\<close>

section \<open>The daemon\<close>

type_synonym 'a sact = "(unit, 'a) act"

definition sendFileListP :: "transfer_state \<Rightarrow> unit sact" where
  "sendFileListP st =
    (let (fw, bs) = enc_all WriteEntry (flistWriterOf st) (map toWire (entries st))
     in abnd (awr (bs @ WriteEndMarker fw @ WriteIDLists fw @ WriteIOErrorTrailer fw 0)) (\<lambda>_. aflush))"

definition echoNdxP :: "int \<Rightarrow> ndx_state \<Rightarrow> i32 \<Rightarrow> ndx_state sact" where
  "echoNdxP v outNdx ndx =
    (if 30 \<le> v then let (outNdx', bs) = WriteNdx outNdx ndx in abnd (awr bs) (\<lambda>_. aret outNdx')
     else abnd (awr (WriteInt32 ndx)) (\<lambda>_. aret outNdx))"

definition echoSelectorP :: "int \<Rightarrow> ndx_state \<Rightarrow> selector \<Rightarrow> ndx_state sact" where
  "echoSelectorP v outNdx sel =
    (let (res, outNdx', bs) = WriteSelector v outNdx sel
     in abnd (awr bs) (\<lambda>_. case res of Inl err \<Rightarrow> afail err | Inr _ \<Rightarrow> aret outNdx'))"

definition echoDelStatsP :: "int \<Rightarrow> ndx_state \<Rightarrow> ndx_state sact" where
  "echoDelStatsP v outNdx =
    abnd (ard (readN 5 (wrapping ''read del_stats varint'' ReadVarint))) (\<lambda>_.
    abnd (echoNdxP v outNdx ndxDelStats) (\<lambda>outNdx'.
    abnd (awr (concat (replicate 5 (WriteVarint 0)))) (\<lambda>_. aret outNdx')))"

definition sendFileP :: "(gostring \<Rightarrow> go_error + byte list) \<Rightarrow> transfer_state \<Rightarrow> file_entry \<Rightarrow> selector \<Rightarrow> ndx_state \<Rightarrow>
    ndx_state sact" where
  "sendFileP fsRead st entry sel outNdx =
    abnd (ard (receiveSums (ver st))) (\<lambda>(sh, sums).
    abnd (if modeIsRegular (fmode entry)
          then case fsRead (fname entry) of Inl err \<Rightarrow> afail (Wrap ''open or read'' err) | Inr data \<Rightarrow> aret data
          else if 30 \<le> ver st then afail (Errorf ''transfer request for non-regular file'')
          else aret []) (\<lambda>data.
    abnd (echoSelectorP (ver st) outNdx sel) (\<lambda>outNdx'.
    abnd (awr (WriteSumHead sh (ver st))) (\<lambda>_.
      case matchSums (tconf st) (ver st) data sh sums of
        Inl err \<Rightarrow> afail err
      | Inr bs \<Rightarrow> abnd (awr bs) (\<lambda>_. abnd aflush (\<lambda>_. aret outNdx'))))))"

definition sendStepP :: "(gostring \<Rightarrow> go_error + byte list) \<Rightarrow> transfer_state \<Rightarrow> ndx_state \<times> ndx_state \<times> nat \<Rightarrow>
    ((ndx_state \<times> ndx_state \<times> nat) option \<times> ndx_state) sact" where
  "sendStepP fsRead st = (\<lambda>(inNdx, outNdx, phase).
    abnd (ard (wrapping ''read selector'' (ReadSelector (ver st) inNdx))) (\<lambda>(sel, inNdx').
      if Ndx sel = NDxDone then
        if maxPhase (ver st) < phase + 1 then aret (None, outNdx)
        else abnd (echoNdxP (ver st) outNdx (Ndx sel)) (\<lambda>outNdx'. aret (Some (inNdx', outNdx', phase + 1), outNdx'))
      else if Ndx sel = NDXFlistEOF then afail (Errorf ''unexpected NDX_FLIST_EOF'')
      else if Ndx sel = ndxDelStats then
        abnd (echoDelStatsP (ver st) outNdx) (\<lambda>outNdx'. aret (Some (inNdx', outNdx', phase), outNdx'))
      else if sint (Ndx sel) < 0 then afail (Errorf ''invalid file index'')
      else if ver st < 30 \<and> Ndx sel = word_of_nat (length (entries st)) \<and> Iflags sel = ItemIsNew then
        aret (Some (inNdx', outNdx, phase), outNdx)
      else if int (length (entries st)) \<le> sint (Ndx sel) then afail (Errorf ''file-list index out of range'')
      else let entry = entries st ! unat (Ndx sel) in
        if \<not> has (Iflags sel) ItemTransfer then
          abnd (echoSelectorP (ver st) outNdx sel) (\<lambda>outNdx'. aret (Some (inNdx', outNdx', phase), outNdx'))
        else if phase = 2 then afail (Errorf ''got transfer request in phase 2'')
        else abnd (sendFileP fsRead st entry sel outNdx) (\<lambda>outNdx'. aret (Some (inNdx', outNdx', phase), outNdx'))))"

text \<open>The loop with fuel; that more fuel than the client sends bytes is enough is part of the results.\<close>

fun sendLoopP :: "nat \<Rightarrow> (gostring \<Rightarrow> go_error + byte list) \<Rightarrow> transfer_state \<Rightarrow> ndx_state \<times> ndx_state \<times> nat \<Rightarrow>
    ndx_state sact" where
  "sendLoopP 0 fsRead st vars = afail (Panic ''does not return'')"
| "sendLoopP (Suc n) fsRead st vars =
    abnd (sendStepP fsRead st vars) (\<lambda>(vars', outNdx).
      case vars' of None \<Rightarrow> aret outNdx | Some vars'' \<Rightarrow> sendLoopP n fsRead st vars'')"

definition sendFilesP :: "nat \<Rightarrow> (gostring \<Rightarrow> go_error + byte list) \<Rightarrow> transfer_state \<Rightarrow> unit sact" where
  "sendFilesP fuel fsRead st =
    abnd (sendLoopP fuel fsRead st (NewNdxState, NewNdxState, 0)) (\<lambda>outNdx.
    abnd (echoNdxP (ver st) outNdx NDxDone) (\<lambda>_. aret ()))"

definition sendStatsP :: "transfer_state \<Rightarrow> unit sact" where
  "sendStatsP st = abnd (awr (concat (map (writeStat (ver st)) (statValues st)))) (\<lambda>_. aflush)"

definition firstGoodbyeP :: "int \<Rightarrow> (i32 \<times> ndx_state) sact" where
  "firstGoodbyeP v =
    (if v < 29 then atry (ard (readNdxVer v NewNdxState)) (\<lambda>r. case r of
         Inr x \<Rightarrow> aret x
       | Inl err \<Rightarrow> if is_panic err then afail err else aret (0, NewNdxState))
     else abnd (ard (wrapping ''read final goodbye'' (ReadSelector v NewNdxState))) (\<lambda>(sel, n). aret (Ndx sel, n)))"

definition readFinalGoodbyeP :: "int \<Rightarrow> unit sact" where
  "readFinalGoodbyeP v =
    abnd (firstGoodbyeP v) (\<lambda>(first, inNdx).
      if first \<noteq> NDxDone then afail (Errorf ''invalid packet at end of run'')
      else if 31 \<le> v then
        abnd (echoNdxP v NewNdxState NDxDone) (\<lambda>_.
          atry (ard (ReadSelector v inNdx)) (\<lambda>r. case r of
              Inl err \<Rightarrow> if errors_Is err EOF then aret () else afail (Wrap ''read final goodbye (second)'' err)
            | Inr (sel, _) \<Rightarrow> if Ndx sel \<noteq> NDxDone then afail (Errorf ''invalid packet at end of run'') else aret ()))
      else aret ())"

definition doServerSenderP :: "nat \<Rightarrow> (gostring \<Rightarrow> go_error + byte list) \<Rightarrow> go_error + file_entry list \<Rightarrow> transfer_state \<Rightarrow>
    unit sact" where
  "doServerSenderP fuel fsRead listing st =
    abnd (ard recvFilterList) (\<lambda>_.
      case listing of
        Inl err \<Rightarrow> afail err
      | Inr es \<Rightarrow>
          let st' = st\<lparr>entries := es\<rparr>
          in if es = [] then aflush
             else abnd (sendFileListP st') (\<lambda>_. abnd (sendFilesP fuel fsRead st') (\<lambda>_. abnd aflush (\<lambda>_.
                  abnd (sendStatsP st') (\<lambda>_. abnd (readFinalGoodbyeP (ver st')) (\<lambda>_. aflush))))))"

section \<open>The client\<close>

type_synonym 'a cact = "(ndx_state \<times> ndx_state, 'a) act"

definition writeSelP :: "session \<Rightarrow> selector \<Rightarrow> unit cact" where
  "writeSelP se sel =
    abnd aget (\<lambda>(n, m).
      let (res, n', bs) = WriteSelector (sversion se) n sel
      in abnd (aput (n', m)) (\<lambda>_. abnd (awr bs) (\<lambda>_. case res of Inl err \<Rightarrow> afail err | Inr _ \<Rightarrow> aret ())))"

definition readSelP :: "session \<Rightarrow> selector cact" where
  "readSelP se =
    abnd aget (\<lambda>(n, m).
    abnd (ard (ReadSelector (sversion se) m)) (\<lambda>(sel, m'). abnd (aput (n, m')) (\<lambda>_. aret sel)))"

definition openFileP :: "session \<Rightarrow> i32 \<Rightarrow> byte list cact" where
  "openFileP se ndx =
    abnd (awrap ''write selector''
          (writeSelP se \<lparr>Ndx = ndx, Iflags = ItemTransfer OR ItemMissingData, BasisType = 0, Xname = []\<rparr>)) (\<lambda>_.
    abnd (awr (WriteSumHead nullSumHead (sversion se))) (\<lambda>_.
    abnd (awrap ''read echoed selector'' (readSelP se)) (\<lambda>_.
    abnd (ard (wrapping ''read sum head'' (ReadSumHead (sversion se)))) (\<lambda>sh.
    abnd (ard (pullLoop NewDeltaReader [])) (\<lambda>data.
    abnd (ard (wrapping ''read file checksum''
              (readFull (if sint (S2Length sh) \<le> 0 then 16 else unat (S2Length sh))))) (\<lambda>want.
      if \<not> equalBytes (FileChecksum (shashes se) data (schecksum se) (sversion se) (sseed se)) want
      then afail (Errorf ''checksum mismatch'')
      else aret data))))))"

definition writePhaseNdxP :: "session \<Rightarrow> unit cact" where
  "writePhaseNdxP se =
    (if 30 \<le> sversion se
     then abnd aget (\<lambda>(n, m). let (n', bs) = WriteNdx n NDxDone in abnd (aput (n', m)) (\<lambda>_. awr bs))
     else awr (WriteInt32 NDxDone))"

definition readPhaseNdxP :: "session \<Rightarrow> unit cact" where
  "readPhaseNdxP se =
    (if 29 \<le> sversion se
     then abnd (awrap ''read NDX_DONE'' (readSelP se)) (\<lambda>sel.
            if Ndx sel \<noteq> NDxDone then afail (Errorf ''expected NDX_DONE'') else aret ())
     else abnd (ard (wrapping ''read NDX_DONE'' ReadInt32)) (\<lambda>v.
            if v \<noteq> NDxDone then afail (Errorf ''expected NDX_DONE'') else aret ()))"

fun phaseLoopP :: "nat \<Rightarrow> session \<Rightarrow> unit cact" where
  "phaseLoopP 0 se = aret ()"
| "phaseLoopP (Suc n) se = abnd (writePhaseNdxP se) (\<lambda>_. abnd (readPhaseNdxP se) (\<lambda>_. phaseLoopP n se))"

definition finalGoodbyeP :: "session \<Rightarrow> unit cact" where
  "finalGoodbyeP se =
    (if sversion se < 29 then awr (WriteInt32 NDxDone)
     else abnd (writePhaseNdxP se) (\<lambda>_.
       if 31 \<le> sversion se then abnd (readPhaseNdxP se) (\<lambda>_. writePhaseNdxP se) else aret ()))"

definition finishSessionP :: "session \<Rightarrow> unit cact" where
  "finishSessionP se =
    abnd (phaseLoopP (maxPhase (sversion se) + 1) se) (\<lambda>_.
    abnd (ard (readStats se)) (\<lambda>_. finalGoodbyeP se))"

definition openFileFromContextP :: "session \<Rightarrow> open_context \<Rightarrow> opened cact" where
  "openFileFromContextP se ctx =
    (let e = ctxEntry ctx
     in if wireModeIsDir (Mode e)
        then aret (DirFile (flistInfo (baseName (ctxName ctx)) e) (filterFlistChildren (ctxEntries ctx) (ctxName ctx)))
        else if wireModeIsSymlink (Mode e)
        then aret (SymlinkFile (flistInfo (baseName (ctxName ctx)) e) (LinkTarget e))
        else abnd (openFileP se (ctxNdx ctx)) (\<lambda>data. aret (RegularFile (flistInfo (baseName (Name e)) e) data)))"

definition withEntryP :: "session \<Rightarrow> gostring \<Rightarrow> (open_context \<Rightarrow> 'a cact) \<Rightarrow> 'a cact" where
  "withEntryP se name fn =
    abnd (ard (wrapping ''read file list'' (readFileList se))) (\<lambda>es.
      let ndxByName = sortFlistEntries es (sversion se)
      in atry (case findFlistEntry es name of
             Some e \<Rightarrow> fn \<lparr>ctxEntries = es, ctxEntry = e,
                          ctxNdx = (case ndxByName (Name e) of Some i \<Rightarrow> i | None \<Rightarrow> 0), ctxName = name\<rparr>
           | None \<Rightarrow> afail (Errorf ''file does not exist'')) (\<lambda>res.
         atry (finishSessionP se) (\<lambda>fin.
           case (res, fin) of
             (Inl err, _) \<Rightarrow> afail err
           | (Inr f, Inl ferr) \<Rightarrow> afail (Wrap ''finish session'' ferr)
           | (Inr f, Inr _) \<Rightarrow> aret f)))"

text \<open>The deferred \<^verbatim>\<open>consume\<close> flushes, whatever the result.\<close>

definition consumeP :: "'a cact \<Rightarrow> 'a cact" where
  "consumeP m = atry m (\<lambda>r. abnd aflush (\<lambda>_. case r of Inl err \<Rightarrow> afail err | Inr x \<Rightarrow> aret x))"

definition OpenP :: "(gostring \<Rightarrow> bool) \<Rightarrow> session \<Rightarrow> gostring \<Rightarrow> opened cact" where
  "OpenP valid se name =
    (if \<not> valid name then afail (Errorf ''open: invalid argument'')
     else consumeP (withEntryP se name (openFileFromContextP se)))"

definition LstatP :: "(gostring \<Rightarrow> bool) \<Rightarrow> session \<Rightarrow> gostring \<Rightarrow> file_info cact" where
  "LstatP valid se name =
    (if \<not> valid name then afail (Errorf ''lstat: invalid argument'')
     else consumeP (withEntryP se name (\<lambda>ctx. aret (flistInfo (baseName (ctxName ctx)) (ctxEntry ctx)))))"

definition ReadLinkP :: "(gostring \<Rightarrow> bool) \<Rightarrow> session \<Rightarrow> gostring \<Rightarrow> gostring cact" where
  "ReadLinkP valid se name =
    (if \<not> valid name then afail (Errorf ''readlink: invalid argument'')
     else consumeP (withEntryP se name (\<lambda>ctx.
       if \<not> wireModeIsSymlink (Mode (ctxEntry ctx)) then afail (Errorf ''not a symlink'')
       else aret (LinkTarget (ctxEntry ctx)))))"

section \<open>What the programs compute\<close>

abbreviation sden :: "'a sact \<Rightarrow> (conn, 'a) io" where
  "sden \<equiv> den (\<lambda>_. ()) (\<lambda>_ c. c)"

lemma bnd_unit: "bnd m (\<lambda>_. ret ()) = m"
  by (auto simp: fun_eq_iff bnd_def split: prod.splits sum.splits)

lemma sden_echo:
  "sden (echoNdxP v n i) = echoNdx v n i" "sden (echoSelectorP v n sel) = echoSelector v n sel"
  "sden (echoDelStatsP v n) = echoDelStats v n"
  unfolding echoNdxP_def echoNdx_def echoSelectorP_def echoSelector_def echoDelStatsP_def echoDelStats_def Let_def plain.den_simps
  by (rule refl)+

lemma sden_sendFile: "sden (sendFileP fsRead st entry sel n) = sendFile fsRead st entry sel n"
  unfolding sendFileP_def sendFile_def plain.den_simps sden_echo bnd_ret by (rule refl)

lemma sden_sendStep: "sden (sendStepP fsRead st vars) = sendStep fsRead st vars"
  unfolding sendStepP_def sendStep_def Let_def plain.den_simps sden_echo sden_sendFile by (rule refl)

lemma sden_sendLoop:
  "sendLoop n fsRead st vars c = Some r \<Longrightarrow> sden (sendLoopP n fsRead st vars) c = r"
proof (induction n fsRead st vars c rule: sendLoop.induct)
  case (2 n fsRead st vars c)
  then show ?case
    by (auto simp: plain.den_abnd bnd_def sden_sendStep plain.den_basic plain.den_case_prod split: prod.splits sum.splits option.splits)
qed simp

lemma sden_sendFiles:
  assumes "length (avail (cin c)) < fuel"
  shows "sden (sendFilesP fuel fsRead st) c = sendFiles fsRead st c"
proof -
  let ?v = "(NewNdxState, NewNdxState, 0)"
  obtain r where r: "sendLoop (Suc (length (avail (cin c)))) fsRead st ?v c = Some r" using sendLoop_returns by blast
  then have "sendLoop fuel fsRead st ?v c = Some r"
    using sendLoop_more [OF r, of "fuel - Suc (length (avail (cin c)))"] assms by simp
  from sden_sendLoop [OF this] r show ?thesis
    by (cases r, cases "fst r") (simp_all add: sendFilesP_def sendFiles_def plain.den_simps bnd_def sden_echo)
qed

lemma sden_sendFileList: "sden (sendFileListP st) = sendFileList st"
  unfolding sendFileListP_def sendFileList_def Let_def plain.den_simps bnd_unit by (rule refl)

lemma sden_goodbye: "sden (readFinalGoodbyeP v) = readFinalGoodbye v"
proof -
  have "sden (firstGoodbyeP v) = firstGoodbye v"
    by (auto simp: fun_eq_iff firstGoodbyeP_def firstGoodbye_def plain.den_simps plain.den_atry split: prod.splits sum.splits)
  then show ?thesis
    by (auto simp: fun_eq_iff readFinalGoodbyeP_def readFinalGoodbye_def plain.den_simps plain.den_atry sden_echo bnd_def
        split: prod.splits sum.splits)
qed

lemma recvFilterList_shrinks: "recvFilterList s = (Inr u, s') \<Longrightarrow> length (avail s') \<le> length (avail s)"
proof (induction s rule: recvFilterList.induct)
  case (1 s)
  obtain res t where l: "ReadInt32 s = (res, t)" by (cases "ReadInt32 s")
  show ?case
  proof (cases res)
    case (Inr len32)
    then have t: "length (avail t) \<le> length (avail s)" using consumesD [OF consumes_ints(1)] l by fastforce
    show ?thesis
    proof (cases "len32 = 0 \<or> sint len32 < 0")
      case True
      with "1.prems" t l Inr show ?thesis by (auto simp: recvFilterList.simps [of s] split: if_splits)
    next
      case False
      obtain res2 t2 where d: "discardN (unat len32) t = (res2, t2)" by (cases "discardN (unat len32) t")
      show ?thesis
      proof (cases res2)
        case (Inr x)
        have "recvFilterList t2 = (Inr u, s')" using "1.prems" l \<open>res = Inr len32\<close> False d Inr by (simp add: recvFilterList.simps [of s])
        from "1.IH" [OF l [symmetric] \<open>res = Inr len32\<close> _ _ d [symmetric] Inr this] False discardN_consumes [of _ t x t2] d Inr t
        show ?thesis by fastforce
      qed (use "1.prems" l \<open>res = Inr len32\<close> False d in \<open>simp add: recvFilterList.simps [of s]\<close>)
    qed
  qed (use "1.prems" l in \<open>simp add: recvFilterList.simps [of s]\<close>)
qed

lemma daemon_program:
  assumes "length (avail (cin c)) < fuel"
  shows "sden (doServerSenderP fuel fsRead listing st) c = doServerSender fsRead listing st c"
proof -
  obtain res d where d: "rd recvFilterList c = (res, d)" by (cases "rd recvFilterList c")
  show ?thesis
  proof (cases res)
    case (Inr u)
    then have "length (avail (cin d)) < fuel"
      using d assms by (auto simp: rd_def split: prod.splits dest!: recvFilterList_shrinks)
    then have "sden (sendFilesP fuel fsRead st') (d\<lparr>cout := w\<rparr>) = sendFiles fsRead st' (d\<lparr>cout := w\<rparr>)" for st' w
      by (intro sden_sendFiles) simp
    with d Inr show ?thesis
      by (auto simp: doServerSenderP_def doServerSender_def plain.den_simps bnd_def sden_sendFileList sendFileList_bytes
          sendStatsP_def sendStats_def wr_def sden_goodbye Let_def split: prod.splits sum.splits)
  qed (use d in \<open>simp add: doServerSenderP_def doServerSender_def plain.den_simps bnd_def\<close>)
qed

section \<open>The client's\<close>

abbreviation cden :: "'a cact \<Rightarrow> (client_conn, 'a) io" where
  "cden \<equiv> den (\<lambda>c. (sndx c, srecvNdx c)) (\<lambda>(n, m) c. c\<lparr>sndx := n, srecvNdx := m\<rparr>)"

interpretation sess: stateful "\<lambda>c :: client_conn. (sndx c, srecvNdx c)" "\<lambda>(n, m) c. c\<lparr>sndx := n, srecvNdx := m\<rparr>"
  by unfold_locales auto

lemma cden_sel: "cden (writeSelP se sel) = writeSel se sel" "cden (readSelP se) = readSel se"
  by (auto simp: fun_eq_iff writeSelP_def writeSel_def readSelP_def readSel_def sess.den_simps bnd_def rd_def wr_def Let_def
      split: prod.splits sum.splits)

lemma cden_phase: "cden (writePhaseNdxP se) = writePhaseNdx se" "cden (readPhaseNdxP se) = readPhaseNdx se"
  by (auto simp: fun_eq_iff writePhaseNdxP_def writePhaseNdx_def readPhaseNdxP_def readPhaseNdx_def sess.den_simps cden_sel
      bnd_def wr_def split: prod.splits sum.splits)

lemma cden_openFile: "cden (openFileP se ndx) = openFile se ndx"
  unfolding openFileP_def openFile_def sess.den_simps cden_sel by (rule refl)

lemma cden_phaseLoop: "cden (phaseLoopP n se) = phaseLoop n se"
  by (induction n) (simp_all add: sess.den_simps cden_phase)

lemma cden_finishSession: "cden (finishSessionP se) = finishSession se"
  unfolding finishSessionP_def finishSession_def finalGoodbyeP_def finalGoodbye_def sess.den_simps cden_phase cden_phaseLoop
  by (rule refl)

lemma cden_openFileFromContext: "cden (openFileFromContextP se ctx) = openFileFromContext se ctx"
  unfolding openFileFromContextP_def openFileFromContext_def Let_def sess.den_simps cden_openFile by (rule refl)

lemma cden_withEntry:
  assumes "\<And>ctx. cden (fn ctx) = fn' ctx"
  shows "cden (withEntryP se name fn) = withEntry se name fn'"
  by (auto simp: fun_eq_iff withEntryP_def withEntry_def sess.den_simps sess.den_atry bnd_def Let_def cden_finishSession assms
      split: prod.splits sum.splits option.splits)

lemma cden_consume: "cden (consumeP m) = cden m"
  by (auto simp: fun_eq_iff consumeP_def sess.den_atry sess.den_simps bnd_def split: prod.splits sum.splits)

text \<open>The operations of a session, as programs and as computations.\<close>

lemma client_program:
  "cden (OpenP valid se name) = Open valid se name"
  "cden (LstatP valid se name) = Lstat valid se name"
  "cden (ReadLinkP valid se name) = ReadLink valid se name"
  unfolding OpenP_def Open_def LstatP_def Lstat_def ReadLinkP_def ReadLink_def sess.den_if sess.den_basic cden_consume
  by (simp_all add: cden_withEntry [OF cden_openFileFromContext] cden_withEntry [OF sess.den_basic(1)]
      cden_withEntry [where fn' = "\<lambda>ctx. if \<not> wireModeIsSymlink (Mode (ctxEntry ctx)) then fail (Errorf ''not a symlink'')
       else ret (LinkTarget (ctxEntry ctx))"] sess.den_basic)

end
