(* ===== verification/Lockstep.thy ===== *)
theory Lockstep
  imports Transfer_Programs
begin

text \<open>
  The two sides of a transfer in conversation: they take turns, the client asking and the
  daemon answering, and what each reads is what the other has flushed by then.
\<close>

section \<open>Turns\<close>

text \<open>Saying something and then waiting, or flushing.\<close>

definition speaks :: "'r prog \<Rightarrow> byte list \<Rightarrow> 'r prog \<Rightarrow> bool" where
  "speaks p bs q \<longleftrightarrow> emits p bs (Fl q) \<or> emits p bs q \<and> (\<exists>f. q = Rd f)"

lemma speaksI: "emits p bs (Fl q) \<Longrightarrow> speaks p bs q" "emits p bs (Rd f) \<Longrightarrow> speaks p bs (Rd f)"
  by (auto simp: speaks_def)

lemma emits_flushed: "emits p bs (Fl q) \<Longrightarrow> emits p bs q"
  using emits_trans [OF _ emits_Fl [OF emits_refl]] by fastforce

lemma speaks_says: "speaks p bs q \<Longrightarrow> l = Plain \<or> l = Framed \<Longrightarrow> says l p bs q"
  by (auto simp: speaks_def says_def emits_flushed)

lemma speaks_thenP: "speaks p bs q \<Longrightarrow> speaks (thenP p k) bs (thenP q k)"
  using emits_thenP [of p bs "Fl q" k] emits_thenP [of p bs q k] by (auto simp: speaks_def)

text \<open>The client has the floor before and after; the daemon's output is multiplexed.\<close>

definition meet :: "link \<Rightarrow> 'a prog \<Rightarrow> 'b prog \<Rightarrow> 'a prog \<Rightarrow> 'b prog \<Rightarrow> bool" where
  "meet l p q p' q' \<longleftrightarrow> talk_step\<^sup>*\<^sup>* ((p, l, []), (q, Framed, [])) ((p', l, []), (q', Framed, []))"

lemma meet_refl: "meet l p q p q"
  by (simp add: meet_def)

lemma meet_trans: "meet l p q p1 q1 \<Longrightarrow> meet l p1 q1 p2 q2 \<Longrightarrow> meet l p q p2 q2"
  by (auto simp: meet_def)

lemma meet_ask:
  assumes l: "l = Plain \<or> l = Framed" and "speaks p bs p'" "absorbs q bs q'"
  shows "meet l p q p' q'"
proof -
  have "talk_step ((p, l, []), (q, Framed, [])) ((p', l, [] @ bs), (q, Framed, []))"
    by (rule talk_step.c_say, rule speaks_says [OF assms(2) l])
  moreover have "talk_step ((p', l, bs @ []), (q, Framed, [])) ((p', l, []), (q', Framed, []))"
    by (rule talk_step.d_hear [OF assms(3) l])
  ultimately show ?thesis unfolding meet_def by simp
qed

lemma meet_answer:
  assumes "speaks q bs q'" "absorbs p bs p'"
  shows "meet l p q p' q'"
proof -
  have "talk_step ((p, l, []), (q, Framed, [])) ((p, l, []), (q', Framed, [] @ bs))"
    by (rule talk_step.d_say, rule speaks_says [OF assms(1)]) simp
  moreover have "talk_step ((p, l, []), (q', Framed, bs @ [])) ((p', l, []), (q', Framed, []))"
    by (rule talk_step.c_hear [OF assms(2)]) simp
  ultimately show ?thesis unfolding meet_def by simp
qed

lemma meet_turn:
  assumes "l = Plain \<or> l = Framed" "speaks p bs p1" "absorbs q bs q1" "speaks q1 bs' q2" "absorbs p1 bs' p2"
  shows "meet l p q p2 q2"
  by (rule meet_trans [OF meet_ask [OF assms(1-3)] meet_answer [OF assms(4,5)]])

text \<open>Conversations go on in any context.\<close>

lemma says_thenP: "says l p bs q \<Longrightarrow> says l (thenP p k) bs (thenP q k)"
  using emits_thenP [of p bs "Fl q" k] emits_thenP [of p bs q k] by (auto simp: says_def)

lemma talk_thenP:
  assumes "talk_step\<^sup>*\<^sup>* ((p, l, xs), (q, m, ys)) ((p', l', xs'), (q', m', ys'))"
  shows "talk_step\<^sup>*\<^sup>* ((thenP p k, l, xs), (thenP q h, m, ys)) ((thenP p' k, l', xs'), (thenP q' h, m', ys'))"
proof -
  let ?f = "map_prod (map_prod (\<lambda>p. thenP p k) id) (map_prod (\<lambda>q. thenP q h) id)"
  have one: "talk_step (?f t) (?f t')" if "talk_step t t'" for t t'
    using that by cases (auto intro: talk_step.intros says_thenP absorbs_thenP)
  have "talk_step\<^sup>*\<^sup>* (?f t) (?f t')" if "talk_step\<^sup>*\<^sup>* t t'" for t t'
    using that
  proof (induction rule: rtranclp_induct)
    case (step u v)
    show ?case using step.IH one [OF step.hyps(2)] by (rule rtranclp.rtrancl_into_rtrancl)
  qed simp
  from this [OF assms] show ?thesis by simp
qed

lemma meet_thenP: "meet l p q p' q' \<Longrightarrow> meet l (thenP p k) (thenP q h) (thenP p' k) (thenP q' h)"
  unfolding meet_def by (rule talk_thenP)

lemma thenP_Ret [simp]: "thenP p Ret = p"
  by (induction p) (auto simp: map_prod_def case_prod_beta intro!: ext)

lemmas meet_client = meet_thenP [where h = Ret, unfolded thenP_Ret]
lemmas meet_daemon = meet_thenP [where k = Ret, unfolded thenP_Ret]

section \<open>Actions in sequence\<close>

lemma thenP_assoc: "thenP (thenP p k) h = thenP p (\<lambda>r. thenP (k r) h)"
  by (induction p) (auto simp: map_prod_def case_prod_beta intro!: ext)

lemma emits_bnd: "emits (m s) bs (Ret (Inr x, s')) \<Longrightarrow> emits (f x s') cs q \<Longrightarrow> emits (abnd m f s) (bs @ cs) q"
  unfolding abnd_def atry_def by (rule emits_trans, erule emits_thenP) simp

lemma absorbs_bnd: "absorbs (m s) bs (Ret (Inr x, s')) \<Longrightarrow> absorbs (f x s') cs q \<Longrightarrow> absorbs (abnd m f s) (bs @ cs) q"
  unfolding abnd_def atry_def by (rule absorbs_trans, erule absorbs_thenP) simp

lemma act_ends: "aret x s = Ret (Inr x, s)" "afail e s = Ret (Inl e, s)"
  by (simp_all add: aret_def afail_def)

lemma act_steps:
  "abnd (aret x) f = f x" "abnd (afail e) f = afail e" "abnd (awr bs) g s = Wr bs (g () s)" "abnd aflush g s = Fl (g () s)"
  "abnd aget h s = h s s" "abnd (aput t) g s = g () t"
  by (simp_all add: fun_eq_iff abnd_def atry_def aret_def afail_def awr_def aflush_def aget_def aput_def)

lemmas act_simps = act_ends act_steps

lemma abnd_assoc: "abnd (abnd m f) g = abnd m (\<lambda>x. abnd (f x) g)"
  by (auto simp: fun_eq_iff abnd_def atry_def thenP_assoc afail_def intro!: arg_cong [of _ _ "thenP (m _)"] split: sum.splits)

lemma abnd_aret: "abnd m aret = m"
proof
  fix s
  have "(\<lambda>(r, s'). case_sum afail aret r s') = Ret"
    by (rule ext) (auto simp: aret_def afail_def split: sum.splits)
  from arg_cong [OF this, of "thenP (m s)"] show "abnd m aret s = m s" by (simp add: abnd_def atry_def)
qed

lemma emits_last: "emits (m s) bs (Ret (Inr x, s')) \<Longrightarrow> f x s' = q \<Longrightarrow> emits (abnd m f s) bs q"
  using emits_bnd [where cs = "[]" and q = q, of m s bs x s' f] emits_refl by auto

lemma absorbs_last: "absorbs (m s) bs (Ret (Inr x, s')) \<Longrightarrow> f x s' = q \<Longrightarrow> absorbs (abnd m f s) bs q"
  using absorbs_bnd [where cs = "[]" and q = q, of m s bs x s' f] absorbs_refl by auto

lemma absorbs_try: "absorbs (m s) bs (Ret (r, s')) \<Longrightarrow> k r s' = q \<Longrightarrow> absorbs (atry m k s) bs q"
  unfolding atry_def by (drule absorbs_thenP [where k = "\<lambda>(r, s'). k r s'"]) simp

lemma act_awrap: "awrap msg m s = thenP (m s) (\<lambda>(r, s'). Ret (case r of Inl e \<Rightarrow> Inl (Wrap msg e) | Inr x \<Rightarrow> Inr x, s'))"
  by (auto simp: awrap_def atry_def aret_def afail_def fun_eq_iff intro!: arg_cong [of _ _ "thenP (m s)"] split: sum.splits)

lemma emits_awrap: "emits (m s) bs (Ret (Inr x, s')) \<Longrightarrow> emits (awrap msg m s) bs (Ret (Inr x, s'))"
  unfolding act_awrap by (drule emits_thenP [where k = "\<lambda>(r, s'). Ret (case r of Inl e \<Rightarrow> Inl (Wrap msg e) | Inr x \<Rightarrow> Inr x, s')"]) simp

lemma absorbs_awrap: "absorbs (m s) bs (Ret (Inr x, s')) \<Longrightarrow> absorbs (awrap msg m s) bs (Ret (Inr x, s'))"
  unfolding act_awrap by (drule absorbs_thenP [where k = "\<lambda>(r, s'). Ret (case r of Inl e \<Rightarrow> Inl (Wrap msg e) | Inr x \<Rightarrow> Inr x, s')"]) simp

lemma absorbs_read: "reads m bs x \<Longrightarrow> absorbs (f x s) cs q \<Longrightarrow> absorbs (abnd (ard m) f s) (bs @ cs) q"
  by (rule absorbs_bnd, rule absorbs_ard)

lemma starts_read: "\<exists>g. abnd (ard m) f s = Rd g"
  by (simp add: abnd_def atry_def ard_def)

section \<open>The turns of a transfer\<close>

lemma echoNdxP_done: "emits (echoNdxP v m NDxDone s) (doneBytes v) (Ret (Inr m, s))"
  using emits_Wr [OF emits_refl, of "doneBytes v" "Ret (Inr m, s)"]
  by (auto simp: echoNdxP_def WriteNdx_done act_simps doneBytes_def)

lemma writePhaseNdxP_done: "emits (writePhaseNdxP se s) (doneBytes (sversion se)) (Ret (Inr (), s))"
  using emits_Wr [OF emits_refl, of "doneBytes (sversion se)" "Ret (Inr (), s)"]
  by (cases s) (auto simp: writePhaseNdxP_def WriteNdx_done act_simps doneBytes_def awr_def)

lemma readSelP_reads:
  assumes "reads (ReadSelector (sversion se) m) bs (sel, m')"
  shows "absorbs (awrap msg (readSelP se) (n, m)) bs (Ret (Inr sel, (n, m')))"
  unfolding readSelP_def
  by (rule absorbs_awrap, simp add: act_simps, rule absorbs_last, rule absorbs_ard [OF assms]) (simp add: act_simps)

lemma readPhaseNdxP_done: "absorbs (readPhaseNdxP se s) (doneBytes (sversion se)) (Ret (Inr (), s))"
proof (cases "29 \<le> sversion se")
  case True
  obtain n m where s: "s = (n, m)" by (cases s)
  show ?thesis
    unfolding readPhaseNdxP_def if_P [OF True] s
    by (rule absorbs_last, rule readSelP_reads, rule reads_done) (simp add: act_simps)
next
  case False
  then have d: "doneBytes (sversion se) = WriteInt32 NDxDone" by (simp add: doneBytes_def)
  show ?thesis
    unfolding readPhaseNdxP_def if_not_P [OF False] d
    by (rule absorbs_last, rule absorbs_ard, rule reads_wrapping, rule reads_ints(1)) (simp add: act_simps)
qed

lemma waits_ard: "\<exists>g. abnd (ard m) f s = Rd g"
  by (simp add: abnd_def atry_def ard_def)

lemma waits_readSel: "\<exists>g. abnd (awrap msg (readSelP se)) f s = Rd g"
  by (simp add: abnd_def atry_def awrap_def readSelP_def aget_def ard_def case_prod_beta)

lemma waits_phase: "\<exists>g. abnd (readPhaseNdxP se) f s = Rd g"
  by (simp add: readPhaseNdxP_def waits_readSel waits_ard abnd_assoc)

lemma waits_loop: "\<exists>g. sendLoopP (Suc n) fsRead st vars s = Rd g"
  by (cases vars) (simp add: sendStepP_def act_simps abnd_assoc waits_ard)

lemma waits_thenP: "\<exists>g. p = Rd g \<Longrightarrow> \<exists>g. thenP p k = Rd g"
  by auto

lemma speaks_waits: "emits p bs q \<Longrightarrow> \<exists>g. q = Rd g \<Longrightarrow> speaks p bs q"
  by (simp add: speaks_def)

lemma sendLoopP_done:
  "absorbs (sendLoopP (Suc f) fsRead st (n, m, phase) ()) (doneBytes (ver st))
    (if maxPhase (ver st) < phase + 1 then Ret (Inr m, ())
     else abnd (echoNdxP (ver st) m NDxDone) (\<lambda>m'. sendLoopP f fsRead st (n, m', phase + 1)) ())"
  by (simp add: sendStepP_def abnd_assoc, intro conjI impI; rule absorbs_last, rule absorbs_ard, rule reads_wrapping, rule reads_done)
     (simp_all add: act_simps abnd_assoc)

lemma phases_meet:
  assumes l: "l = Plain \<or> l = Framed" and v: "sversion se = ver st"
  shows "phase + k \<le> maxPhase (ver st) \<Longrightarrow>
    meet l (phaseLoopP k se s) (sendLoopP (k + Suc f) fsRead st (n, m, phase) ())
      (Ret (Inr (), s)) (sendLoopP (Suc f) fsRead st (n, m, phase + k) ())"
proof (induction k arbitrary: phase)
  case 0
  then show ?case by (simp add: act_simps meet_refl)
next
  case (Suc k)
  have "meet l (phaseLoopP (Suc k) se s) (sendLoopP (Suc k + Suc f) fsRead st (n, m, phase) ())
      (phaseLoopP k se s) (sendLoopP (k + Suc f) fsRead st (n, m, phase + 1) ())"
  proof (rule meet_turn [OF l])
    show "speaks (phaseLoopP (Suc k) se s) (doneBytes (ver st)) (abnd (readPhaseNdxP se) (\<lambda>_. phaseLoopP k se) s)"
      unfolding phaseLoopP.simps v [symmetric]
      by (rule speaks_waits [OF emits_last [OF writePhaseNdxP_done] waits_phase]) (rule refl)
    show "absorbs (sendLoopP (Suc k + Suc f) fsRead st (n, m, phase) ()) (doneBytes (ver st))
        (abnd (echoNdxP (ver st) m NDxDone) (\<lambda>m'. sendLoopP (k + Suc f) fsRead st (n, m', phase + 1)) ())"
      using sendLoopP_done [of "k + Suc f" fsRead st n m phase] Suc.prems by simp
    show "speaks (abnd (echoNdxP (ver st) m NDxDone) (\<lambda>m'. sendLoopP (k + Suc f) fsRead st (n, m', phase + 1)) ())
        (doneBytes (ver st)) (sendLoopP (k + Suc f) fsRead st (n, m, phase + 1) ())"
      by (rule speaks_waits, rule emits_last, rule echoNdxP_done, rule refl) (use waits_loop [of "k + f"] in simp)
    show "absorbs (abnd (readPhaseNdxP se) (\<lambda>_. phaseLoopP k se) s) (doneBytes (ver st)) (phaseLoopP k se s)"
      unfolding v [symmetric] by (rule absorbs_last, rule readPhaseNdxP_done, rule refl)
  qed
  from meet_trans [OF this Suc.IH] Suc.prems show ?case by simp
qed

section \<open>A file\<close>

lemma writeSelP_ok:
  assumes "sel_ok (sversion se) sel" "WriteSelector (sversion se) n sel = (r, n', bs)"
  shows "emits (awrap msg (writeSelP se sel) (n, m)) bs (Ret (Inr (), (n', m)))"
proof -
  have "r = Inr ()" using ReadSelector_WriteSelector [OF assms] by simp
  then show ?thesis
    using emits_Wr [OF emits_refl, of bs "Ret (Inr (), (n', m))"] assms(2)
    by (intro emits_awrap) (simp add: writeSelP_def act_simps)
qed

lemma asks_file:
  assumes "0 \<le> sint i" and req: "WriteSelector (sversion se) n (transferSel i) = (r, n', request)"
  shows "speaks (openFileP se i (n, m)) (request @ WriteSumHead nullSumHead (sversion se))
    (abnd (awrap ''read echoed selector'' (readSelP se)) (\<lambda>_.
      abnd (ard (wrapping ''read sum head'' (ReadSumHead (sversion se)))) (\<lambda>sh.
      abnd (ard (pullLoop NewDeltaReader [])) (\<lambda>data.
      abnd (ard (wrapping ''read file checksum'' (readFull (if sint (S2Length sh) \<le> 0 then 16 else unat (S2Length sh))))) (\<lambda>want.
        if \<not> equalBytes (FileChecksum (shashes se) data (schecksum se) (sversion se) (sseed se)) want
        then afail (Errorf ''checksum mismatch'') else aret data)))) (n', m))"
  unfolding openFileP_def transferSel_def [symmetric]
  by (rule speaks_waits, rule emits_bnd, rule writeSelP_ok [OF transferSel_ok [OF assms(1)] req], rule emits_last, unfold awr_def)
     (rule emits_Wr [OF emits_refl, of "WriteSumHead nullSumHead (sversion se)", simplified], rule refl, rule waits_readSel)

lemma hears_file:
  assumes h: "hashes_ok (shashes se)" "schecksum se \<in> set SupportedDigests" and i: "0 \<le> sint i"
    and echo: "WriteSelector (sversion se) m (sel_view (sversion se) (transferSel i)) = (r, m', echo)"
  shows "absorbs
    (abnd (awrap ''read echoed selector'' (readSelP se)) (\<lambda>_.
      abnd (ard (wrapping ''read sum head'' (ReadSumHead (sversion se)))) (\<lambda>sh.
      abnd (ard (pullLoop NewDeltaReader [])) (\<lambda>data.
      abnd (ard (wrapping ''read file checksum'' (readFull (if sint (S2Length sh) \<le> 0 then 16 else unat (S2Length sh))))) (\<lambda>want.
        if \<not> equalBytes (FileChecksum (shashes se) data (schecksum se) (sversion se) (sseed se)) want
        then afail (Errorf ''checksum mismatch'') else aret data)))) (n', m))
    (fileReply se echo data) (Ret (Inr data, (n', m')))"
proof -
  let ?sum = "FileChecksum (shashes se) data (schecksum se) (sversion se) (sseed se)"
  have sum: "reads (wrapping msg (readFull 16)) ?sum ?sum" for msg
    by (rule reads_wrapping, rule reads_readFull) (simp add: FileChecksum_length [OF h])
  have n16: "(if sint (S2Length nullSumHead) \<le> 0 then 16 else unat (S2Length nullSumHead)) = 16"
    by (simp add: nullSumHead_def)
  show ?thesis
    unfolding fileReply_def
    by (rule absorbs_bnd, rule readSelP_reads [OF reads_ReadSelector [OF echoSel_flags(3) [OF i] echo]],
        rule absorbs_read, rule reads_wrapping [OF reads_nullHead], rule absorbs_read, rule reads_pullLoop,
        unfold n16, rule absorbs_last, rule absorbs_ard, rule sum) (simp add: equalBytes_def act_simps)
qed

text \<open>The daemon's answer: the echoed selector, the sums' head, the tokens, the checksum, a flush.\<close>

abbreviation answerP :: "transfer_state \<Rightarrow> selector \<Rightarrow> ndx_state \<Rightarrow> byte list \<Rightarrow> ndx_state sact" where
  "answerP st sel m bs \<equiv> abnd (echoSelectorP (ver st) m sel) (\<lambda>m'. abnd (awr (WriteSumHead nullSumHead (ver st))) (\<lambda>_.
     abnd (awr bs) (\<lambda>_. abnd aflush (\<lambda>_. aret m'))))"

lemma hears_request:
  assumes f: "fits st se" and i: "i < length (entries st)" "length (entries st) < 2 ^ 31"
    and reg: "modeIsRegular (fmode (entries st ! i))" "fsRead (fname (entries st ! i)) = Inr data"
    and req: "WriteSelector (ver st) n (transferSel (word_of_nat i)) = (r, n', request)"
  shows "absorbs (sendLoopP (Suc fuel) fsRead st (n, m, 0) ()) (request @ WriteSumHead nullSumHead (ver st))
    (abnd (answerP st (sel_view (ver st) (transferSel (word_of_nat i))) m
        ((WriteLiteral data @ WriteEnd) @ FileChecksum (shashes se) data (schecksum se) (sversion se) (sseed se)))
      (\<lambda>m'. sendLoopP fuel fsRead st (n', m', 0)) ())"
proof -
  let ?i = "word_of_nat i :: i32"
  have si: "sint ?i = int i" "unat ?i = i"
    using i by (simp_all add: sint_word_of_nat unat_of_nat take_bit_nat_eq_self)
  then have nn: "0 \<le> sint ?i" by simp
  note ef = echoSel_flags [OF nn, of "ver st"]
  have ne: "?i \<noteq> NDxDone" "?i \<noteq> NDXFlistEOF" "?i \<noteq> ndxDelStats" using nn by (auto simp: ndxDelStats_def)
  have nl: "\<not> int (length (entries st)) \<le> sint ?i" using si i by simp
  have sums: "absorbs (abnd (abnd (sendFileP fsRead st (entries st ! i) (sel_view (ver st) (transferSel ?i)) m)
         (\<lambda>m'. aret (Some (n', m', 0), m'))) (\<lambda>(vars', outNdx). case vars' of None \<Rightarrow> aret outNdx | Some vars'' \<Rightarrow> sendLoopP fuel fsRead st vars'') ())
      (WriteSumHead nullSumHead (ver st))
    (abnd (answerP st (sel_view (ver st) (transferSel ?i)) m
        ((WriteLiteral data @ WriteEnd) @ FileChecksum (shashes se) data (schecksum se) (sversion se) (sseed se)))
      (\<lambda>m'. sendLoopP fuel fsRead st (n', m', 0)) ())"
    unfolding sendFileP_def abnd_assoc
    by (rule absorbs_last, rule absorbs_ard, rule reads_nullSums) (simp add: reg act_simps matchSums_null [OF f] abnd_assoc)
  show ?thesis
    unfolding sendLoopP.simps sendStepP_def prod.case
    by (subst abnd_assoc, rule absorbs_read, rule reads_wrapping, rule reads_ReadSelector [OF transferSel_ok [OF nn] req])
       (use sums in \<open>simp add: ef(1,2,4) ne nl nn si i(1) Let_def not_less [symmetric]\<close>)
qed

lemma answers_file:
  assumes "fits st se" and echo: "sel_ok (ver st) sel" "WriteSelector (ver st) m sel = (r, m', echo)"
  shows "speaks (abnd (answerP st sel m
        ((WriteLiteral data @ WriteEnd) @ FileChecksum (shashes se) data (schecksum se) (sversion se) (sseed se))) g ())
      (fileReply se echo data) (g m' ())"
proof -
  have v: "ver st = sversion se" using assms by (simp add: fits_def)
  have r: "r = Inr ()" using ReadSelector_WriteSelector [OF echo] by simp
  have "emits (Wr echo (Wr a (Wr b (Fl q)))) (echo @ a @ b @ []) (Fl q)" for a b and q :: "'r prog"
    by (intro emits.intros)
  then show ?thesis
    unfolding echoSelectorP_def echo(2) r Let_def prod.case sum.case
    unfolding abnd_assoc act_simps fileReply_def v by (intro speaksI(1)) simp
qed

lemma pull_meet:
  assumes l: "l = Plain \<or> l = Framed" and f: "fits st se" and i: "i < length (entries st)" "length (entries st) < 2 ^ 31"
    and h: "hashes_ok (shashes se)" "schecksum se \<in> set SupportedDigests"
    and reg: "modeIsRegular (fmode (entries st ! i))" "fsRead (fname (entries st ! i)) = Inr data"
  shows "\<exists>n' m'. meet l (openFileP se (word_of_nat i) (n, m)) (sendLoopP (Suc fuel) fsRead st (n, m, 0) ())
    (Ret (Inr data, (n', m'))) (sendLoopP fuel fsRead st (n', m', 0) ())"
proof -
  let ?i = "word_of_nat i :: i32"
  have v: "sversion se = ver st" using f by (simp add: fits_def)
  have nn: "0 \<le> sint ?i" using i by (simp add: sint_word_of_nat take_bit_nat_eq_self)
  obtain r1 n' request where req: "WriteSelector (ver st) n (transferSel ?i) = (r1, n', request)" by (metis prod_cases3)
  obtain r2 m' echo where echo: "WriteSelector (ver st) m (sel_view (ver st) (transferSel ?i)) = (r2, m', echo)" by (metis prod_cases3)
  have "meet l (openFileP se ?i (n, m)) (sendLoopP (Suc fuel) fsRead st (n, m, 0) ())
    (Ret (Inr data, (n', m'))) (sendLoopP fuel fsRead st (n', m', 0) ())"
    by (rule meet_turn [OF l], rule asks_file [OF nn req [folded v]], unfold v,
        rule hears_request [where fsRead = fsRead, OF f i reg req], rule answers_file [OF f echoSel_flags(3) [OF nn] echo],
        rule hears_file [OF h nn echo [folded v], unfolded v])
  then show ?thesis by blast
qed

section \<open>The end of a session\<close>

lemma phaseLoopP_add: "phaseLoopP (j + k) se = abnd (phaseLoopP j se) (\<lambda>_. phaseLoopP k se)"
  by (induction j) (simp_all add: act_steps abnd_assoc)

abbreviation afterFilesP :: "transfer_state \<Rightarrow> unit sact" where
  "afterFilesP st \<equiv> abnd aflush (\<lambda>_. abnd (sendStatsP st) (\<lambda>_. abnd (readFinalGoodbyeP (ver st)) (\<lambda>_. aflush)))"

text \<open>The last phase: the daemon ends its loop, and sends what is left and the statistics.\<close>

lemma last_phase_meet:
  assumes l: "l = Plain \<or> l = Framed" and v: "sversion se = ver st" and p: "phase = maxPhase (ver st)"
  shows "meet l (abnd (phaseLoopP 1 se) (\<lambda>_. abnd (ard (readStats se)) (\<lambda>_. g)) s)
     (abnd (abnd (sendLoopP (Suc f) fsRead st (n, m, phase)) (\<lambda>outNdx. abnd (echoNdxP (ver st) outNdx NDxDone) (\<lambda>_. aret ())))
       (\<lambda>_. afterFilesP st) ())
     (g s) (abnd (readFinalGoodbyeP (ver st)) (\<lambda>_. aflush) ())"
proof (rule meet_turn [OF l])
  let ?d = "doneBytes (ver st)"
  let ?c = "abnd (readPhaseNdxP se) (\<lambda>_. abnd (ard (readStats se)) (\<lambda>_. g)) s"
  show "speaks (abnd (phaseLoopP 1 se) (\<lambda>_. abnd (ard (readStats se)) (\<lambda>_. g)) s) ?d ?c"
    unfolding One_nat_def phaseLoopP.simps v [symmetric] abnd_assoc act_simps
    by (rule speaks_waits, rule emits_last, rule writePhaseNdxP_done, rule refl, rule waits_phase)
  have a: "absorbs (sendLoopP (Suc f) fsRead st (n, m, phase) ()) ?d (Ret (Inr m, ()))"
    using sendLoopP_done [of f fsRead st n m phase] p by simp
  show "absorbs (abnd (abnd (sendLoopP (Suc f) fsRead st (n, m, phase)) (\<lambda>outNdx. abnd (echoNdxP (ver st) outNdx NDxDone) (\<lambda>_. aret ())))
      (\<lambda>_. afterFilesP st) ()) ?d (abnd (echoNdxP (ver st) m NDxDone) (\<lambda>_. afterFilesP st) ())"
    unfolding abnd_assoc act_simps by (rule absorbs_last, rule a, rule refl)
  have "emits (Fl (Wr (statBytes st) (Fl q))) (statBytes st @ []) (Fl q)" for q :: "'r prog"
    by (intro emits.intros)
  note sends = this
  show "speaks (abnd (echoNdxP (ver st) m NDxDone) (\<lambda>_. afterFilesP st) ()) (?d @ statBytes st)
      (abnd (readFinalGoodbyeP (ver st)) (\<lambda>_. aflush) ())"
    by (rule speaksI(1), rule emits_bnd, rule echoNdxP_done)
       (use sends in \<open>simp only: act_steps sendStatsP_def abnd_assoc statBytes_def append_Nil2\<close>)
  show "absorbs ?c (?d @ statBytes st) (g s)"
    unfolding v [symmetric]
    by (rule absorbs_bnd, rule readPhaseNdxP_done, rule absorbs_last, rule absorbs_ard, rule reads_readStats [OF v]) (rule refl)
qed

lemma firstGoodbyeP_done: "absorbs (firstGoodbyeP v s) (doneBytes v) (Ret (Inr (NDxDone, NewNdxState), s))"
proof (cases "v < 29")
  case True
  have "reads (readNdxVer v NewNdxState) (doneBytes v) (NDxDone, NewNdxState)"
    using True by (auto simp: readNdxVer_def doneBytes_def reads_ret intro: reads_bnd_last [OF reads_ints(1)])
  note first = this
  show ?thesis
    unfolding firstGoodbyeP_def if_P [OF True] by (rule absorbs_try, rule absorbs_ard, rule first) (simp add: act_ends)
next
  case False
  show ?thesis
    unfolding firstGoodbyeP_def if_not_P [OF False]
    by (rule absorbs_last, rule absorbs_ard, rule reads_wrapping, rule reads_done) (simp add: act_simps)
qed

lemma emits_then: "emits p bs (Ret r) \<Longrightarrow> k r = q \<Longrightarrow> emits (thenP p k) bs q"
  by (drule emits_thenP [where k = k]) simp

lemma goodbye_meet:
  assumes l: "l = Plain \<or> l = Framed" and v: "sversion se = v" and k: "k (Inr (), s) = Fl (Ret x)"
  shows "meet l (thenP (finalGoodbyeP se s) k) (abnd (readFinalGoodbyeP v) (\<lambda>_. aflush) ()) (Ret x) (Ret (Inr (), ()))"
proof -
  let ?d = "doneBytes v" and ?fin = "aflush () :: ((go_error + unit) \<times> unit) prog"
  have bye: "meet l (Ret x) ?fin (Ret x) (Ret (Inr (), ()))"
    unfolding aflush_def by (rule meet_answer [OF speaksI(1) [OF emits_refl] absorbs_refl])
  have last: "speaks (thenP (writePhaseNdxP se s) k) ?d (Ret x)"
    unfolding v [symmetric] by (rule speaksI(1), rule emits_then, rule writePhaseNdxP_done, rule k)
  show ?thesis
  proof (cases "31 \<le> v")
    case False
    have "speaks (thenP (finalGoodbyeP se s) k) ?d (Ret x)"
    proof (cases "v < 29")
      case True
      then have "finalGoodbyeP se = awr ?d" using v by (simp add: finalGoodbyeP_def doneBytes_def)
      then show ?thesis using emits_Wr [OF emits_refl, of ?d "Fl (Ret x)"] k by (intro speaksI(1)) (simp add: awr_def)
    next
      case f: False
      then have "finalGoodbyeP se = writePhaseNdxP se" using False v by (simp add: finalGoodbyeP_def abnd_aret)
      then show ?thesis using last by simp
    qed
    moreover have "absorbs (abnd (readFinalGoodbyeP v) (\<lambda>_. aflush) ()) ?d ?fin"
      unfolding readFinalGoodbyeP_def abnd_assoc
      by (rule absorbs_last, rule firstGoodbyeP_done) (use False in \<open>simp add: act_steps\<close>)
    ultimately show ?thesis using meet_trans [OF meet_ask [OF l] bye] by blast
  next
    case True
    let ?r = "\<lambda>r. case r of
              Inl err \<Rightarrow> if errors_Is err EOF then aret () else afail (Wrap ''read final goodbye (second)'' err)
            | Inr (sel, _ :: ndx_state) \<Rightarrow> if Ndx sel \<noteq> NDxDone then afail (Errorf ''invalid packet at end of run'') else aret ()"
    let ?again = "abnd (atry (ard (ReadSelector v NewNdxState)) ?r) (\<lambda>_. aflush) () :: ((go_error + unit) \<times> unit) prog"
    have "meet l (thenP (finalGoodbyeP se s) k) (abnd (readFinalGoodbyeP v) (\<lambda>_. aflush) ()) (thenP (writePhaseNdxP se s) k) ?again"
    proof (rule meet_turn [OF l])
      show "speaks (thenP (finalGoodbyeP se s) k) ?d (thenP (abnd (readPhaseNdxP se) (\<lambda>_. writePhaseNdxP se) s) k)"
      proof (rule speaks_thenP)
        show "speaks (finalGoodbyeP se s) ?d (abnd (readPhaseNdxP se) (\<lambda>_. writePhaseNdxP se) s)"
          using True v unfolding finalGoodbyeP_def v [symmetric]
          by (simp, intro speaks_waits waits_phase, intro emits_last [OF writePhaseNdxP_done]) (rule refl)
      qed
      show "absorbs (abnd (readFinalGoodbyeP v) (\<lambda>_. aflush) ()) ?d
          (abnd (echoNdxP v NewNdxState NDxDone) (\<lambda>_. abnd (atry (ard (ReadSelector v NewNdxState)) ?r) (\<lambda>_. aflush)) ())"
        unfolding readFinalGoodbyeP_def abnd_assoc
        by (rule absorbs_last, rule firstGoodbyeP_done) (use True in \<open>simp add: act_steps abnd_assoc\<close>)
      show "speaks (abnd (echoNdxP v NewNdxState NDxDone) (\<lambda>_. abnd (atry (ard (ReadSelector v NewNdxState)) ?r) (\<lambda>_. aflush)) ()) ?d ?again"
        by (rule speaks_waits, rule emits_last, rule echoNdxP_done, rule refl) (simp add: abnd_def atry_def ard_def)
      show "absorbs (thenP (abnd (readPhaseNdxP se) (\<lambda>_. writePhaseNdxP se) s) k) ?d (thenP (writePhaseNdxP se s) k)"
        unfolding v [symmetric] by (rule absorbs_thenP, rule absorbs_last, rule readPhaseNdxP_done, rule refl)
    qed
    moreover have "absorbs ?again ?d ?fin"
      by (rule absorbs_last, rule absorbs_try, rule absorbs_ard, rule reads_done) (simp_all add: act_ends)
    ultimately show ?thesis using meet_trans meet_trans [OF meet_ask [OF l last] bye] by blast
  qed
qed

lemma meet_bnd:
  "meet l (m s) (d t) (Ret (Inr x, s')) q \<Longrightarrow> meet l (f x s') (thenP q h) p'' q'' \<Longrightarrow>
   meet l (abnd m f s) (thenP (d t) h) p'' q''"
  unfolding abnd_def atry_def
  by (drule meet_thenP [where h = h and k = "\<lambda>(r, s'). (case r of Inl e \<Rightarrow> afail e | Inr x \<Rightarrow> f x) s'"]) (simp add: meet_trans)

text \<open>The daemon once it has sent the file list, with its loop as far as it has got.\<close>

abbreviation servingP :: "nat \<Rightarrow> (gostring \<Rightarrow> go_error + byte list) \<Rightarrow> transfer_state \<Rightarrow> ndx_state \<times> ndx_state \<times> nat \<Rightarrow> unit sact" where
  "servingP fuel fsRead st vars \<equiv>
    abnd (abnd (sendLoopP fuel fsRead st vars) (\<lambda>outNdx. abnd (echoNdxP (ver st) outNdx NDxDone) (\<lambda>_. aret ())))
      (\<lambda>_. afterFilesP st)"

definition servingK :: "transfer_state \<Rightarrow> (go_error + ndx_state) \<times> unit \<Rightarrow> ((go_error + unit) \<times> unit) prog" where
  "servingK st = (\<lambda>(r, s). case r of Inl e \<Rightarrow> afail e s | Inr m \<Rightarrow> abnd (abnd (echoNdxP (ver st) m NDxDone) (\<lambda>_. aret ())) (\<lambda>_. afterFilesP st) s)"

lemma servingP_thenP: "servingP fuel fsRead st vars () = thenP (sendLoopP fuel fsRead st vars ()) (servingK st)"
  unfolding abnd_assoc [of "sendLoopP fuel fsRead st vars"]
  by (subst abnd_def) (auto simp: atry_def servingK_def fun_eq_iff intro!: arg_cong [of _ _ "thenP (sendLoopP fuel fsRead st vars ())"] split: sum.splits)

lemma finish_meet:
  assumes l: "l = Plain \<or> l = Framed" and v: "sversion se = ver st" and k: "k (Inr (), s) = Fl (Ret x)"
    and fuel: "maxPhase (ver st) < fuel"
  shows "meet l (thenP (finishSessionP se s) k) (servingP fuel fsRead st (n, m, 0) ()) (Ret x) (Ret (Inr (), ()))"
proof -
  let ?K = "maxPhase (ver st)"
  let ?tail = "\<lambda>_ :: unit. abnd (phaseLoopP 1 se) (\<lambda>_. abnd (ard (readStats se)) (\<lambda>_. finalGoodbyeP se))"
  obtain f where f: "fuel = ?K + Suc f" using fuel less_natE by auto
  have "finishSessionP se = abnd (phaseLoopP ?K se) ?tail"
    unfolding finishSessionP_def v phaseLoopP_add abnd_assoc by (rule refl)
  moreover have "meet l (abnd (phaseLoopP ?K se) ?tail s) (servingP fuel fsRead st (n, m, 0) ())
      (finalGoodbyeP se s) (abnd (readFinalGoodbyeP (ver st)) (\<lambda>_. aflush) ())"
    unfolding servingP_thenP f
    by (rule meet_bnd, rule phases_meet [OF l v, where phase = 0], simp, unfold servingP_thenP [symmetric] add_0)
       (rule last_phase_meet [OF l v refl])
  ultimately show ?thesis using meet_trans [OF meet_client goodbye_meet [where k = k, OF l v k]] by simp
qed

section \<open>A transfer\<close>

lemma doServerSenderP_answers:
  assumes es: "es \<noteq> []"
  shows "absorbs (doServerSenderP fuel fsRead (Inr es) st ()) (WriteInt32 0)
      (Wr (flistBytes (st\<lparr>entries := es\<rparr>)) (Fl (servingP fuel fsRead (st\<lparr>entries := es\<rparr>) (NewNdxState, NewNdxState, 0) ())))"
proof -
  let ?st = "st\<lparr>entries := es\<rparr>"
  obtain fw bs where e: "enc_all WriteEntry (flistWriterOf ?st) (map toWire (entries ?st)) = (fw, bs)" by (rule prod.exhaust)
  have fb: "flistBytes ?st = bs @ WriteEndMarker fw @ WriteIDLists fw @ WriteIOErrorTrailer fw 0"
    by (simp add: flistBytes_def sendFileList_def wr_def e [simplified])
  show ?thesis
    unfolding doServerSenderP_def sendFilesP_def
    by (rule absorbs_last, rule absorbs_ard, rule reads_recvFilterList)
       (simp add: es Let_def sendFileListP_def e [simplified] abnd_assoc act_steps fb)
qed

text \<open>An operation on the list that ends with the daemon back in its loop: the whole transfer ends.\<close>

lemma transfer_meet:
  assumes l: "l = Plain \<or> l = Framed" and s: "served st se es"
    and op: "meet l ((case findFlistEntry (arrived (st\<lparr>entries := es\<rparr>)) name of
             Some e \<Rightarrow> fn \<lparr>ctxEntries = arrived (st\<lparr>entries := es\<rparr>), ctxEntry = e,
                          ctxNdx = (case sortFlistEntries (arrived (st\<lparr>entries := es\<rparr>)) (sversion se) (Name e) of Some i \<Rightarrow> i | None \<Rightarrow> 0), ctxName = name\<rparr>
           | None \<Rightarrow> afail (Errorf ''file does not exist'')) (NewNdxState, NewNdxState))
        (sendLoopP fuel fsRead (st\<lparr>entries := es\<rparr>) (NewNdxState, NewNdxState, 0) ())
        (Ret (r, nm)) (sendLoopP fuel' fsRead (st\<lparr>entries := es\<rparr>) (n', m', 0) ())"
    and fuel: "maxPhase (ver st) < fuel'"
  shows "meet l (Wr (WriteInt32 0) (consumeP (withEntryP se name fn) (NewNdxState, NewNdxState)))
     (doServerSenderP fuel fsRead (Inr es) st ()) (Ret (r, nm)) (Ret (Inr (), ()))"
proof -
  let ?st = "st\<lparr>entries := es\<rparr>"
  define F where "F = (\<lambda>es'. let ndxByName = sortFlistEntries es' (sversion se)
      in atry (case findFlistEntry es' name of
             Some e \<Rightarrow> fn \<lparr>ctxEntries = es', ctxEntry = e,
                          ctxNdx = (case ndxByName (Name e) of Some i \<Rightarrow> i | None \<Rightarrow> 0), ctxName = name\<rparr>
           | None \<Rightarrow> afail (Errorf ''file does not exist'')) (\<lambda>res.
         atry (finishSessionP se) (\<lambda>fin.
           case (res, fin) of
             (Inl err, _) \<Rightarrow> afail err
           | (Inr f, Inl ferr) \<Rightarrow> afail (Wrap ''finish session'' ferr)
           | (Inr f, Inr _) \<Rightarrow> aret f)))"
  define C where "C = (\<lambda>(r :: go_error + 'a, s'). (abnd aflush (\<lambda>_. case r of Inl err \<Rightarrow> afail err | Inr x \<Rightarrow> aret x)) s' ::
     ((go_error + 'a) \<times> ndx_state \<times> ndx_state) prog)"
  have c: "consumeP (withEntryP se name fn) s0 = thenP (abnd (ard (wrapping ''read file list'' (readFileList se))) F s0) C" for s0
    by (simp add: consumeP_def withEntryP_def F_def C_def atry_def)
  have "meet l (Wr (WriteInt32 0) (consumeP (withEntryP se name fn) (NewNdxState, NewNdxState)))
     (doServerSenderP fuel fsRead (Inr es) st ()) (thenP (F (arrived ?st) (NewNdxState, NewNdxState)) C)
     (servingP fuel fsRead ?st (NewNdxState, NewNdxState, 0) ())"
    unfolding c
  proof (rule meet_turn [OF l _ doServerSenderP_answers [OF servedD(3) [OF s]]])
    show "speaks (Wr (WriteInt32 0) (thenP (abnd (ard (wrapping ''read file list'' (readFileList se))) F (NewNdxState, NewNdxState)) C))
        (WriteInt32 0) (thenP (abnd (ard (wrapping ''read file list'' (readFileList se))) F (NewNdxState, NewNdxState)) C)"
      using emits_Wr [OF emits_refl, of "WriteInt32 0"] by (intro speaks_waits waits_thenP waits_ard) simp
    show "speaks (Wr (flistBytes ?st) (Fl (servingP fuel fsRead ?st (NewNdxState, NewNdxState, 0) ()))) (flistBytes ?st)
       (servingP fuel fsRead ?st (NewNdxState, NewNdxState, 0) ())"
      using emits_Wr [OF emits_refl, of "flistBytes ?st"] by (intro speaksI(1)) simp
    show "absorbs (thenP (abnd (ard (wrapping ''read file list'' (readFileList se))) F (NewNdxState, NewNdxState)) C) (flistBytes ?st)
        (thenP (F (arrived ?st) (NewNdxState, NewNdxState)) C)"
      by (rule absorbs_thenP, rule absorbs_last, rule absorbs_ard, rule reads_wrapping, rule reads_readFileList [OF servedD(1,6) [OF s]])
         (rule refl)
  qed
  moreover have "meet l (thenP (F (arrived ?st) (NewNdxState, NewNdxState)) C) (servingP fuel fsRead ?st (NewNdxState, NewNdxState, 0) ())
     (Ret (r, nm)) (Ret (Inr (), ()))"
  proof -
    let ?G = "case findFlistEntry (arrived ?st) name of
             Some e \<Rightarrow> fn \<lparr>ctxEntries = arrived ?st, ctxEntry = e,
                          ctxNdx = (case sortFlistEntries (arrived ?st) (sversion se) (Name e) of Some i \<Rightarrow> i | None \<Rightarrow> 0), ctxName = name\<rparr>
           | None \<Rightarrow> afail (Errorf ''file does not exist'')"
    let ?E = "\<lambda>res fin. case (res, fin) of (Inl err, _) \<Rightarrow> afail err
           | (Inr f, Inl ferr) \<Rightarrow> afail (Wrap ''finish session'' ferr) | (Inr f, Inr _) \<Rightarrow> aret f"
    let ?k = "\<lambda>(r, s'). thenP (finishSessionP se s') (\<lambda>(fin, s''). thenP (?E r fin s'') C)"
    have F: "thenP (F (arrived ?st) s0) C = thenP (?G s0) ?k" for s0
      unfolding F_def Let_def atry_def thenP_assoc by (auto simp: case_prod_beta fun_eq_iff thenP_assoc intro!: arg_cong [of _ _ "thenP _"])
    have "(\<lambda>(fin, s''). thenP (?E r fin s'') C) (Inr (), nm) = Fl (Ret (r, nm))"
      by (cases r) (simp_all add: act_simps C_def)
    then have "meet l (?k (r, nm)) (servingP fuel' fsRead ?st (n', m', 0) ()) (Ret (r, nm)) (Ret (Inr (), ()))"
      unfolding prod.case by (intro finish_meet [OF l]) (use servedD(4) [OF s] fuel in simp_all)
    from meet_trans [OF meet_thenP [OF op, where k = ?k and h = "servingK ?st", folded servingP_thenP, unfolded thenP.simps] this]
    show ?thesis unfolding F .
  qed
  ultimately show ?thesis by (rule meet_trans)
qed

text \<open>Operations that only look at the list, on a name that is there and on one that is not.\<close>

abbreviation listProg :: "'a cact \<Rightarrow> ((go_error + 'a) \<times> ndx_state \<times> ndx_state) prog" where
  "listProg op \<equiv> Wr (WriteInt32 0) (op (NewNdxState, NewNdxState))"

lemma idle_meet:
  assumes l: "l = Plain \<or> l = Framed" and s: "served st se es" and i: "i < length es"
    and op: "\<And>s. fn \<lparr>ctxEntries = map (clientView (ver st)) es, ctxEntry = clientView (ver st) (es ! i),
        ctxNdx = word_of_nat i, ctxName = fname (es ! i)\<rparr> s = Ret (res, s)"
    and fuel: "maxPhase (ver st) < fuel"
  shows "meet l (listProg (consumeP (withEntryP se (fname (es ! i)) fn))) (doServerSenderP fuel fsRead (Inr es) st ())
    (Ret (res, (NewNdxState, NewNdxState))) (Ret (Inr (), ()))"
  by (rule transfer_meet [where n' = NewNdxState and m' = NewNdxState, OF l s _ fuel])
     (use client_index [OF servedD(2) [OF s] i] op servedD(4,7) [OF s] in \<open>simp add: meet_refl\<close>)

lemma missing_meet:
  assumes l: "l = Plain \<or> l = Framed" and s: "served st se es" and "name \<notin> fname ` set es"
    and fuel: "maxPhase (ver st) < fuel"
  shows "meet l (listProg (consumeP (withEntryP se name fn))) (doServerSenderP fuel fsRead (Inr es) st ())
    (Ret (Inl (Errorf ''file does not exist''), (NewNdxState, NewNdxState))) (Ret (Inr (), ()))"
proof (rule transfer_meet [OF l s _ fuel])
  have "findFlistEntry (arrived (st\<lparr>entries := es\<rparr>)) name = None"
    using assms servedD(7) [OF s] by (auto simp: findFlistEntry_def find_None_iff)
  then show "meet l ((case findFlistEntry (arrived (st\<lparr>entries := es\<rparr>)) name of
             Some e \<Rightarrow> fn \<lparr>ctxEntries = arrived (st\<lparr>entries := es\<rparr>), ctxEntry = e,
                          ctxNdx = (case sortFlistEntries (arrived (st\<lparr>entries := es\<rparr>)) (sversion se) (Name e) of Some i \<Rightarrow> i | None \<Rightarrow> 0), ctxName = name\<rparr>
           | None \<Rightarrow> afail (Errorf ''file does not exist'')) (NewNdxState, NewNdxState))
        (sendLoopP fuel fsRead (st\<lparr>entries := es\<rparr>) (NewNdxState, NewNdxState, 0) ())
        (Ret (Inl (Errorf ''file does not exist''), (NewNdxState, NewNdxState)))
        (sendLoopP fuel fsRead (st\<lparr>entries := es\<rparr>) (NewNdxState, NewNdxState, 0) ())"
    by (simp add: act_ends meet_refl)
qed

text \<open>Pulling a regular file.\<close>

lemma open_meet:
  assumes l: "l = Plain \<or> l = Framed" and s: "served st se es" and i: "i < length es"
    and h: "hashes_ok (shashes se)" "schecksum se \<in> set SupportedDigests"
    and reg: "modeIsRegular (fmode (es ! i))" "fsRead (fname (es ! i)) = Inr data"
    and fuel: "maxPhase (ver st) + 1 < fuel"
  shows "\<exists>nm. meet l (listProg (consumeP (withEntryP se (fname (es ! i)) (openFileFromContextP se)))) (doServerSenderP fuel fsRead (Inr es) st ())
    (Ret (Inr (RegularFile (flistInfo (baseName (fname (es ! i))) (clientView (ver st) (es ! i))) data), nm)) (Ret (Inr (), ()))"
proof -
  let ?st = "st\<lparr>entries := es\<rparr>" and ?new = "(NewNdxState, NewNdxState)"
  let ?f = "RegularFile (flistInfo (baseName (fname (es ! i))) (clientView (ver st) (es ! i))) data"
  obtain f where f: "fuel = Suc f" "maxPhase (ver st) < f" using fuel by (cases fuel) auto
  obtain n' m' where p: "meet l (openFileP se (word_of_nat i) ?new) (sendLoopP (Suc f) fsRead ?st (NewNdxState, NewNdxState, 0) ())
      (Ret (Inr data, (n', m'))) (sendLoopP f fsRead ?st (n', m', 0) ())"
    using pull_meet [OF l servedD(1) [OF s] _ _ h, of i fsRead data NewNdxState NewNdxState f] i servedD(5) [OF s] reg by auto
  have ns: "modeType (fmode (es ! i)) \<noteq> ModeSymlink" "\<not> modeIsDir (fmode (es ! i))"
    using reg(1) modeType_dir by (auto simp: modeIsRegular_def mode_defs)
  let ?ctx = "\<lparr>ctxEntries = map (clientView (ver st)) es, ctxEntry = clientView (ver st) (es ! i), ctxNdx = word_of_nat i, ctxName = fname (es ! i)\<rparr>"
  have "openFileFromContextP se ?ctx =
      abnd (openFileP se (word_of_nat i)) (\<lambda>data. aret (RegularFile (flistInfo (baseName (fname (es ! i))) (clientView (ver st) (es ! i))) data))"
    using ns by (simp add: openFileFromContextP_def)
  then have "meet l (openFileFromContextP se ?ctx ?new) (sendLoopP (Suc f) fsRead ?st (NewNdxState, NewNdxState, 0) ())
      (Ret (Inr ?f, (n', m'))) (sendLoopP f fsRead ?st (n', m', 0) ())"
    using meet_bnd [where m = "openFileP se (word_of_nat i)" and d = "sendLoopP (Suc f) fsRead ?st (NewNdxState, NewNdxState, 0)" and t = "()"
        and h = Ret and p'' = "Ret (Inr ?f, (n', m'))" and q'' = "sendLoopP f fsRead ?st (n', m', 0) ()"
        and f = "\<lambda>data. aret (RegularFile (flistInfo (baseName (fname (es ! i))) (clientView (ver st) (es ! i))) data)", OF p]
    by (simp add: act_ends meet_refl)
  then have "meet l (listProg (consumeP (withEntryP se (fname (es ! i)) (openFileFromContextP se)))) (doServerSenderP fuel fsRead (Inr es) st ())
    (Ret (Inr ?f, (n', m'))) (Ret (Inr (), ()))"
    unfolding f(1)
    by (intro transfer_meet [OF l s _ f(2)]) (use client_index [OF servedD(2) [OF s] i] servedD(4,7) [OF s] in simp)
  then show ?thesis by blast
qed

end
