(* ===== verification/Handshake_Programs.thy ===== *)
theory Handshake_Programs
  imports Transfer_Programs Handshake_Exchange
begin

text \<open>
  Whole connections as programs: the handshakes of \<^verbatim>\<open>src/server-handshake.go\<close> and
  \<^verbatim>\<open>src/client-connect.go\<close> with their reads and writes in order and the points where each
  side starts multiplexing, followed by the transfer. What they compute on a complete input
  is what \<open>Server_Handshake\<close> and \<open>Client_Connect\<close> say.
\<close>

section \<open>The daemon\<close>

definition refuseP :: "string \<Rightarrow> go_error \<Rightarrow> 'a sact" where
  "refuseP msg err = abnd (awr (WriteError msg)) (\<lambda>_. afail err)"

definition orRefuseP :: "'a sact \<Rightarrow> string \<Rightarrow> string \<Rightarrow> 'a sact" where
  "orRefuseP m msg ctx = atry m (\<lambda>r. case r of Inl err \<Rightarrow> refuseP msg (Wrap ctx err) | Inr x \<Rightarrow> aret x)"

definition serverGreetP :: "greeting \<Rightarrow> int sact" where
  "serverGreetP g =
    abnd (awr (WriteGreeting (ApplyDefaults g))) (\<lambda>_.
    abnd (orRefuseP (ard ReadGreeting) ''invalid greeting'' ''read client greeting'') (\<lambda>clientGreeting.
      case Negotiate clientGreeting (ApplyDefaults g) of
        Inl err \<Rightarrow> refuseP ''protocol version negotiation failed'' (Wrap ''negotiate version'' err)
      | Inr (version, _, _) \<Rightarrow> aret version))"

definition selectModuleP :: "(gostring \<times> server_module) list \<Rightarrow> int \<Rightarrow> server_module option sact" where
  "selectModuleP modules version =
    atry (ard ReadModuleRequest) (\<lambda>r. case r of
       Inl err \<Rightarrow> if errors_Is err EOF then aret None else afail (Wrap ''read module request'' err)
     | Inr moduleName \<Rightarrow>
         if moduleName = str ''#list'' \<or> moduleName = [] then
            abnd (awr (WriteModuleList (map (\<lambda>(_, m). \<lparr>miName = smName m, miComment = smComment m\<rparr>) modules) version))
              (\<lambda>_. aret None)
          else case map_of modules moduleName of
              None \<Rightarrow> refuseP ''Unknown module'' (Errorf ''unknown module'')
            | Some selected \<Rightarrow>
                (case smRoot selected of
                   Inl err \<Rightarrow> refuseP ''chdir failed'' (Wrap ''module root inaccessible'' err)
                 | Inr _ \<Rightarrow> aret (Some selected)))"

definition serverAuthP :: "server_module \<Rightarrow> go_error + byte list \<Rightarrow> unit sact" where
  "serverAuthP m rand =
    (case smAuth m of
       None \<Rightarrow> awr WriteAuthOK
     | Some callback \<Rightarrow>
         (case rand of
            Inl err \<Rightarrow> afail (Wrap ''generate challenge'' err)
          | Inr challenge \<Rightarrow>
              abnd (awr (WriteAuthChallenge challenge)) (\<lambda>_.
              abnd (orRefuseP (ard ReadAuthResponse) ''Authentication failed'' ''read auth response'') (\<lambda>(username, responseHash).
                case callback username challenge of
                  Inl _ \<Rightarrow> refuseP ''Authentication failed'' (Errorf ''authentication failed for user'')
                | Inr expectedHash \<Rightarrow>
                    if \<not> hashEqual responseHash expectedHash
                    then refuseP ''Authentication failed'' (Errorf ''authentication failed for user'')
                    else awr WriteAuthOK))))"

definition serverCompatP :: "int \<Rightarrow> gostring list \<Rightarrow> flags sact" where
  "serverCompatP version args =
    (if 30 \<le> version then
       let compatFlags = ResolveCompatFlags serverCapabilities (ExtractClientInfo args)
       in abnd (awr (WriteCompatFlags compatFlags version)) (\<lambda>_. aret compatFlags)
     else aret 0)"

definition sendVstringP :: "string \<Rightarrow> gostring \<Rightarrow> unit sact" where
  "sendVstringP msg s = (case WriteVstring s of Inl err \<Rightarrow> afail (Wrap msg err) | Inr bs \<Rightarrow> awr bs)"

definition NegotiateAlgorithmsP :: "gostring list \<Rightarrow> gostring list \<Rightarrow> algorithms sact" where
  "NegotiateAlgorithmsP myChecksums myCompressions =
    abnd (sendVstringP ''send checksum list'' (Join myChecksums [32])) (\<lambda>_.
    abnd (if myCompressions \<noteq> [] then sendVstringP ''send compression list'' (Join myCompressions [32]) else aret ()) (\<lambda>_.
    abnd (ard (wrapping ''read peer checksum list'' ReadVstring)) (\<lambda>peerChecksums.
    abnd (if myCompressions \<noteq> [] then ard (wrapping ''read peer compression list'' ReadVstring) else aret []) (\<lambda>peerCompressions.
      aret \<lparr>algChecksum = pickOne myChecksums peerChecksums,
           algCompress = (if myCompressions \<noteq> [] then pickOne myCompressions peerCompressions else [])\<rparr>))))"

definition chooseChecksumP :: "flags \<Rightarrow> int \<Rightarrow> gostring sact" where
  "chooseChecksumP compatFlags version =
    (if has compatFlags CompatVarintFlistFlags
     then abnd (awrap ''negotiate algorithms'' (NegotiateAlgorithmsP SupportedDigests [])) (\<lambda>algos. aret (algChecksum algos))
     else aret (algChecksum (DefaultAlgorithms version)))"

text \<open>Below protocol 23 the multiplexing writer exists before the seed and takes it.\<close>

definition sendSeedP :: "int \<Rightarrow> i32 \<Rightarrow> mux_writer option sact" where
  "sendSeedP version seed =
    (if version < 23
     then abnd aswOut (\<lambda>_. abnd (awr (WriteChecksumSeed seed)) (\<lambda>_. aret (Some (snd (Write (NewWriter []) (WriteChecksumSeed seed))))))
     else abnd (awr (WriteChecksumSeed seed)) (\<lambda>_. aret None))"

definition admitP :: "server_module \<Rightarrow> int \<Rightarrow> go_error + byte list \<Rightarrow> i32 option \<Rightarrow> i64 \<Rightarrow> handshake_result sact" where
  "admitP selected version challenge seedRand now =
    abnd (serverAuthP selected challenge) (\<lambda>_.
    abnd (ard (wrapping ''read arguments'' (ReadArgs version))) (\<lambda>args.
    abnd (serverCompatP version args) (\<lambda>compatFlags.
    abnd (chooseChecksumP compatFlags version) (\<lambda>checksum.
    abnd (sendSeedP version (chooseSeed seedRand now)) (\<lambda>outMw.
      aret \<lparr>rModule = selected, rVer = version,
           rVarint = has compatFlags CompatVarintFlistFlags,
           rSeedFix = has compatFlags CompatChksumSeedFix,
           rId0Names = has compatFlags CompatId0Names,
           rPreserve = (case ExtractPreserveFlags args of (uid, gid, _) \<Rightarrow> (uid, gid)),
           rPreserveHlinks = (case ExtractPreserveFlags args of (_, _, hlinks) \<Rightarrow> hlinks),
           rChecksum = checksum, rSeed = chooseSeed seedRand now, rOutMw = outMw\<rparr>)))))"

definition doHandshakeP :: "greeting \<Rightarrow> (gostring \<times> server_module) list \<Rightarrow> go_error + byte list \<Rightarrow> i32 option \<Rightarrow> i64 \<Rightarrow>
    handshake_result option sact" where
  "doHandshakeP g modules challenge seedRand now =
    abnd (serverGreetP g) (\<lambda>version.
    abnd (selectModuleP modules version) (\<lambda>sel.
      case sel of
        None \<Rightarrow> aret None
      | Some selected \<Rightarrow> abnd (admitP selected version challenge seedRand now) (\<lambda>r. aret (Some r))))"

text \<open>The head of \<^verbatim>\<open>doServerSender\<close> switches what is not switched yet.\<close>

definition startTransferP :: "handshake_result \<Rightarrow> unit sact" where
  "startTransferP r =
    abnd (case rOutMw r of Some _ \<Rightarrow> aret () | None \<Rightarrow> aswOut) (\<lambda>_. if 30 \<le> rVer r then aswIn else aret ())"

definition HandleConnectionP :: "nat \<Rightarrow> hashes \<Rightarrow> greeting \<Rightarrow> (gostring \<times> server_module) list \<Rightarrow> go_error + byte list \<Rightarrow>
    i32 option \<Rightarrow> i64 \<Rightarrow> (server_module \<Rightarrow> gostring \<Rightarrow> go_error + byte list) \<Rightarrow>
    (server_module \<Rightarrow> int \<Rightarrow> go_error + file_entry list) \<Rightarrow> unit sact" where
  "HandleConnectionP fuel H g modules challenge seedRand now fsRead listing =
    abnd (doHandshakeP g modules challenge seedRand now) (\<lambda>res.
      case res of
        None \<Rightarrow> aret ()
      | Some r \<Rightarrow>
          abnd (startTransferP r) (\<lambda>_.
            doServerSenderP fuel (fsRead (rModule r)) (listing (rModule r) (rVer r)) (transferOf H r)))"

section \<open>The client\<close>

fun authLoopP :: "nat \<Rightarrow> client \<Rightarrow> gostring \<Rightarrow> unit sact" where
  "authLoopP 0 cl digest = afail (Panic ''does not return'')"
| "authLoopP (Suc n) cl digest =
    abnd (ard (wrapping ''read server response'' ReadAuthChallenge)) (\<lambda>r.
      case r of
        None \<Rightarrow> aret ()
      | Some challenge \<Rightarrow>
          if cAuthUser cl = [] then afail (Errorf ''server requires authentication'')
          else (case cAuthResponse cl of
              None \<Rightarrow> afail (Errorf ''server requires authentication'')
            | Some response \<Rightarrow>
                (case response digest challenge of
                   Inl err \<Rightarrow> afail (Wrap ''compute auth response'' err)
                 | Inr digestBytes \<Rightarrow>
                     abnd (awr (WriteAuthResponse (cAuthUser cl) digestBytes)) (\<lambda>_. authLoopP n cl digest))))"

definition clientNegotiateP :: "int \<Rightarrow> (flags \<times> gostring) sact" where
  "clientNegotiateP version =
    (if 30 \<le> version then
       abnd (ard (wrapping ''read compat flags'' (ReadCompatFlags version))) (\<lambda>compatFlags.
         if has compatFlags CompatVarintFlistFlags
         then abnd (awrap ''negotiate algorithms'' (NegotiateAlgorithmsP SupportedDigests [])) (\<lambda>algos.
                aret (compatFlags, algChecksum algos))
         else aret (compatFlags, algChecksum (DefaultAlgorithms version)))
     else aret (0, algChecksum (DefaultAlgorithms version)))"

text \<open>
  The multiplexing reader is made before the seed but first used for it below protocol 23,
  and after it otherwise.
\<close>

definition clientSeedP :: "int \<Rightarrow> i32 sact" where
  "clientSeedP version =
    abnd (if 30 \<le> version then aswOut else aret ()) (\<lambda>_.
      if version < 23 then abnd aswIn (\<lambda>_. ard (wrapping ''read checksum seed'' ReadChecksumSeed))
      else abnd (ard (wrapping ''read checksum seed'' ReadChecksumSeed)) (\<lambda>seed. abnd aswIn (\<lambda>_. aret seed)))"

definition runHandshakeP :: "nat \<Rightarrow> hashes \<Rightarrow> client \<Rightarrow> full_session sact" where
  "runHandshakeP fuel H cl =
    (let greet = ApplyDefaults (cGreeting cl)
     in abnd (awr (WriteGreeting greet)) (\<lambda>_.
        abnd (ard (wrapping ''read server greeting'' ReadGreeting)) (\<lambda>serverGreet.
          case Negotiate greet serverGreet of
            Inl err \<Rightarrow> afail (Wrap ''negotiate protocol version'' err)
          | Inr (version, subProtocol, digest) \<Rightarrow>
              abnd (awr (WriteModuleRequest (cModule cl))) (\<lambda>_.
              abnd (authLoopP fuel cl digest) (\<lambda>_.
              abnd (awr (WriteArgs (clientArgs cl version) version)) (\<lambda>_.
              abnd (clientNegotiateP version) (\<lambda>(compatFlags, checksum).
              abnd (clientSeedP version) (\<lambda>seed.
              abnd (awr (WriteInt32 0)) (\<lambda>_.
                aret \<lparr>sversion = version, shashes = H, schecksum = checksum, sseed = seed,
                      svarintFlist = has compatFlags CompatVarintFlistFlags,
                      sid0Names = has compatFlags CompatId0Names,
                      ssubProtocol = subProtocol, sdigest = digest, scompatFlags = compatFlags,
                      sseedFix = has compatFlags CompatChksumSeedFix, smoduleName = cModule cl\<rparr>))))))))) "

text \<open>\<^verbatim>\<open>Connect\<close> and then one operation on the session's file list.\<close>

definition operateP :: "nat \<Rightarrow> hashes \<Rightarrow> client \<Rightarrow> (session \<Rightarrow> 'a cact) \<Rightarrow> (go_error + 'a) prog" where
  "operateP fuel H cl op =
    thenP (runHandshakeP fuel H cl ()) (\<lambda>(res, _).
      case res of
        Inl err \<Rightarrow> Ret (Inl err)
      | Inr se \<Rightarrow> thenP (op (session.truncate se) (NewNdxState, NewNdxState)) (\<lambda>(r, _). Ret r))"

section \<open>What they compute\<close>

lemma sden_refuse: "sden (refuseP msg err) = refuse msg err"
  unfolding refuseP_def refuse_def plain.den_simps by (rule refl)

lemma sden_orRefuse: "sden (orRefuseP m msg ctx) = orRefuse (sden m) msg ctx"
  by (auto simp: fun_eq_iff orRefuseP_def orRefuse_def plain.den_atry plain.den_simps sden_refuse split: prod.splits sum.splits)

lemma sden_serverGreet: "sden (serverGreetP g) = serverGreet g"
  unfolding serverGreetP_def serverGreet_def plain.den_simps sden_orRefuse sden_refuse by (rule refl)

lemma sden_selectModule: "sden (selectModuleP modules version) = selectModule modules version"
  by (auto simp: fun_eq_iff selectModuleP_def selectModule_def plain.den_atry plain.den_simps sden_refuse
      split: prod.splits sum.splits option.splits)

lemma den_case_option: "sden (case x of None \<Rightarrow> m | Some y \<Rightarrow> f y) = (case x of None \<Rightarrow> sden m | Some y \<Rightarrow> sden (f y))"
  by (cases x) simp_all

lemma sden_serverAuth: "sden (serverAuthP m rand) = serverAuth m rand"
  unfolding serverAuthP_def serverAuth_def den_case_option plain.den_simps sden_orRefuse sden_refuse by (rule refl)

lemma sden_serverCompat: "sden (serverCompatP version args) = serverCompat version args"
  unfolding serverCompatP_def serverCompat_def Let_def plain.den_simps by (rule refl)

lemma sden_negotiate: "sden (NegotiateAlgorithmsP cs ds) = NegotiateAlgorithms cs ds"
  unfolding NegotiateAlgorithmsP_def NegotiateAlgorithms_def sendVstringP_def sendVstring_def plain.den_simps by (rule refl)

lemma sden_chooseChecksum: "sden (chooseChecksumP fl version) = chooseChecksum fl version"
  unfolding chooseChecksumP_def chooseChecksum_def plain.den_simps sden_negotiate by (rule refl)

lemma seed_held: "wbuf (snd (Write (NewWriter []) (WriteChecksumSeed seed))) = WriteChecksumSeed seed"
  by (simp add: Write_def NewWriter_def defaultBufSize_def WriteChecksumSeed_def WriteInt32_def Let_def writeLoop.simps [of _ 0]
      writeLoop.simps [of _ _ "[]"])

text \<open>What the multiplexing writer of the handshake already holds.\<close>

definition held :: "handshake_result \<Rightarrow> byte list" where
  "held r = (case rOutMw r of Some w \<Rightarrow> wbuf w | None \<Rightarrow> [])"

lemma sden_sendSeed:
  "sden (sendSeedP version seed) c =
    (case sendSeed version seed c of (r, c') \<Rightarrow> (r, c'\<lparr>cout := cout c' @ (if version < 23 then WriteChecksumSeed seed else [])\<rparr>))"
  by (simp add: sendSeedP_def sendSeed_def plain.den_simps bnd_def wr_def)

lemma sden_swIn: "sden aswIn c = (Inr (), c\<lparr>cin := demux (cin c)\<rparr>)"
  by (simp add: den_def aswIn_def)

text \<open>A result of the handshake and what of the payload has been produced with it.\<close>

definition withHeld :: "(handshake_result \<Rightarrow> 'a) \<Rightarrow> (go_error + handshake_result) \<times> conn \<Rightarrow> (go_error + 'a) \<times> conn" where
  "withHeld f = (\<lambda>(res, c). case res of Inl err \<Rightarrow> (Inl err, c) | Inr r \<Rightarrow> (Inr (f r), c\<lparr>cout := cout c @ held r\<rparr>))"

lemma sden_admit:
  "sden (admitP selected version challenge seedRand now) c = withHeld id (admit selected version challenge seedRand now c)"
proof -
  have "sden (abnd (sendSeedP version seed) (\<lambda>outMw. aret (R outMw))) =
      bnd (sendSeed version seed) (\<lambda>outMw d. withHeld id (Inr (R outMw), d))"
    if "\<And>w. rOutMw (R w) = w" for R seed
    using that by (simp add: fun_eq_iff plain.den_simps bnd_def sden_sendSeed sendSeed_def wr_def withHeld_def held_def seed_held)
  note seed = this
  have w: "withHeld id (bnd m f d) = bnd m (\<lambda>x e. withHeld id (f x e)) d" for m :: "(conn, 'x) io" and f d
    by (auto simp: bnd_def withHeld_def split: prod.splits sum.splits)
  show ?thesis
    unfolding admitP_def admit_def plain.den_abnd [of "serverAuthP selected challenge"]
      plain.den_abnd [of "ard _"] plain.den_abnd [of "serverCompatP _ _"] plain.den_abnd [of "chooseChecksumP _ _"] plain.den_rd
      sden_serverAuth sden_serverCompat sden_chooseChecksum
    by (simp add: w seed)
qed

lemma sden_doHandshake:
  "sden (doHandshakeP g modules challenge seedRand now) c =
    (case doHandshake g modules challenge seedRand now c of
       (Inr (Some r), c') \<Rightarrow> (Inr (Some r), c'\<lparr>cout := cout c' @ held r\<rparr>)
     | (res, c') \<Rightarrow> (res, c'))"
  by (auto simp: doHandshakeP_def doHandshake_def plain.den_simps den_case_option sden_serverGreet sden_selectModule sden_admit
      bnd_def withHeld_def split: prod.splits sum.splits option.splits)

text \<open>The daemon's program, on any input: the bytes of the handshake and then its payload.\<close>

definition spoken :: "(go_error + unit) \<times> conn \<times> conn option \<Rightarrow> (go_error + unit) \<times> byte list" where
  "spoken = (\<lambda>(res, c, t). (res, cout c @ (case t of Some d \<Rightarrow> cout d | None \<Rightarrow> [])))"

lemma run_prefix:
  "run p \<lparr>cin = i, cout = w @ w', \<dots> = z\<rparr> = (case run p \<lparr>cin = i, cout = w', \<dots> = z\<rparr> of (r, c') \<Rightarrow> (r, c'\<lparr>cout := w @ cout c'\<rparr>))"
proof (induction p arbitrary: i w')
  case (Rd f)
  then show ?case by (simp add: run_Rd case_prod_beta)
qed simp_all

lemma sden_prefix: "sden m \<lparr>cin = i, cout = w @ w'\<rparr> = (case sden m \<lparr>cin = i, cout = w'\<rparr> of (r, c') \<Rightarrow> (r, c'\<lparr>cout := w @ cout c'\<rparr>))"
  using run_prefix [where z = "()", of "m ()" i w w'] by (simp add: den_def split: prod.splits)

lemma daemon_connection:
  "\<exists>n. \<forall>fuel\<ge>n. map_prod id cout (sden (HandleConnectionP fuel H g modules challenge seedRand now fsRead listing) c) =
     spoken (HandleConnection H g modules challenge seedRand now fsRead listing c)"
proof -
  obtain res i w where h: "doHandshake g modules challenge seedRand now c = (res, \<lparr>cin = i, cout = w\<rparr>)" by (metis conn.cases prod.exhaust)
  consider (err) e where "res = Inl e" | (none) "res = Inr None" | (some) r where "res = Inr (Some r)"
    by (cases res; cases "projr res") auto
  then show ?thesis
  proof cases
    case some
    let ?c = "\<lparr>cin = i, cout = w\<rparr>" and ?i = "if 30 \<le> rVer r then demux i else i" and ?st = "transferOf H r"
    have start: "sden (startTransferP r) d = (Inr (), d\<lparr>cin := (if 30 \<le> rVer r then demux (cin d) else cin d)\<rparr>)" for d
      by (auto simp: startTransferP_def plain.den_simps bnd_def sden_swIn split: option.splits)
    have "map_prod id cout (sden (HandleConnectionP fuel H g modules challenge seedRand now fsRead listing) c) =
       spoken (HandleConnection H g modules challenge seedRand now fsRead listing c)" if "Suc (length (avail ?i)) \<le> fuel" for fuel
    proof -
      let ?p = "doServerSenderP fuel (fsRead (rModule r)) (listing (rModule r) (rVer r)) ?st"
      have t: "transferConn r ?c = \<lparr>cin = ?i, cout = held r\<rparr>" by (simp add: transferConn_def held_def)
      have "sden ?p \<lparr>cin = ?i, cout = held r\<rparr> = doServerSender (fsRead (rModule r)) (listing (rModule r) (rVer r)) ?st (transferConn r ?c)"
        using daemon_program [where c = "\<lparr>cin = ?i, cout = held r\<rparr>"] that t by simp
      then show ?thesis
        using h some sden_prefix [of ?p ?i w "held r"]
        by (auto simp: HandleConnectionP_def HandleConnection_def plain.den_simps sden_doHandshake den_case_option bnd_def start
            spoken_def t split: prod.splits)
    qed
    then show ?thesis by blast
  qed (use h in \<open>auto simp: HandleConnectionP_def HandleConnection_def plain.den_simps sden_doHandshake den_case_option bnd_def spoken_def\<close>)
qed

lemma sden_clientNegotiate: "sden (clientNegotiateP version) = clientNegotiate version"
  unfolding clientNegotiateP_def clientNegotiate_def plain.den_simps sden_negotiate by (rule refl)

lemma sden_authLoop:
  "length (avail (cin c)) < n \<Longrightarrow> sden (authLoopP n cl digest) c = authLoop cl digest c"
proof (induction n arbitrary: c)
  case (Suc n)
  have "length (avail (cin c')) < n" if "rd (wrapping ''read server response'' ReadAuthChallenge) c = (Inr x, c')" for x c'
    using that Suc.prems by (auto simp: rd_def wrapping_def split: prod.splits sum.splits dest!: ReadAuthChallenge_shrinks)
  then have "sden (authLoopP n cl digest) (c'\<lparr>cout := cout'\<rparr>) = authLoop cl digest (c'\<lparr>cout := cout'\<rparr>)"
    if "rd (wrapping ''read server response'' ReadAuthChallenge) c = (Inr x, c')" for x c' cout'
    using that Suc.IH [of "c'\<lparr>cout := cout'\<rparr>"] by simp
  then show ?case
    by (auto simp: plain.den_simps den_case_option bnd_def wr_def authLoop.simps [of cl digest c]
        split: prod.splits sum.splits option.splits)
qed simp

lemma run_ext:
  "run p \<lparr>cin = i, cout = w, \<dots> = z\<rparr> =
    (case run p \<lparr>cin = i, cout = w\<rparr> of (r, c') \<Rightarrow> (r, \<lparr>cin = cin c', cout = cout c', \<dots> = z\<rparr>))"
proof (induction p arbitrary: i w)
  case (Rd f)
  then show ?case by (simp add: run_Rd case_prod_beta)
qed simp_all

lemma sden_clientSeed:
  "sden (clientSeedP version) c = (case clientSeed version (cin c) of
     (Inr seed, s') \<Rightarrow> (Inr seed, c\<lparr>cin := s'\<rparr>)
   | (Inl err, s') \<Rightarrow> (Inl err, c\<lparr>cin := if version < 23 then s' else snd (wrapping ''read checksum seed'' ReadChecksumSeed (cin c))\<rparr>))"
  by (auto simp: clientSeedP_def clientSeed_def plain.den_simps bnd_def sden_swIn rd_def split: prod.splits sum.splits)

lemma sden_runHandshake:
  assumes "length (avail (cin c)) < fuel"
  shows "case runHandshake H cl c of
      (Inl err, c') \<Rightarrow> map_prod id cout (sden (runHandshakeP fuel H cl) c) = (Inl err, cout c')
    | (Inr (se, d), c') \<Rightarrow> sden (runHandshakeP fuel H cl) c = (Inr se, \<lparr>cin = cin d, cout = cout c' @ WriteInt32 0\<rparr>) \<and>
        d = \<lparr>cin = cin d, cout = WriteInt32 0, sndx = NewNdxState, srecvNdx = NewNdxState\<rparr>"
proof -
  obtain i w where c: "c = \<lparr>cin = i, cout = w\<rparr>" by (cases c)
  have l: "length (avail i') < fuel" if "wrapping msg ReadGreeting i = (Inr x, i')" for msg x i'
    using streaming_tail [OF streaming_wrapping [OF greet.streaming]] that assms c by (fastforce simp: tail_of_def)
  show ?thesis
    unfolding runHandshakeP_def runHandshake_def Let_def c
    by (auto simp: plain.den_simps bnd_def wr_def rd_def sden_authLoop l sden_clientNegotiate sden_clientSeed
        split: prod.splits sum.splits)
qed

text \<open>The client's program: the bytes of the handshake and then the payload of the operation.\<close>

lemma client_connection:
  assumes "length (avail (cin c)) < fuel"
  shows "map_prod id cout (run (operateP fuel H cl op) c) =
    (case runHandshake H cl c of
       (Inl err, c') \<Rightarrow> (Inl err, cout c')
     | (Inr (se, d), c') \<Rightarrow> (case cden (op (session.truncate se)) d of (res, d') \<Rightarrow> (res, cout c' @ cout d')))"
proof -
  obtain res c' where h: "runHandshake H cl c = (res, c')" by (rule prod.exhaust)
  note p = sden_runHandshake [OF assms, of H cl, unfolded h]
  obtain r c1 where r: "run (runHandshakeP fuel H cl ()) c = ((r, ()), c1)" by (metis prod.exhaust unit.exhaust)
  then have s: "sden (runHandshakeP fuel H cl) c = (r, c1)" by (simp add: den_def)
  show ?thesis
  proof (cases res)
    case (Inl err)
    with p s h r show ?thesis by (simp add: operateP_def run_thenP)
  next
    case (Inr x)
    obtain se d where x: "x = (se, d)" by (cases x)
    let ?p = "op (session.truncate se) (NewNdxState, NewNdxState)"
    have rc: "r = Inr se" "c1 = \<lparr>cin = cin d, cout = cout c' @ WriteInt32 0\<rparr>"
      and d: "d = \<lparr>cin = cin d, cout = WriteInt32 0, sndx = NewNdxState, srecvNdx = NewNdxState\<rparr>"
      using p s Inr x by auto
    obtain q n c2 where q: "run ?p \<lparr>cin = cin d, cout = WriteInt32 0\<rparr> = ((q, n), c2)" by (metis prod.exhaust)
    have "run ?p c1 = ((q, n), c2\<lparr>cout := cout c' @ cout c2\<rparr>)"
      unfolding rc(2) using run_prefix [where z = "()", of ?p "cin d" "cout c'" "WriteInt32 0"] q by simp
    moreover have "map_prod id cout (cden (op (session.truncate se)) d) = (q, cout c2)"
      using run_ext [of ?p "cin d" "WriteInt32 0" "\<lparr>sndx = NewNdxState, srecvNdx = NewNdxState\<rparr>"] q
      by (subst d) (simp add: den_def split: prod.splits)
    ultimately show ?thesis
      using h Inr x r rc(1) by (auto simp: operateP_def run_thenP split: prod.splits)
  qed
qed

section \<open>A whole connection\<close>

text \<open>What the daemon's transfer does is independent of the output that is already there.\<close>

lemma doServerSender_prefix:
  "doServerSender fsRead listing st \<lparr>cin = i, cout = w\<rparr> =
    (case doServerSender fsRead listing st \<lparr>cin = i, cout = []\<rparr> of (r, c') \<Rightarrow> (r, c'\<lparr>cout := w @ cout c'\<rparr>))"
proof -
  have "sden (doServerSenderP (Suc (length (avail i))) fsRead listing st) \<lparr>cin = i, cout = u\<rparr> =
      doServerSender fsRead listing st \<lparr>cin = i, cout = u\<rparr>" for u
    by (rule daemon_program) simp
  from this [symmetric] sden_prefix [of "doServerSenderP (Suc (length (avail i))) fsRead listing st" i w "[]"] show ?thesis by simp
qed

lemma held_agreed: "held (agreedResult m v seed) = (if v < 23 then WriteChecksumSeed seed else [])"
  by (simp add: held_def agreedResult_def seed_held)

lemma connection_run:
  assumes comp: "compatible cl g modules challenge m v sub digest hash"
    and ex: "exchange (fsRead m) (listing m v) (transferOf H (agreedResult m v (chooseSeed seedRand now))) op res"
  shows "\<exists>C S. \<forall>craw sraw e1 e2. clientCarries v craw e1 C \<and> demux (Src sraw e2) = Src S EOF \<longrightarrow>
    (\<exists>t. HandleConnection H g modules (Inr challenge) seedRand now fsRead listing
           \<lparr>cin = Src (clientHello cl m hash v @ craw) e1, cout = []\<rparr> =
         (Inr (), \<lparr>cin = Src craw e1, cout = serverHello g m challenge v (chooseSeed seedRand now)\<rparr>, Some t) \<and> cout t = S) \<and>
    (\<exists>se c c' raw. runHandshake H cl \<lparr>cin = Src (serverHello g m challenge v (chooseSeed seedRand now) @ sraw) e2, cout = []\<rparr> =
         (Inr (se, c), \<lparr>cin = raw, cout = clientHello cl m hash v\<rparr>) \<and>
       session.truncate se = session.truncate (agreedSession H cl v sub digest (chooseSeed seedRand now)) \<and>
       op c = (res, c') \<and> cin c' = Src [] EOF \<and> cout c' = C)"
proof -
  let ?seed = "chooseSeed seedRand now"
  let ?r = "agreedResult m v ?seed"
  let ?h = "if v < 23 then WriteChecksumSeed ?seed else []"
  obtain C S c where s: "\<And>e. doServerSender (fsRead m) (listing m v) (transferOf H ?r) \<lparr>cin = Src C e, cout = []\<rparr> =
      (Inr (), \<lparr>cin = Src [] e, cout = S\<rparr>)" and o1: "op (freshConn S EOF) = (res, c)" "cin c = Src [] EOF" "cout c = C"
    using ex unfolding exchange_def by blast
  have h: "doServerSender (fsRead m) (listing m v) (transferOf H ?r) \<lparr>cin = Src C e, cout = ?h\<rparr> =
      (Inr (), \<lparr>cin = Src [] e, cout = ?h @ S\<rparr>)" for e
    by (subst doServerSender_prefix) (simp add: s)
  have r: "rModule ?r = m" "rVer ?r = v" by (simp_all add: agreedResult_def)
  show ?thesis
  proof (rule exI [of _ C], rule exI [of _ "?h @ S"], intro allI impI conjI; elim conjE)
    fix craw sraw e1 e2 assume f: "clientCarries v craw e1 C" "demux (Src sraw e2) = Src (?h @ S) EOF"
    obtain e' where t: "transferConn ?r \<lparr>cin = Src craw e1, cout = serverHello g m challenge v ?seed\<rparr> = \<lparr>cin = Src C e', cout = ?h\<rparr>"
      using f(1) held_agreed [of m v ?seed] unfolding held_def by (auto simp: transferConn_def r clientCarries_def split: if_splits)
    show "\<exists>t. HandleConnection H g modules (Inr challenge) seedRand now fsRead listing
           \<lparr>cin = Src (clientHello cl m hash v @ craw) e1, cout = []\<rparr> =
         (Inr (), \<lparr>cin = Src craw e1, cout = serverHello g m challenge v ?seed\<rparr>, Some t) \<and> cout t = ?h @ S"
      by (simp only: HandleConnection_def doHandshake_run [OF comp] prod.case sum.case option.case r t h)
         simp
    from runHandshake_run [OF comp f(2), of H] o1
    show "\<exists>se c c' raw. runHandshake H cl \<lparr>cin = Src (serverHello g m challenge v ?seed @ sraw) e2, cout = []\<rparr> =
         (Inr (se, c), \<lparr>cin = raw, cout = clientHello cl m hash v\<rparr>) \<and>
       session.truncate se = session.truncate (agreedSession H cl v sub digest ?seed) \<and>
       op c = (res, c') \<and> cin c' = Src [] EOF \<and> cout c' = C"
      by blast
  qed
qed

end
