(* ===== verification/Connection_Runs.thy ===== *)
theory Connection_Runs
  imports Lockstep Handshake_Programs
begin

text \<open>
  A compatible client and daemon in conversation from the first byte of the connection to the
  last: the handshake on the plain connection, the switch to frames on either side, and a
  transfer as in \<open>Lockstep\<close>.
\<close>

section \<open>On the plain connection\<close>

definition chat :: "'a prog \<Rightarrow> 'b prog \<Rightarrow> 'a prog \<Rightarrow> 'b prog \<Rightarrow> bool" where
  "chat p q p' q' \<longleftrightarrow> talk_step\<^sup>*\<^sup>* ((p, Plain, []), (q, Plain, [])) ((p', Plain, []), (q', Plain, []))"

lemma chat_trans: "chat p q p1 q1 \<Longrightarrow> chat p1 q1 p2 q2 \<Longrightarrow> chat p q p2 q2"
  by (auto simp: chat_def)

lemma chat_refl: "chat p q p q"
  by (simp add: chat_def)

text \<open>Both say something, and then hear what the other said.\<close>

lemma chat_cross:
  assumes "emits p a p1" "emits q b q1" "absorbs p1 b p2" "absorbs q1 a q2"
  shows "chat p q p2 q2"
proof -
  have s: "says Plain p a p1" "says Plain q b q1" using assms(1,2) by (simp_all add: says_def)
  have 1: "talk_step ((p, Plain, []), (q, Plain, [])) ((p1, Plain, [] @ a), (q, Plain, []))" by (rule talk_step.c_say [OF s(1)])
  have 2: "talk_step ((p1, Plain, a), (q, Plain, [])) ((p1, Plain, a), (q1, Plain, [] @ b))" by (rule talk_step.d_say [OF s(2)])
  have 3: "talk_step ((p1, Plain, a), (q1, Plain, b @ [])) ((p2, Plain, a), (q1, Plain, []))"
    by (rule talk_step.c_hear [OF assms(3)]) simp
  have 4: "talk_step ((p2, Plain, a @ []), (q1, Plain, [])) ((p2, Plain, []), (q2, Plain, []))"
    by (rule talk_step.d_hear [OF assms(4)]) simp
  note steps = 1 2 3 4
  show ?thesis
    unfolding chat_def
    by (rule converse_rtranclp_into_rtranclp, rule steps [unfolded append_Nil append_Nil2])+ simp
qed

lemmas chat_ask = chat_cross [OF _ emits_refl absorbs_refl]
lemmas chat_answer = chat_cross [OF emits_refl _ _ absorbs_refl]

lemma chat_thenP: "chat p q p' q' \<Longrightarrow> chat (thenP p k) (thenP q h) (thenP p' k) (thenP q' h)"
  unfolding chat_def by (rule talk_thenP)

lemma chat_bnd:
  assumes "chat (m s) (n t) (Ret (Inr x, s')) (Ret (Inr y, t'))" "chat (f x s') (g y t') p q"
  shows "chat (abnd m f s) (abnd n g t) p q"
  unfolding abnd_def atry_def
  by (rule chat_trans [OF chat_thenP [OF assms(1)]]) (use assms(2) in simp)

section \<open>The handshake\<close>

lemma emits_write: "emits (f () s) bs q \<Longrightarrow> emits (abnd (awr b) f s) (b @ bs) q"
  by (simp add: act_steps emits_Wr)

lemma emits_write_last: "f () s = q \<Longrightarrow> emits (abnd (awr b) f s) b q"
  using emits_Wr [OF emits_refl, of b q] by (simp add: act_steps)

lemma absorbs_orRefuse: "reads m bs x \<Longrightarrow> absorbs (orRefuseP (ard m) msg ctx s) bs (Ret (Inr x, s))"
  unfolding orRefuseP_def by (rule absorbs_try, rule absorbs_ard) (simp_all add: act_ends)

lemma greet_chat:
  assumes ok: "greeting_ok cg" "greeting_ok (ApplyDefaults g)" "Negotiate cg (ApplyDefaults g) = Inr (v, sub, digest)"
  shows "chat (abnd (awr (WriteGreeting cg)) (\<lambda>_. abnd (ard (wrapping msg ReadGreeting)) f) ()) (abnd (serverGreetP g) h ())
    (f (ApplyDefaults g) ()) (h v ())"
proof (rule chat_cross)
  show "emits (abnd (awr (WriteGreeting cg)) (\<lambda>_. abnd (ard (wrapping msg ReadGreeting)) f) ()) (WriteGreeting cg)
      (abnd (ard (wrapping msg ReadGreeting)) f ())"
    by (rule emits_write_last) (rule refl)
  show "emits (abnd (serverGreetP g) h ()) (WriteGreeting (ApplyDefaults g))
      (abnd (orRefuseP (ard ReadGreeting) ''invalid greeting'' ''read client greeting'') (\<lambda>cg. abnd (case Negotiate cg (ApplyDefaults g) of
          Inl err \<Rightarrow> refuseP ''protocol version negotiation failed'' (Wrap ''negotiate version'' err)
        | Inr (version, _, _) \<Rightarrow> aret version) h) ())"
    unfolding serverGreetP_def abnd_assoc by (rule emits_write_last) (rule refl)
  show "absorbs (abnd (ard (wrapping msg ReadGreeting)) f ()) (WriteGreeting (ApplyDefaults g)) (f (ApplyDefaults g) ())"
    by (rule absorbs_last, rule absorbs_ard, rule reads_wrapping, rule reads_greeting [OF ok(2)]) (rule refl)
  show "absorbs (abnd (orRefuseP (ard ReadGreeting) ''invalid greeting'' ''read client greeting'') (\<lambda>cg. abnd (case Negotiate cg (ApplyDefaults g) of
          Inl err \<Rightarrow> refuseP ''protocol version negotiation failed'' (Wrap ''negotiate version'' err)
        | Inr (version, _, _) \<Rightarrow> aret version) h) ()) (WriteGreeting cg) (h v ())"
    by (rule absorbs_last, rule absorbs_orRefuse, rule reads_greeting [OF ok(1)]) (simp add: ok(3) act_steps)
qed

lemma module_chat:
  assumes "module_ok name v" "map_of modules name = Some m" "smRoot m = Inr ()"
  shows "chat (abnd (awr (WriteModuleRequest name)) f ()) (abnd (selectModuleP modules v) h ()) (f () ()) (h (Some m) ())"
proof (rule chat_ask)
  show "emits (abnd (awr (WriteModuleRequest name)) f ()) (WriteModuleRequest name) (f () ())" by (rule emits_write_last) (rule refl)
  have "absorbs (selectModuleP modules v ()) (WriteModuleRequest name) (Ret (Inr (Some m), ()))"
    unfolding selectModuleP_def
    by (rule absorbs_try, rule absorbs_ard, rule reads_module) (use assms in \<open>auto simp: module_ok_def act_ends\<close>)
  then show "absorbs (abnd (selectModuleP modules v) h ()) (WriteModuleRequest name) (h (Some m) ())"
    by (rule absorbs_last) (rule refl)
qed

lemma args_chat:
  assumes "module_ok (cModule cl) v"
  shows "chat (abnd (awr (WriteArgs (clientArgs cl v) v)) f ()) (abnd (ard (wrapping msg (ReadArgs v))) h ()) (f () ()) (h (clientArgs cl v) ())"
  by (rule chat_ask, rule emits_write_last, rule refl, rule absorbs_last, rule absorbs_ard, rule reads_wrapping, rule reads_args [OF assms], rule refl)

lemma auth_ok_chat:
  "chat (abnd (authLoopP (Suc n) cl digest) f ()) (abnd (awr WriteAuthOK) h ()) (f () ()) (h () ())"
proof (rule chat_answer)
  show "emits (abnd (awr WriteAuthOK) h ()) WriteAuthOK (h () ())" by (rule emits_write_last) (rule refl)
  show "absorbs (abnd (authLoopP (Suc n) cl digest) f ()) WriteAuthOK (f () ())"
    unfolding authLoopP.simps abnd_assoc
    by (rule absorbs_last, rule absorbs_ard, rule reads_wrapping, rule reads_ok) (simp add: act_steps)
qed

lemma auth_chat:
  assumes "auth_ok cl m challenge digest hash"
  shows "chat (abnd (authLoopP (Suc (Suc n)) cl digest) f ()) (abnd (serverAuthP m (Inr challenge)) h ()) (f () ()) (h () ())"
proof (cases "smAuth m")
  case None
  then show ?thesis using auth_ok_chat [of "Suc n"] by (simp only: serverAuthP_def option.case)
next
  case (Some callback)
  obtain response where a: "cAuthUser cl \<noteq> []" "user_ok (cAuthUser cl)" "cAuthResponse cl = Some response"
    "response digest challenge = Inr hash" "callback (cAuthUser cl) challenge = Inr hash"
    using assms Some by (auto simp: auth_ok_def)
  let ?respond = "abnd (awr (WriteAuthResponse (cAuthUser cl) hash)) (\<lambda>_. abnd (authLoopP (Suc n) cl digest) f) ()"
  let ?check = "abnd (orRefuseP (ard ReadAuthResponse) ''Authentication failed'' ''read auth response'') (\<lambda>r. abnd (case r of (username, responseHash) \<Rightarrow>
                case callback username challenge of
                  Inl _ \<Rightarrow> refuseP ''Authentication failed'' (Errorf ''authentication failed for user'')
                | Inr expectedHash \<Rightarrow>
                    if \<not> hashEqual responseHash expectedHash
                    then refuseP ''Authentication failed'' (Errorf ''authentication failed for user'')
                    else awr WriteAuthOK) h) ()"
  have 1: "chat (abnd (authLoopP (Suc (Suc n)) cl digest) f ()) (abnd (serverAuthP m (Inr challenge)) h ()) ?respond ?check"
  proof (rule chat_answer)
    show "emits (abnd (serverAuthP m (Inr challenge)) h ()) (WriteAuthChallenge challenge) ?check"
      unfolding serverAuthP_def Some option.case sum.case abnd_assoc by (rule emits_write_last) (rule refl)
    show "absorbs (abnd (authLoopP (Suc (Suc n)) cl digest) f ()) (WriteAuthChallenge challenge) ?respond"
      unfolding authLoopP.simps(2) [of "Suc n"] abnd_assoc
      by (rule absorbs_last, rule absorbs_ard, rule reads_wrapping, rule reads_challenge) (simp add: a(1,3,4) abnd_assoc del: authLoopP.simps)
  qed
  have 2: "chat ?respond ?check (abnd (authLoopP (Suc n) cl digest) f ()) (abnd (awr WriteAuthOK) h ())"
    by (rule chat_ask, rule emits_write_last, rule refl, rule absorbs_last, rule absorbs_orRefuse, rule reads_response [OF a(2)])
       (simp add: a(5) hashEqual_iff)
  show ?thesis by (rule chat_trans [OF 1 chat_trans [OF 2]], rule auth_ok_chat)
qed

lemma digestList_vstring: "WriteVstring (Join SupportedDigests [32]) = Inr digestList" "reads ReadVstring digestList (Join SupportedDigests [32])"
proof -
  have l: "length (Join SupportedDigests [32]) \<le> 0x7FFF" by code_simp
  show w: "WriteVstring (Join SupportedDigests [32]) = Inr digestList"
    using l WriteVstring_Inr_iff [of "Join SupportedDigests [32]"] by (auto simp: digestList_def split: sum.splits)
  show "reads ReadVstring digestList (Join SupportedDigests [32])" using vstring.reads_enc [OF l] by (simp add: w)
qed

text \<open>Sending the own list, and then reading the other's.\<close>

lemma negotiate_turns:
  obtains q where "emits (awrap msg (NegotiateAlgorithmsP SupportedDigests []) ()) digestList q"
    "absorbs q digestList (Ret (Inr \<lparr>algChecksum = str ''md5'', algCompress = []\<rparr>, ()))"
proof -
  let ?k = "\<lambda>(r, s'). Ret (case r of Inl e \<Rightarrow> Inl (Wrap msg e) | Inr x \<Rightarrow> Inr x, s') :: ((go_error + algorithms) \<times> unit) prog"
  let ?q = "abnd (ard (wrapping ''read peer checksum list'' ReadVstring)) (\<lambda>peerChecksums.
      aret \<lparr>algChecksum = pickOne SupportedDigests peerChecksums, algCompress = []\<rparr>) ()"
  have p: "pickOne SupportedDigests (Join SupportedDigests [32]) = str ''md5''" by code_simp
  have "emits (NegotiateAlgorithmsP SupportedDigests [] ()) digestList ?q"
    unfolding NegotiateAlgorithmsP_def sendVstringP_def digestList_vstring(1) sum.case
    by (rule emits_write_last) (simp add: act_steps)
  then have "emits (awrap msg (NegotiateAlgorithmsP SupportedDigests []) ()) digestList (thenP ?q ?k)"
    unfolding act_awrap by (rule emits_thenP)
  moreover have "absorbs ?q digestList (Ret (Inr \<lparr>algChecksum = str ''md5'', algCompress = []\<rparr>, ()))"
    by (rule absorbs_last, rule absorbs_ard, rule reads_wrapping, rule digestList_vstring(2)) (simp add: p act_ends)
  from absorbs_thenP [OF this, of ?k] have "absorbs (thenP ?q ?k) digestList (Ret (Inr \<lparr>algChecksum = str ''md5'', algCompress = []\<rparr>, ()))" by simp
  ultimately show ?thesis by (rule that)
qed

lemma negotiate_chat:
  "chat (abnd (clientNegotiateP v) f ()) (abnd (serverCompatP v (clientArgs cl v)) (\<lambda>fl. abnd (chooseChecksumP fl v) (h fl)) ())
    (f (agreedFlags v, agreedChecksum v) ()) (h (agreedFlags v) (agreedChecksum v) ())"
proof (cases "30 \<le> v")
  case False
  then show ?thesis
    by (simp add: clientNegotiateP_def serverCompatP_def act_steps chooseChecksumP_def agreedFlags_def agreedChecksum_def
        DefaultAlgorithms_def has_def chat_refl)
next
  case True
  obtain q where q: "emits (awrap ''negotiate algorithms'' (NegotiateAlgorithmsP SupportedDigests []) ()) digestList q"
    "absorbs q digestList (Ret (Inr \<lparr>algChecksum = str ''md5'', algCompress = []\<rparr>, ()))"
    by (rule negotiate_turns)
  let ?N = "awrap ''negotiate algorithms'' (NegotiateAlgorithmsP SupportedDigests []) :: algorithms sact"
  have a: "agreedFlags 30 = agreedFlags v" using True by (simp add: agreedFlags_def)
  have fl: "has (agreedFlags v) CompatVarintFlistFlags" using True by (simp add: agreed_has)
  have 1: "chat (abnd (clientNegotiateP v) f ()) (abnd (serverCompatP v (clientArgs cl v)) (\<lambda>fl. abnd (chooseChecksumP fl v) (h fl)) ())
      (abnd ?N (\<lambda>algos. f (agreedFlags v, algChecksum algos)) ()) (abnd (chooseChecksumP (agreedFlags v) v) (h (agreedFlags v)) ())"
  proof (rule chat_answer)
    show "emits (abnd (serverCompatP v (clientArgs cl v)) (\<lambda>fl. abnd (chooseChecksumP fl v) (h fl)) ()) (WriteCompatFlags (agreedFlags v) v)
        (abnd (chooseChecksumP (agreedFlags v) v) (h (agreedFlags v)) ())"
      using True unfolding serverCompatP_def Let_def clientArgs_info [OF True] resolve_agreed a
      by (simp add: abnd_assoc) (rule emits_write_last, simp add: act_steps)
    show "absorbs (abnd (clientNegotiateP v) f ()) (WriteCompatFlags (agreedFlags v) v) (abnd ?N (\<lambda>algos. f (agreedFlags v, algChecksum algos)) ())"
      using True unfolding clientNegotiateP_def
      by (simp add: abnd_assoc) (rule absorbs_last, rule absorbs_ard, rule reads_wrapping, rule reads_compat [OF True], simp add: fl abnd_assoc act_steps)
  qed
  have n: "chat (?N ()) (?N ()) (Ret (Inr \<lparr>algChecksum = str ''md5'', algCompress = []\<rparr>, ())) (Ret (Inr \<lparr>algChecksum = str ''md5'', algCompress = []\<rparr>, ()))"
    by (rule chat_cross [OF q(1) q(1) q(2) q(2)])
  have "chooseChecksumP (agreedFlags v) v = abnd ?N (\<lambda>algos. aret (algChecksum algos))" using fl by (simp add: chooseChecksumP_def)
  then have 2: "chat (abnd ?N (\<lambda>algos. f (agreedFlags v, algChecksum algos)) ()) (abnd (chooseChecksumP (agreedFlags v) v) (h (agreedFlags v)) ())
      (f (agreedFlags v, agreedChecksum v) ()) (h (agreedFlags v) (agreedChecksum v) ())"
    using True by (simp only: abnd_assoc) (rule chat_bnd, rule n, simp add: act_steps agreedChecksum_def chat_refl)
  show ?thesis by (rule chat_trans [OF 1 2])
qed

text \<open>The handshake up to the seed.\<close>

lemma sendSeedP_result:
  "abnd (sendSeedP v seed) f =
    abnd (if v < 23 then abnd aswOut (\<lambda>_. awr (WriteChecksumSeed seed)) else awr (WriteChecksumSeed seed))
      (\<lambda>_. f (if v < 23 then Some (snd (Write (NewWriter []) (WriteChecksumSeed seed))) else None))"
  by (simp add: sendSeedP_def abnd_assoc act_steps)

lemma handshake_chat:
  assumes ok: "compatible cl g modules challenge m v sub digest hash"
  shows "chat (runHandshakeP (Suc (Suc n)) H cl ()) (doHandshakeP g modules (Inr challenge) seedRand now ())
    (abnd (clientSeedP v) (\<lambda>seed. abnd (awr (WriteInt32 0)) (\<lambda>_. aret (agreedSession H cl v sub digest seed))) ())
    (abnd (sendSeedP v (chooseSeed seedRand now)) (\<lambda>_. aret (Some (agreedResult m v (chooseSeed seedRand now)))) ())"
proof -
  note k = ok [unfolded compatible_def]
  have p: "ExtractPreserveFlags (clientArgs cl v) = (True, True, False)" using clientArgs_preserve k by blast
  have n: "Negotiate (ApplyDefaults (cGreeting cl)) (ApplyDefaults g) = Inr (v, sub, digest)" using k by blast
  have a: "has (agreedFlags v) CompatVarintFlistFlags \<longleftrightarrow> 30 \<le> v" "has (agreedFlags v) CompatChksumSeedFix \<longleftrightarrow> 30 \<le> v"
    "has (agreedFlags v) CompatId0Names \<longleftrightarrow> False"
    using agreed_has by simp_all
  show ?thesis
    unfolding runHandshakeP_def Let_def doHandshakeP_def
    apply (rule chat_trans, rule greet_chat) using k apply blast using k apply blast apply (rule n)
    unfolding n sum.case prod.case
    apply (rule chat_trans, rule module_chat) using k apply blast using k apply blast using k apply blast
    unfolding option.case admitP_def abnd_assoc
    apply (rule chat_trans, rule auth_chat) using k apply blast
    apply (rule chat_trans, rule args_chat) using k apply blast
    apply (rule chat_trans, rule negotiate_chat)
    unfolding p prod.case a act_steps sendSeedP_result agreedSession_def agreedResult_def
    by (rule chat_refl)
qed

section \<open>The switch\<close>

lemma switch_acts: "abnd aswIn g s = SwIn (g () s)" "abnd aswOut g s = SwOut (g () s)"
  by (simp_all add: abnd_def atry_def aswIn_def aswOut_def)

definition clientLink :: "int \<Rightarrow> link" where
  "clientLink v = (if 30 \<le> v then Framed else Plain)"

lemma reads_seed: "reads (wrapping msg ReadChecksumSeed) (WriteChecksumSeed seed) seed"
  unfolding ReadChecksumSeed_def WriteChecksumSeed_def by (rule reads_wrapping, rule reads_ints(1))

lemma switch_talk:
  fixes F :: "i32 \<Rightarrow> 'a sact" and T :: "'b prog"
  assumes q: "\<exists>f. T = Rd f"
  shows "talk_step\<^sup>*\<^sup>*
    ((abnd (clientSeedP v) F (), Plain, []),
     (if v < 23 then SwOut (Wr (WriteChecksumSeed seed) T)
      else Wr (WriteChecksumSeed seed) (SwOut (if 30 \<le> v then SwIn T else T)), Plain, []))
    ((F seed (), clientLink v, []), (T, Framed, []))"
proof -
  let ?s = "WriteChecksumSeed seed"
  let ?rd = "ard (wrapping ''read checksum seed'' ReadChecksumSeed) :: i32 sact"
  have rd: "absorbs (abnd ?rd g ()) ?s (g seed ())" for g :: "i32 \<Rightarrow> 'a sact"
    by (rule absorbs_last, rule absorbs_ard, rule reads_seed) (rule refl)
  have say: "talk_step (c, (Wr ?s p, l, [])) (c, (p, l, ?s))" if "l = Plain \<or> l = Framed \<and> (\<exists>f. p = Rd f)"
    for c :: "((go_error + 'a) \<times> unit) prog \<times> link \<times> byte list" and p :: "'b prog" and l
  proof -
    have "says l (Wr ?s p) ?s p" using emits_Wr [OF emits_refl, of ?s p] that by (auto simp: says_def)
    from talk_step.d_say [OF this, of c "[]"] show ?thesis by simp
  qed
  note step = converse_rtranclp_into_rtranclp [where r = talk_step]
  consider (old) "v < 23" | (mid) "23 \<le> v" "v < 30" | (new) "30 \<le> v" by linarith
  then show ?thesis
  proof cases
    case old
    have c: "abnd (clientSeedP v) F () = SwIn (abnd ?rd F ())"
      using old unfolding clientSeedP_def by (simp add: act_steps abnd_assoc) (simp add: switch_acts)
    have 1: "talk_step ((SwIn (abnd ?rd F ()), Plain, []), (SwOut (Wr ?s T), Plain, [])) ((SwIn (abnd ?rd F ()), Plain, []), (Wr ?s T, WriterAhead, []))"
      using talk_step.d_out [of Plain] by simp
    have 2: "talk_step ((SwIn (abnd ?rd F ()), Plain, []), (Wr ?s T, WriterAhead, [])) ((abnd ?rd F (), Plain, []), (Wr ?s T, Framed, []))"
      using talk_step.c_in [of WriterAhead] by simp
    have 3: "talk_step ((abnd ?rd F (), Plain, []), (Wr ?s T, Framed, [])) ((abnd ?rd F (), Plain, []), (T, Framed, ?s))"
      using q by (intro say) simp
    have 4: "talk_step ((abnd ?rd F (), Plain, []), (T, Framed, ?s)) ((F seed (), Plain, []), (T, Framed, []))"
      using talk_step.c_hear [OF rd [of F], of Framed Plain "[]" T "[]"] by simp
    show ?thesis using old unfolding c by (simp add: clientLink_def) (intro step [OF 1] step [OF 2] step [OF 3] step [OF 4] rtranclp.rtrancl_refl)
  next
    case mid
    let ?c = "abnd ?rd (\<lambda>seed. abnd aswIn (\<lambda>_. F seed)) ()"
    have c: "abnd (clientSeedP v) F () = ?c" using mid by (simp add: clientSeedP_def act_steps abnd_assoc)
    have 1: "talk_step ((?c, Plain, []), (Wr ?s (SwOut T), Plain, [])) ((?c, Plain, []), (SwOut T, Plain, ?s))"
      by (intro say) simp
    have 2: "talk_step ((?c, Plain, []), (SwOut T, Plain, ?s)) ((SwIn (F seed ()), Plain, []), (SwOut T, Plain, []))"
      using talk_step.c_hear [OF rd [of "\<lambda>seed. abnd aswIn (\<lambda>_. F seed)"], of Plain Plain "[]" "SwOut T" "[]"] by (simp add: switch_acts)
    have 3: "talk_step ((SwIn (F seed ()), Plain, []), (SwOut T, Plain, [])) ((F seed (), Plain, []), (SwOut T, ReaderAhead, []))"
      using talk_step.c_in [of Plain] by simp
    have 4: "talk_step ((F seed (), Plain, []), (SwOut T, ReaderAhead, [])) ((F seed (), Plain, []), (T, Framed, []))"
      using talk_step.d_out [of ReaderAhead] by simp
    show ?thesis using mid unfolding c by (simp add: clientLink_def) (intro step [OF 1] step [OF 2] step [OF 3] step [OF 4] rtranclp.rtrancl_refl)
  next
    case new
    let ?c = "abnd ?rd (\<lambda>seed. abnd aswIn (\<lambda>_. F seed)) ()" and ?d = "SwOut (SwIn T)"
    have c: "abnd (clientSeedP v) F () = SwOut ?c"
      using new unfolding clientSeedP_def by (simp add: act_steps abnd_assoc) (simp add: switch_acts)
    have 0: "talk_step ((SwOut ?c, Plain, []), (Wr ?s ?d, Plain, [])) ((?c, WriterAhead, []), (Wr ?s ?d, Plain, []))"
      using talk_step.c_out [of Plain] by simp
    have 1: "talk_step ((?c, WriterAhead, []), (Wr ?s ?d, Plain, [])) ((?c, WriterAhead, []), (?d, Plain, ?s))"
      by (intro say) simp
    have 2: "talk_step ((?c, WriterAhead, []), (?d, Plain, ?s)) ((SwIn (F seed ()), WriterAhead, []), (?d, Plain, []))"
      using talk_step.c_hear [OF rd [of "\<lambda>seed. abnd aswIn (\<lambda>_. F seed)"], of Plain WriterAhead "[]" ?d "[]"] by (simp add: switch_acts)
    have 3: "talk_step ((SwIn (F seed ()), WriterAhead, []), (?d, Plain, [])) ((F seed (), WriterAhead, []), (?d, ReaderAhead, []))"
      using talk_step.c_in [of Plain] by simp
    have 4: "talk_step ((F seed (), WriterAhead, []), (?d, ReaderAhead, [])) ((F seed (), WriterAhead, []), (SwIn T, Framed, []))"
      using talk_step.d_out [of ReaderAhead] by simp
    have 5: "talk_step ((F seed (), WriterAhead, []), (SwIn T, Framed, [])) ((F seed (), Framed, []), (T, Framed, []))"
      using talk_step.d_in [of WriterAhead] by simp
    show ?thesis using new unfolding c
      by (simp add: clientLink_def) (intro step [OF 0] step [OF 1] step [OF 2] step [OF 3] step [OF 4] step [OF 5] rtranclp.rtrancl_refl)
  qed
qed

section \<open>The whole connection\<close>

lemma waits_sender: "\<exists>f. doServerSenderP fuel fsRead listing st () = Rd f"
  unfolding doServerSenderP_def by (rule waits_ard)

lemma connection_completes:
  assumes seed: "seed = chooseSeed seedRand now"
    and comp: "compatible cl g modules challenge m v sub digest hash"
    and op: "meet (clientLink v) (Wr (WriteInt32 0) (op (session.truncate (agreedSession H cl v sub digest seed)) (NewNdxState, NewNdxState)))
        (doServerSenderP fuel (fsRead m) (listing m v) (transferOf H (agreedResult m v seed)) ()) (Ret (res, nm)) (Ret (Inr (), ()))"
  shows "completes (operateP (Suc (Suc n)) H cl op)
    (HandleConnectionP fuel H g modules (Inr challenge) seedRand now fsRead listing ()) res (Inr (), ())"
proof -
  let ?r = "agreedResult m v seed" and ?se = "agreedSession H cl v sub digest"
  let ?T = "doServerSenderP fuel (fsRead m) (listing m v) (transferOf H ?r) ()"
  let ?F = "\<lambda>seed. abnd (awr (WriteInt32 0)) (\<lambda>_. aret (?se seed)) :: full_session sact"
  let ?D = "abnd (sendSeedP v seed) (\<lambda>_. aret (Some ?r)) ()"
  let ?K = "\<lambda>(res, _). case res of Inl err \<Rightarrow> Ret (Inl err)
      | Inr se \<Rightarrow> thenP (op (session.truncate se) (NewNdxState, NewNdxState)) (\<lambda>(r, _). Ret r)"
  let ?G = "\<lambda>(res, s). case res of Inl err \<Rightarrow> afail err s | Inr r \<Rightarrow> (case r of None \<Rightarrow> aret () | Some r \<Rightarrow>
          abnd (startTransferP r) (\<lambda>_. doServerSenderP fuel (fsRead (rModule r)) (listing (rModule r) (rVer r)) (transferOf H r))) s"
  have c: "operateP (Suc (Suc n)) H cl op = thenP (runHandshakeP (Suc (Suc n)) H cl ()) ?K"
    by (simp add: operateP_def)
  have d: "HandleConnectionP fuel H g modules (Inr challenge) seedRand now fsRead listing () =
      thenP (doHandshakeP g modules (Inr challenge) seedRand now ()) ?G"
    unfolding HandleConnectionP_def abnd_def [of "doHandshakeP _ _ _ _ _"] atry_def
    by (rule arg_cong [where f = "thenP _"]) (auto simp: fun_eq_iff split: sum.splits)
  have 1: "talk_step\<^sup>*\<^sup>* ((operateP (Suc (Suc n)) H cl op, Plain, []),
       (HandleConnectionP fuel H g modules (Inr challenge) seedRand now fsRead listing (), Plain, []))
      ((thenP (abnd (clientSeedP v) ?F ()) ?K, Plain, []), (thenP ?D ?G, Plain, []))"
    unfolding c d seed by (rule talk_thenP, rule handshake_chat [OF comp, unfolded chat_def])
  have D: "thenP ?D ?G = (if v < 23 then SwOut (Wr (WriteChecksumSeed seed) ?T)
      else Wr (WriteChecksumSeed seed) (SwOut (if 30 \<le> v then SwIn ?T else ?T)))"
    unfolding sendSeedP_result
    by (auto simp: abnd_def atry_def awr_def aswOut_def aret_def startTransferP_def agreedResult_def aswIn_def)
  have 2: "talk_step\<^sup>*\<^sup>* ((thenP (abnd (clientSeedP v) ?F ()) ?K, Plain, []), (thenP ?D ?G, Plain, []))
      ((thenP (?F seed ()) ?K, clientLink v, []), (?T, Framed, []))"
    using talk_thenP [where k = ?K and h = Ret, OF switch_talk [where v = v and F = ?F and seed = seed and T = ?T, OF waits_sender]]
    unfolding D thenP_Ret .
  have F: "thenP (?F seed ()) ?K = Wr (WriteInt32 0) (thenP (op (session.truncate (?se seed)) (NewNdxState, NewNdxState)) (\<lambda>(r, _). Ret r))"
    by (simp add: act_simps)
  have 3: "talk_step\<^sup>*\<^sup>* ((thenP (?F seed ()) ?K, clientLink v, []), (?T, Framed, [])) ((Ret res, clientLink v, []), (Ret (Inr (), ()), Framed, []))"
    using meet_client [OF op, of "\<lambda>(r, _). Ret r"] unfolding F by (simp add: meet_def)
  from rtranclp_trans [OF 1 rtranclp_trans [OF 2 3]] show ?thesis by (rule talk_completes)
qed

text \<open>What the module must be like for the negotiated version; the rest the handshake provides.\<close>

definition module_ready :: "int \<Rightarrow> i64 \<times> i32 \<Rightarrow> (gostring \<Rightarrow> go_error + gostring) option \<Rightarrow> walk_info list \<Rightarrow> bool" where
  "module_ready v now readLink infos \<longleftrightarrow>
     infos \<noteq> [] \<and> distinct (map ipath infos) \<and> (\<forall>i\<in>set infos. valid_name (ipath i)) \<and>
     length infos < 2 ^ 31 \<and> (\<forall>i\<in>set infos. servable v (walkEntry now readLink i))"

lemma module_ready_served:
  assumes "module_ready v now readLink infos"
  shows "module_served (transferOf H (agreedResult m v seed)) (session.truncate (agreedSession H cl v sub digest seed)) now readLink infos"
  using assms agreed_fits [of H m v seed cl sub digest]
  by (simp add: module_served_def module_ready_def transferOf_def agreedResult_def)

lemma truncate_session [simp]: "shashes (session.truncate se) = shashes se" "sversion (session.truncate se) = sversion se"
  by (simp_all add: session.truncate_def)

lemma clientLink_ok: "clientLink v = Plain \<or> clientLink v = Framed"
  by (simp add: clientLink_def)

lemma ready_served:
  assumes "module_ready v now' readLink infos" "info \<in> set infos"
  obtains es i where "walk v now' readLink (Inr infos) = Inr es" "i < length es" "es ! i = walkEntry now' readLink info"
    "set es = set (map (walkEntry now' readLink) infos)"
    "\<forall>H m seed cl sub digest. served (transferOf H (agreedResult m v seed)) (session.truncate (agreedSession H cl v sub digest seed)) es"
proof -
  have v: "ver (transferOf H (agreedResult m v seed)) = v" for H m seed by (simp add: transferOf_def agreedResult_def)
  obtain es i where es: "walk v now' readLink (Inr infos) = Inr es" "i < length es" "es ! i = walkEntry now' readLink info"
      "set es = set (map (walkEntry now' readLink) infos)"
    using module_servedE [OF module_ready_served [OF assms(1)] assms(2), unfolded v] by metis
  have "served (transferOf H (agreedResult m v seed)) (session.truncate (agreedSession H cl v sub digest seed)) es" for H m seed cl sub digest
    using module_servedE [OF module_ready_served [OF assms(1)] assms(2), unfolded v] es(1) by (metis sum.inject(2))
  with es show ?thesis by (intro that) blast+
qed

lemma maxPhase_le: "maxPhase v \<le> 2"
  by (simp add: maxPhase_def)

lemma open_connection:
  assumes comp: "compatible cl g modules challenge m v sub digest hash" and H: "hashes_ok H"
    and ready: "module_ready v now' readLink infos" "listing m v = walk v now' readLink (Inr infos)" "info \<in> set infos"
    and reg: "modeIsRegular (imode info)" "fsRead m (ipath info) = Inr data" "valid (ipath info)"
    and fuel: "4 \<le> fuel"
  shows "completes (operateP (Suc (Suc n)) H cl (\<lambda>se. OpenP valid se (ipath info)))
    (HandleConnectionP fuel H g modules (Inr challenge) seedRand now fsRead listing ())
    (Inr (RegularFile (flistInfo (baseName (ipath info)) (clientView v (walkEntry now' readLink info))) data)) (Inr (), ())"
proof -
  define seed where "seed = chooseSeed seedRand now"
  let ?st = "transferOf H (agreedResult m v seed)" and ?se = "session.truncate (agreedSession H cl v sub digest seed)"
  obtain es i where es: "walk v now' readLink (Inr infos) = Inr es" "i < length es" "es ! i = walkEntry now' readLink info"
      "set es = set (map (walkEntry now' readLink) infos)"
      "\<forall>H m seed cl sub digest. served (transferOf H (agreedResult m v seed)) (session.truncate (agreedSession H cl v sub digest seed)) es"
    by (rule ready_served [OF ready(1,3)])
  have h: "hashes_ok (shashes ?se)" "ver ?st = v" using H by (simp_all add: agreedSession_def transferOf_def agreedResult_def)
  obtain nm where "meet (clientLink v) (listProg (consumeP (withEntryP ?se (fname (es ! i)) (openFileFromContextP ?se))))
      (doServerSenderP fuel (fsRead m) (Inr es) ?st ())
      (Ret (Inr (RegularFile (flistInfo (baseName (fname (es ! i))) (clientView (ver ?st) (es ! i))) data), nm)) (Ret (Inr (), ()))"
    using open_meet [where fsRead = "fsRead m" and data = data and fuel = fuel and l = "clientLink v" and st = ?st and se = ?se,
        OF clientLink_ok es(5) [rule_format] es(2) h(1) agreed_checksum] reg es(3) fuel maxPhase_le [of v] h(2) by auto
  then have "meet (clientLink v) (listProg (OpenP valid ?se (ipath info))) (doServerSenderP fuel (fsRead m) (listing m v) ?st ())
      (Ret (Inr (RegularFile (flistInfo (baseName (ipath info)) (clientView v (walkEntry now' readLink info))) data), nm)) (Ret (Inr (), ()))"
    using es(1,3) ready(2) reg(3) h(2) by (simp add: OpenP_def)
  from connection_completes [where op = "\<lambda>se. OpenP valid se (ipath info)" and fsRead = fsRead and listing = listing, OF seed_def comp this]
  show ?thesis .
qed

lemma lookup_connection:
  assumes comp: "compatible cl g modules challenge m v sub digest hash"
    and ready: "module_ready v now' readLink infos" "listing m v = walk v now' readLink (Inr infos)" "info \<in> set infos"
    and op: "\<And>se. op se = consumeP (withEntryP se (ipath info) (fn se))"
      "\<And>se es ndx s. fn se \<lparr>ctxEntries = es, ctxEntry = clientView v (walkEntry now' readLink info), ctxNdx = ndx, ctxName = ipath info\<rparr> s = Ret (res, s)"
    and fuel: "4 \<le> fuel"
  shows "completes (operateP (Suc (Suc n)) H cl op)
    (HandleConnectionP fuel H g modules (Inr challenge) seedRand now fsRead listing ()) res (Inr (), ())"
proof -
  define seed where "seed = chooseSeed seedRand now"
  let ?st = "transferOf H (agreedResult m v seed)" and ?se = "session.truncate (agreedSession H cl v sub digest seed)"
  obtain es i where es: "walk v now' readLink (Inr infos) = Inr es" "i < length es" "es ! i = walkEntry now' readLink info"
      "set es = set (map (walkEntry now' readLink) infos)"
      "\<forall>H m seed cl sub digest. served (transferOf H (agreedResult m v seed)) (session.truncate (agreedSession H cl v sub digest seed)) es"
    by (rule ready_served [OF ready(1,3)])
  have h: "ver ?st = v" by (simp add: transferOf_def agreedResult_def)
  have "meet (clientLink v) (listProg (consumeP (withEntryP ?se (fname (es ! i)) (fn ?se)))) (doServerSenderP fuel (fsRead m) (Inr es) ?st ())
      (Ret (res, (NewNdxState, NewNdxState))) (Ret (Inr (), ()))"
    by (rule idle_meet [OF clientLink_ok es(5) [rule_format] es(2)]) (use es(3) op(2) fuel maxPhase_le [of v] h in simp_all)
  then have "meet (clientLink v) (listProg (op ?se)) (doServerSenderP fuel (fsRead m) (listing m v) ?st ())
      (Ret (res, (NewNdxState, NewNdxState))) (Ret (Inr (), ()))"
    using es(1,3) ready(2) op(1) by simp
  from connection_completes [where op = op and fsRead = fsRead and listing = listing, OF seed_def comp this] show ?thesis .
qed

lemma missing_connection:
  assumes comp: "compatible cl g modules challenge m v sub digest hash"
    and ready: "module_ready v now' readLink infos" "listing m v = walk v now' readLink (Inr infos)" "name \<notin> ipath ` set infos"
    and op: "\<And>se. op se = consumeP (withEntryP se name (fn se))"
    and fuel: "4 \<le> fuel"
  shows "completes (operateP (Suc (Suc n)) H cl op)
    (HandleConnectionP fuel H g modules (Inr challenge) seedRand now fsRead listing ())
    (Inl (Errorf ''file does not exist'')) (Inr (), ())"
proof -
  define seed where "seed = chooseSeed seedRand now"
  let ?st = "transferOf H (agreedResult m v seed)" and ?se = "session.truncate (agreedSession H cl v sub digest seed)"
  have h: "ver ?st = v" by (simp add: transferOf_def agreedResult_def)
  obtain info where "info \<in> set infos" using ready(1) by (cases infos) (auto simp: module_ready_def)
  from ready_served [OF ready(1) this] obtain es where es: "walk v now' readLink (Inr infos) = Inr es"
      "set es = set (map (walkEntry now' readLink) infos)" "served ?st ?se es"
    by metis
  have "meet (clientLink v) (listProg (consumeP (withEntryP ?se name (fn ?se)))) (doServerSenderP fuel (fsRead m) (Inr es) ?st ())
      (Ret (Inl (Errorf ''file does not exist''), (NewNdxState, NewNdxState))) (Ret (Inr (), ()))"
    by (rule missing_meet [OF clientLink_ok es(3)]) (use es(2) ready(3) fuel maxPhase_le [of v] h in auto)
  then have "meet (clientLink v) (listProg (op ?se)) (doServerSenderP fuel (fsRead m) (listing m v) ?st ())
      (Ret (Inl (Errorf ''file does not exist''), (NewNdxState, NewNdxState))) (Ret (Inr (), ()))"
    using es(1) ready(2) op by simp
  from connection_completes [where op = op and fsRead = fsRead and listing = listing, OF seed_def comp this] show ?thesis .
qed

end
