(* ===== verification/Spec2Isabelle.thy ===== *)
theory Spec2Isabelle
  imports Buf_Pipe Client_Files Connection_Runs
begin

text \<open>
  A verification development for go-rsyncfs, a Go library with an rsync client that presents
  daemon modules as an \<^verbatim>\<open>io/fs\<close> file system, and an rsync daemon that serves an \<^verbatim>\<open>fs.FS\<close>. Paths
  below are relative to \<^verbatim>\<open>src/\<close>.

  \<^bold>\<open>The program.\<close> A connection has two parts. In the handshake the two sides exchange
  greetings (\<^verbatim>\<open>protocol/greet.go\<close>), the client names a module, authenticates and sends its
  arguments, and both agree on flags, a checksum and a seed (\<^verbatim>\<open>protocol/handshake.go\<close>,
  \<^verbatim>\<open>server-handshake.go\<close>, \<^verbatim>\<open>client-connect.go\<close>). In the transfer (\<^verbatim>\<open>server-send.go\<close>,
  \<^verbatim>\<open>client-open.go\<close>) the daemon walks the module and sends a sorted, delta-encoded file list
  (\<^verbatim>\<open>protocol/flist.go\<close>); the client asks for a file by its index in that list
  (\<^verbatim>\<open>protocol/selector.go\<close>) and gets it as a delta stream (\<^verbatim>\<open>protocol/delta.go\<close>) with a
  whole-file checksum (\<^verbatim>\<open>protocol/checksum.go\<close>); both count through the phases, exchange
  statistics and say goodbye. From the transfer on the bytes travel in frames
  (\<^verbatim>\<open>protocol/mux/mux.go\<close>). \<^verbatim>\<open>pipe.go\<close> is an in-memory transport.

  \<^bold>\<open>Theories and what they model.\<close>
  \<^item> \<open>Rsync_Prelude\<close>: errors, byte sources, readers as state-passing computations, and the
    locales \<open>codec\<close>, \<open>strict_codec\<close> and their stateful counterparts, which give the round trip
    of a stream of values and that no strict prefix of a message is read as one. The message
    and list formats below interpret them.
  \<^item> \<open>Wire_Ints\<close>, \<open>Ndx_Codec\<close> (\<^verbatim>\<open>protocol/wireint.go\<close>), \<open>Vstring_Args\<close> (\<^verbatim>\<open>vstring.go\<close>,
    \<^verbatim>\<open>args.go\<close>), \<open>Selector_Codec\<close>, \<open>Checksums\<close>, \<open>Delta_Stream\<close>, \<open>Protocol_Constants\<close>: the codecs.
  \<^item> \<open>Mux_Frames\<close>: the frame writer and reader as state machines over a transport; a reader
    refines the plain byte source of its payload (\<open>demux\<close>).
  \<^item> \<open>Flist_Codec\<close>: reader and writer of file list entries with their delta state.
  \<^item> \<open>Flist_Sort\<close>: the name order of both protocol generations, the daemon's sort and the
    client's recomputation of indices.
  \<^item> \<open>Delta_Match\<close>: block sums, hash table and rolling search of the daemon.
  \<^item> \<open>Server_Send\<close>: the daemon's transfer; \<open>Client_Transfer\<close>: the client's transfer and the
    operations \<^verbatim>\<open>Open\<close>, \<^verbatim>\<open>Lstat\<close>, \<^verbatim>\<open>ReadLink\<close> on one connection.
  \<^item> \<open>Session_Exchange\<close>: client and daemon run on each other's output (\<open>exchange\<close>).
  \<^item> \<open>Go_Text\<close>: what the source uses of \<^verbatim>\<open>strings\<close>, \<^verbatim>\<open>strconv\<close> and \<^verbatim>\<open>encoding/base64\<close>.
  \<^item> \<open>Greeting\<close>, \<open>Handshake\<close>: greeting and handshake messages; \<open>Server_Handshake\<close> (with
    \<^verbatim>\<open>server.go\<close>) and \<open>Client_Connect\<close> (with \<^verbatim>\<open>client.go\<close>): the two sides;
    \<open>Handshake_Exchange\<close>: the two sides against each other, and a whole connection.
  \<^item> \<open>Client_Session\<close>: a session over several connections, the module listing and root mode.
  \<^item> \<open>Client_Files\<close>: the files, directory entries and file informations the client hands out.
  \<^item> \<open>Buf_Pipe\<close>: the bounded pipe with its condition variable, and a step relation for its
    concurrent users.
  \<^item> \<open>Interaction\<close>, \<open>Dialogue\<close>: programs of reads, writes and flushes, the step relation of two of
    them over one transport, and how one conversation that ends settles all interleavings.
    \<open>Transfer_Programs\<close>, \<open>Handshake_Programs\<close>: both sides of a connection as such programs;
    \<open>Lockstep\<close>, \<open>Connection_Runs\<close>: their conversation, turn by turn.
  \<^item> This theory: the properties that span components.

  \<^bold>\<open>How the code is represented.\<close> A reader of the source is a computation on a byte source, which
  is the bytes that will arrive and the error after the last; it returns an error or a value
  and the rest of the source. A writer is the bytes it hands to its \<^verbatim>\<open>io.Writer\<close>; transport
  writes do not fail. Functions that read and write run on a connection with both. Structs
  are records; \<^verbatim>\<open>int32\<close>, \<^verbatim>\<open>int64\<close> and unsigned integers are words, Go \<^verbatim>\<open>int\<close>s are integers
  where they cannot overflow. Errors are values, a run-time panic is the value \<open>Panic\<close>. On an
  error a reader's own state is not returned; the code never uses it after one. The transfer
  works on payload streams: that framing is transparent is a theorem about \<open>Mux_Frames\<close>, and
  \<open>connection_opens_file\<close> puts the two together. MD4 and MD5, the module's file system, the
  authentication functions, \<^verbatim>\<open>ConnectFunc\<close>, random numbers and the clock are parameters; a
  property that needs something of them says so (\<open>hashes_ok\<close>: sixteen-byte digests).

  For the questions that depend on when bytes reach the peer there is a second representation
  of the same code: a program is a tree of its actions in the order of the source. Its output
  goes to the frame buffer once its writer multiplexes, and reaches the peer when it is flushed
  (\<^verbatim>\<open>flush\<close>, and \<^verbatim>\<open>flushBeforeRead\<close> ahead of every read). The lemmas \<open>daemon_connection\<close>,
  \<open>client_connection\<close> and \<open>client_program\<close> show that the two representations agree.

  \<^bold>\<open>What is shown.\<close>
  \<^item> End to end: for a compatible client and daemon the handshake succeeds and agrees
    (\<open>handshake_agrees\<close>), and after it \<^verbatim>\<open>Open\<close>, \<^verbatim>\<open>Lstat\<close> and \<^verbatim>\<open>ReadLink\<close> give what the daemon's
    file system holds, as far as the list carries it (special files arrive as regular ones),
    directories list exactly their children, missing paths are reported, and in all cases both
    sides finish cleanly with nothing left unread.
  \<^item> No deadlock: with both sides running concurrently over one transport, every interleaving
    of a connection is finite and ends with that result, for every protocol version
    (\<open>open_never_deadlocks\<close>, \<open>lookups_never_deadlock\<close>).
  \<^item> Open files: the type a file or an entry reports is what can be done with it
    (\<open>file_types\<close>), and paging through a directory gives every entry once.
  \<^item> Safety against any peer: no transfer without authentication (\<open>auth_required\<close>), no data
    without its checksum (\<open>pull_verified\<close>), what an accepted file list entry or sum head
    satisfies, and which inputs make the code panic.
  \<^item> Codecs: round trips of streams, with exact conditions.
  \<^item> Algorithms: the client's index is the daemon's (\<open>index_agreement\<close>), the delta rebuilds the
    file, the rolling checksum is the plain one, the hash table is a linear search, and the
    version agreed on is the newest both sides offer (\<open>negotiate_sound\<close>).
  \<^item> Liveness: the selector loop returns on every input; no wake-up of a pipe user is lost, and
    in every schedule of a writer and a reader everything written is delivered.

  \<^bold>\<open>Termination and bounds.\<close> Loops that read terminate because each turn consumes input; they
  are total functions with the number of available bytes as measure. The daemon's selector
  loop is the one with fuel, and \<open>selector_loop_returns\<close> shows that one turn per available byte
  and one more is enough. As programs, that loop and the client's loop over authentication
  challenges have fuel: those lemmas hold for every sufficiently large one, and a
  compatible connection needs four turns of the first and two of the second. File lists have
  fewer than \<open>2 ^ 31\<close> entries, since an index is an \<^verbatim>\<open>int32\<close>.

  \<^bold>\<open>Not modelled.\<close> \<^verbatim>\<open>doc.go\<close> has no code. Closing connections, the text of error messages and
  logging are left out. In the concurrent runs the transport has unbounded room and its
  writes do not fail, and a program takes a message from its input in one step, once all of
  it is there; the bounded transport with partial reads and writes is \<open>Buf_Pipe\<close>, on its own.
\<close>


section \<open>A small module\<close>

definition demoInfo :: "string \<Rightarrow> u32 \<Rightarrow> walk_info" where
  "demoInfo path mode =
    \<lparr>ipath = str path, imode = mode, isize = 3, izero = False, isec = 5, insec = 7, isys = None\<rparr>"

definition demoInfos :: "walk_info list" where
  "demoInfos = [demoInfo ''.'' (ModeDir OR 0x1ED), demoInfo ''a'' (ModeDir OR 0x1ED), demoInfo ''a/x'' 0x1A4,
     demoInfo ''l'' (ModeSymlink OR 0x1FF)]"

definition demoLink :: "(gostring \<Rightarrow> go_error + gostring) option" where
  "demoLink = Some (\<lambda>_. Inr (str ''a/x''))"

definition demoDigests :: hashes where
  "demoDigests = \<lparr>md4 = (\<lambda>x. take 16 (x @ replicate 16 1)), md5 = (\<lambda>x. take 16 (x @ replicate 16 2))\<rparr>"

definition demoSession :: session where
  "demoSession = \<lparr>sversion = 31, shashes = demoDigests, schecksum = str ''md5'', sseed = 9, svarintFlist = True, sid0Names = False\<rparr>"

definition demoState :: transfer_state where
  "demoState = \<lparr>ver = 31, tconf = \<lparr>hashFns = demoDigests, digestName = str ''md5'', hseed = 9, hseedFix = True\<rparr>,
     varint = True, tid0Names = False, tpreserve = (True, True), tpreserveLinks = True, tpreserveDevices = True,
     tpreserveHlinks = False, entries = []\<rparr>"

lemma demo_hashes: "hashes_ok (shashes demoSession)" "schecksum demoSession \<in> set SupportedDigests"
  by (auto simp add: min_def hashes_ok_def demoSession_def demoDigests_def SupportedDigests_def)

lemma demo_paths: "distinct (map ipath demoInfos)" "\<forall>i\<in>set demoInfos. valid_name (ipath i)"
  by (simp_all add: demoInfos_def demoInfo_def str_def valid_name_def dotName_def slash_def)

lemma demo_entries: "\<forall>i\<in>set demoInfos. servable 31 (walkEntry (0, 0) demoLink i)"
  by (simp add: demoInfos_def demoInfo_def str_def servable_def walkEntry_def isRootName_def MaxPathLen_def demoLink_def
      modeType_def modeIsDir_def mode_defs)

lemma demo_served: "module_served demoState demoSession (0, 0) demoLink demoInfos"
  using demo_paths demo_entries
  by (simp add: module_served_def fits_def demoState_def demoSession_def) (simp add: demoInfos_def)

text \<open>
  C6: opening a regular file. The client's \<^verbatim>\<open>Open\<close> and the daemon, each fed with what the
  other writes, both finish without an error and with nothing left unread, and the file the
  client gets is the one the daemon's file system holds, with its metadata. The checksum
  functions give sixteen bytes; the file list is whatever the walk and the sort made of the
  module.
\<close>

theorem open_regular:
  assumes "module_served st se now readLink infos" and "info \<in> set infos"
    and "hashes_ok (shashes se)" and "schecksum se \<in> set SupportedDigests"
    and "modeIsRegular (imode info)" and "fsRead (ipath info) = Inr data" and "valid (ipath info)"
  shows "exchange fsRead (walk (ver st) now readLink (Inr infos)) st (Open valid se (ipath info))
    (Inr (RegularFile (flistInfo (baseName (ipath info)) (clientView (ver st) (walkEntry now readLink info))) data))"
  using assms by (rule exchange_open)

theorem open_regular_witness:
  "exchange (\<lambda>_. Inr (str ''hi!'')) (walk 31 (0, 0) demoLink (Inr demoInfos)) demoState (Open (\<lambda>_. True) demoSession (str ''a/x''))
    (Inr (RegularFile \<lparr>finfoName = str ''x'', finfoMode = 0x1A4, finfoSize = 3, finfoSec = 5, finfoNsec = 7\<rparr> (str ''hi!'')))"
proof -
  let ?i = "demoInfo ''a/x'' 0x1A4"
  have m: "?i \<in> set demoInfos" "modeIsRegular (imode ?i)" "ver demoState = 31" "ipath ?i = str ''a/x''"
    by (simp_all add: demoInfos_def demoInfo_def modeIsRegular_def modeType_def mode_defs demoState_def)
  have "flistInfo (baseName (str ''a/x'')) (clientView 31 (walkEntry (0, 0) demoLink ?i)) =
      \<lparr>finfoName = str ''x'', finfoMode = 0x1A4, finfoSize = 3, finfoSec = 5, finfoNsec = 7\<rparr>"
    by code_simp
  with open_regular [OF demo_served m(1) demo_hashes m(2), of "\<lambda>_. Inr (str ''hi!'')" "str ''hi!''" "\<lambda>_. True"] m(3,4)
  show ?thesis by simp
qed

text \<open>
  C8: what \<^verbatim>\<open>Lstat\<close> gives for every path of the module: the base name, the walked permissions,
  size (for a symbolic link the length of its target) and modification time, whose nanoseconds
  travel from protocol 31 on. Of the type it keeps whether the entry is a directory or a
  symbolic link: everything else, a named pipe, a socket or a device included, comes out as
  a regular file, and the setuid, setgid and sticky bits are lost.
\<close>

theorem lstat_entry:
  assumes "module_served st se now readLink infos" and "info \<in> set infos" and "valid (ipath info)"
  defines "e \<equiv> walkEntry now readLink info"
  shows "exchange fsRead (walk (ver st) now readLink (Inr infos)) st (Lstat valid se (ipath info))
    (Inr \<lparr>finfoName = baseName (ipath info),
       finfoMode = modePerm (imode info) OR
         (if modeIsDir (imode info) then ModeDir else if modeType (imode info) = ModeSymlink then ModeSymlink else 0),
       finfoSize = (if \<not> modeIsDir (imode info) \<and> modeType (imode info) = ModeSymlink
                    then word_of_nat (length (flinkTarget e)) else isize info),
       finfoSec = fmodSec e, finfoNsec = (if 31 \<le> ver st then fmodNsec e else 0)\<rparr>)"
proof -
  obtain es i where es: "walk (ver st) now readLink (Inr infos) = Inr es" "served st se es" "i < length es"
    "es ! i = e"
    unfolding e_def by (rule module_servedE [OF assms(1,2)])
  have n: "fname e = ipath info" "fmode e = imode info" "fsize e = isize info" by (simp_all add: e_def)
  have t: "LinkTarget (clientView v e) = (if \<not> modeIsDir (imode info) \<and> modeType (imode info) = ModeSymlink then flinkTarget e else [])" for v
    by (simp add: clientView_def n)
  have "exchange fsRead (Inr es) st (withEntry se (fname (es ! i))
      (\<lambda>ctx. ret (flistInfo (baseName (ctxName ctx)) (ctxEntry ctx)))) (Inr (flistInfo (baseName (ipath info)) (clientView (ver st) e)))"
    by (rule exchange_idle [OF es(2,3)]) (simp add: es(4) n)
  then show ?thesis
    using assms(3) by (simp add: Lstat_def es n flistInfo_def wireModeToFS_modeToWire t cong: if_cong)
qed

theorem lstat_entry_witness:
  "exchange (\<lambda>_. Inr []) (walk 31 (0, 0) demoLink (Inr demoInfos)) demoState (Lstat (\<lambda>_. True) demoSession (str ''l''))
    (Inr \<lparr>finfoName = str ''l'', finfoMode = ModeSymlink OR 0x1FF, finfoSize = 3, finfoSec = 5, finfoNsec = 7\<rparr>)"
proof -
  let ?i = "demoInfo ''l'' (ModeSymlink OR 0x1FF)"
  have m: "?i \<in> set demoInfos" "ver demoState = 31" "ipath ?i = str ''l''" "isize ?i = 3" "imode ?i = ModeSymlink OR 0x1FF"
    by (simp_all add: demoInfos_def demoInfo_def demoState_def)
  have "baseName (str ''l'') = str ''l''" "modePerm (ModeSymlink OR 0x1FF) = 0x1FF"
    "\<not> modeIsDir (ModeSymlink OR 0x1FF)" "modeType (ModeSymlink OR 0x1FF) = ModeSymlink"
    "flinkTarget (walkEntry (0, 0) demoLink ?i) = str ''a/x''" "fmodSec (walkEntry (0, 0) demoLink ?i) = 5"
    "fmodNsec (walkEntry (0, 0) demoLink ?i) = 7" "length (str ''a/x'') = 3"
    by code_simp+
  with lstat_entry [OF demo_served m(1), of "\<lambda>_. True" "\<lambda>_. Inr []"] m(2-) show ?thesis
    by (simp add: or.commute)
qed

text \<open>
  C9: \<^verbatim>\<open>ReadLink\<close> gives the target of a symbolic link as the daemon's file system reported it,
  and an error for every other kind of entry; the session ends cleanly in both cases.
\<close>

theorem readlink_entry:
  assumes "module_served st se now readLink infos" and "info \<in> set infos" and "valid (ipath info)"
  shows "exchange fsRead (walk (ver st) now readLink (Inr infos)) st (ReadLink valid se (ipath info))
    (if \<not> modeIsDir (imode info) \<and> modeType (imode info) = ModeSymlink
     then Inr (flinkTarget (walkEntry now readLink info)) else Inl (Errorf ''not a symlink''))"
proof -
  let ?e = "walkEntry now readLink info"
  obtain es i where es: "walk (ver st) now readLink (Inr infos) = Inr es" "served st se es" "i < length es"
    "es ! i = ?e"
    by (rule module_servedE [OF assms(1,2)])
  have "exchange fsRead (Inr es) st (withEntry se (fname (es ! i))
      (\<lambda>ctx. if \<not> wireModeIsSymlink (Mode (ctxEntry ctx)) then fail (Errorf ''not a symlink'')
             else ret (LinkTarget (ctxEntry ctx))))
      (if \<not> modeIsDir (imode info) \<and> modeType (imode info) = ModeSymlink
       then Inr (flinkTarget ?e) else Inl (Errorf ''not a symlink''))"
    by (rule exchange_idle [OF es(2,3)]) (simp add: es(4) clientView_def [of _ ?e] toWire_def)
  then show ?thesis using assms(3) by (simp add: ReadLink_def es)
qed

theorem readlink_entry_witness:
  "exchange (\<lambda>_. Inr []) (walk 31 (0, 0) demoLink (Inr demoInfos)) demoState (ReadLink (\<lambda>_. True) demoSession (str ''l''))
    (Inr (str ''a/x''))"
proof -
  let ?i = "demoInfo ''l'' (ModeSymlink OR 0x1FF)"
  have m: "?i \<in> set demoInfos" "ver demoState = 31" "ipath ?i = str ''l''" "imode ?i = ModeSymlink OR 0x1FF"
    by (simp_all add: demoInfos_def demoInfo_def demoState_def)
  have "\<not> modeIsDir (ModeSymlink OR 0x1FF)" "modeType (ModeSymlink OR 0x1FF) = ModeSymlink"
    "flinkTarget (walkEntry (0, 0) demoLink ?i) = str ''a/x''"
    by code_simp+
  with readlink_entry [OF demo_served m(1), of "\<lambda>_. True" "\<lambda>_. Inr []"] m(2-) show ?thesis by simp
qed

text \<open>
  C7: opening a directory lists its children and nothing else: the entries of the module
  with one more path component, in strictly increasing order of their base names.
\<close>

theorem open_directory:
  assumes "module_served st se now readLink infos" and "info \<in> set infos" and "valid (ipath info)"
    and "modeIsDir (imode info)"
  shows "\<exists>kids. exchange fsRead (walk (ver st) now readLink (Inr infos)) st (Open valid se (ipath info))
      (Inr (DirFile (flistInfo (baseName (ipath info)) (clientView (ver st) (walkEntry now readLink info))) kids)) \<and>
    set kids = {clientView (ver st) (walkEntry now readLink k) | k. k \<in> set infos \<and> child (ipath info) (ipath k)} \<and>
    sorted_wrt (<) (map (\<lambda>k. baseName (Name k)) kids)"
proof -
  let ?e = "walkEntry now readLink info"
  obtain es i where es: "walk (ver st) now readLink (Inr infos) = Inr es" "served st se es" "i < length es"
    "es ! i = ?e" "set es = set (map (walkEntry now readLink) infos)"
    by (rule module_servedE [OF assms(1,2)])
  let ?vs = "map (clientView (ver st)) es"
  let ?kids = "filterFlistChildren ?vs (ipath info)"
  have "distinct (map Name ?vs)" using servedD(2) [OF es(2)] by (simp add: walked_def comp_def)
  note f = filterFlistChildren_sorted [OF this, of "ipath info"]
  have "exchange fsRead (Inr es) st (withEntry se (fname (es ! i)) (openFileFromContext se))
      (Inr (DirFile (flistInfo (baseName (ipath info)) (clientView (ver st) ?e)) ?kids))"
    by (rule exchange_idle [OF es(2,3)]) (simp add: openFileFromContext_def es(4) assms(4))
  moreover have "set ?kids = {clientView (ver st) (walkEntry now readLink k) | k. k \<in> set infos \<and> child (ipath info) (ipath k)}"
    by (auto simp: f(1) es(5))
  moreover have "sorted_wrt (<) (map (\<lambda>k. baseName (Name k)) ?kids)"
    using f(2) unfolding f(1) strict_sorted_iff by (simp only: distinct_map distinct_sort set_sort sorted_sort_key)
  ultimately show ?thesis using assms(3) es by (auto simp: Open_def)
qed

theorem open_directory_witness:
  "\<exists>i kids. exchange (\<lambda>_. Inr []) (walk 31 (0, 0) demoLink (Inr demoInfos)) demoState (Open (\<lambda>_. True) demoSession (str ''a''))
     (Inr (DirFile i kids)) \<and> map Name kids = [str ''a/x'']"
proof -
  let ?d = "demoInfo ''a'' (ModeDir OR 0x1ED)" and ?V = "clientView 31" and ?E = "walkEntry (0, 0) demoLink"
  have m: "?d \<in> set demoInfos" "modeIsDir (imode ?d)" "ver demoState = 31" "ipath ?d = str ''a''"
    by (simp_all add: demoInfos_def demoInfo_def modeIsDir_def mode_defs demoState_def)
  obtain kids where k: "exchange (\<lambda>_. Inr []) (walk 31 (0, 0) demoLink (Inr demoInfos)) demoState (Open (\<lambda>_. True) demoSession (str ''a''))
      (Inr (DirFile (flistInfo (baseName (str ''a'')) (?V (?E ?d))) kids))"
    "set kids = {?V (?E i) | i. i \<in> set demoInfos \<and> child (str ''a'') (ipath i)}" "sorted_wrt (<) (map (\<lambda>k. baseName (Name k)) kids)"
    using open_directory [OF demo_served m(1) _ m(2), of "\<lambda>_. True" "\<lambda>_. Inr []"] m(3,4) by auto
  have p: "isChild (str ''a'') (ipath (demoInfo ''.'' m)) = False" "isChild (str ''a'') (ipath (demoInfo ''a'' m)) = False"
    "isChild (str ''a'') (ipath (demoInfo ''a/x'' m)) = True" "isChild (str ''a'') (ipath (demoInfo ''l'' m)) = False" for m
    by (simp_all add: demoInfo_def isChild_def HasPrefix_def str_def dotName_def slash_def)
  have "set kids = {?V (?E (demoInfo ''a/x'' 0x1A4))}"
    unfolding k(2) isChild_iff [symmetric] demoInfos_def using p by auto
  moreover have "distinct kids" using k(3) by (simp add: strict_sorted_iff distinct_map)
  ultimately have "kids = [?V (?E (demoInfo ''a/x'' 0x1A4))]" by (cases kids; cases "tl kids") auto
  then have "map Name kids = [str ''a/x'']" by (simp add: demoInfo_def)
  with k(1) show ?thesis by (intro exI conjI)
qed

text \<open>
  A path the module does not have is reported as missing by every operation that looks up
  an entry, and the session still ends cleanly on both sides.
\<close>

theorem missing_entry:
  assumes "module_served st se now readLink infos" and "name \<notin> ipath ` set infos"
  shows "exchange fsRead (walk (ver st) now readLink (Inr infos)) st (withEntry se name fn)
    (Inl (Errorf ''file does not exist''))"
proof -
  obtain info where "info \<in> set infos" using assms(1) unfolding module_served_def by (meson list.set_sel(1))
  then obtain es where es: "walk (ver st) now readLink (Inr infos) = Inr es" "served st se es"
    "set es = set (map (walkEntry now readLink) infos)"
    by (meson module_servedE [OF assms(1)])
  show ?thesis unfolding es(1) by (rule exchange_missing [OF es(2)]) (use assms(2) es(3) in auto)
qed

theorem missing_entry_witness:
  "exchange (\<lambda>_. Inr []) (walk 31 (0, 0) demoLink (Inr demoInfos)) demoState (withEntry demoSession (str ''b'') (openFileFromContext demoSession))
    (Inl (Errorf ''file does not exist''))"
proof -
  have "str ''b'' \<notin> ipath ` set demoInfos" "ver demoState = 31" by (simp_all add: demoInfos_def demoInfo_def demoState_def str_def)
  with missing_entry [OF demo_served, of "str ''b''" "\<lambda>_. Inr []"] show ?thesis by simp
qed

text \<open>
  C10: whatever order the entries arrive in, the client's sort gives each name the index the
  daemon's sorted list has it at, so a request by index names the same file on both sides.
\<close>

theorem index_agreement:
  assumes "module_served st se now readLink infos"
    and "walk (ver st) now readLink (Inr infos) = Inr es" and "i < length es"
    and "mset vs = mset (arrived (st\<lparr>entries := es\<rparr>))"
  shows "sortFlistEntries vs (ver st) (fname (es ! i)) = Some (word_of_nat i) \<and>
    findFlistEntry vs (fname (es ! i)) = Some (clientView (ver st) (es ! i))"
proof -
  note m = assms(1) [unfolded module_served_def]
  have w: "walked (ver st) es" using walk_walked(1) [OF assms(2)] m by blast
  have "arrived (st\<lparr>entries := es\<rparr>) = map (clientView (ver st)) es"
    using arrived_views [of "st\<lparr>entries := es\<rparr>" se] m by (simp add: fits_def)
  with assms(4) have vs: "mset vs = mset (map (clientView (ver st)) es)" by simp
  show ?thesis using client_index_perm [OF w assms(3) vs] by simp
qed

theorem index_agreement_witness:
  "sortFlistEntries (rev (map (clientView 31 \<circ> walkEntry (0, 0) demoLink) demoInfos)) 31 (str ''a/x'') = Some 3"
proof -
  let ?E = "walkEntry (0, 0) demoLink"
  define es where "es = map ?E [demoInfos ! 0, demoInfos ! 3, demoInfos ! 1, demoInfos ! 2]"
  have w: "walk (ver demoState) (0, 0) demoLink (Inr demoInfos) = Inr es" unfolding es_def by code_simp
  have f: "fname (es ! 3) = str ''a/x''" "ver demoState = 31" by (simp_all add: es_def demoInfos_def demoInfo_def demoState_def)
  have "fits (demoState\<lparr>entries := es\<rparr>) demoSession" using demo_served by (simp add: module_served_def fits_def)
  then have "arrived (demoState\<lparr>entries := es\<rparr>) = map (clientView 31) es" using arrived_views f by fastforce
  then have "mset (rev (map (clientView 31 \<circ> ?E) demoInfos)) = mset (arrived (demoState\<lparr>entries := es\<rparr>))"
    by (simp add: es_def demoInfos_def)
  from index_agreement [OF demo_served w _ this, of 3] f show ?thesis by (simp add: es_def)
qed

text \<open>
  C11: \<^verbatim>\<open>openFile\<close> returns data only when the bytes it read last are the whole-file checksum of
  that data, whatever the peer sent.
\<close>

theorem pull_verified:
  assumes "openFile se ndx c = (Inr data, c')"
  shows "\<exists>pre. avail (cin c) = pre @ FileChecksum (shashes se) data (schecksum se) (sversion se) (sseed se) @ avail (cin c')"
  using assms by (rule openFile_checksum)

theorem pull_verified_witness:
  "\<exists>pre. fileReply demoSession [1, 0, 0x80] [8, 9] = pre @ FileChecksum demoDigests [8, 9] (str ''md5'') 31 9"
proof -
  let ?c = "freshConn (fileReply demoSession [1, 0, 0x80] [8, 9]) EOF"
  have w: "WriteSelector 31 NewNdxState (transferSel 0) = (Inr (), \<lparr>prevPositive = 0, prevNegative = 1\<rparr>, [1, 0, 0x80])"
    "WriteSelector 31 NewNdxState (sel_view 31 (transferSel 0)) = (Inr (), \<lparr>prevPositive = 0, prevNegative = 1\<rparr>, [1, 0, 0x80])"
    by code_simp+
  have "openFile demoSession 0 ?c = (Inr [8, 9], ?c\<lparr>cin := Src [] EOF, sndx := \<lparr>prevPositive = 0, prevNegative = 1\<rparr>,
      srecvNdx := \<lparr>prevPositive = 0, prevNegative = 1\<rparr>,
      cout := cout ?c @ [1, 0, 0x80] @ WriteSumHead nullSumHead (sversion demoSession)\<rparr>)"
    by (rule openFile_reply [OF demo_hashes]) (simp_all add: w demoSession_def freshConn_def)
  from pull_verified [OF this] show ?thesis by (simp add: demoSession_def freshConn_def)
qed

text \<open>
  Permissions and type survive the trip through the wire mode for every mode that is made
  of permission bits and the type of a regular file, a directory or a symbolic link.
\<close>

theorem mode_roundtrip:
  assumes "m AND NOT 0x1FF \<in> {0, ModeDir, ModeSymlink}"
  shows "wireModeToFS (modeToWire m) = m"
  by (rule wireModeToFS_plain [OF assms])

theorem mode_roundtrip_witness: "wireModeToFS (modeToWire (ModeDir OR 0x1ED)) = ModeDir OR 0x1ED"
  by (rule mode_roundtrip) (simp add: mode_defs)

text \<open>
  C39: the daemon's selector loop always returns, on any input: it is left with a result after
  at most one turn per available byte and one more, and more fuel does not change it.
\<close>

theorem selector_loop_returns:
  "\<exists>r. \<forall>k. sendLoop (Suc (length (avail (cin c))) + k) fsRead st vars c = Some r"
proof -
  obtain r where "sendLoop (Suc (length (avail (cin c)))) fsRead st vars c = Some r"
    using sendLoop_returns [of c "Suc (length (avail (cin c)))"] by blast
  from sendLoop_more [OF this] show ?thesis by blast
qed

section \<open>Handshake and transfer together\<close>

definition demoClient :: client where
  "demoClient = \<lparr>cModule = str ''mod'', cGreeting = zeroGreeting, cAuthUser = str ''joe'',
     cAuthResponse = Some (PasswordAuth demoDigests (str ''pw''))\<rparr>"

definition demoModule :: server_module where
  "demoModule = \<lparr>smName = str ''mod'', smComment = [], smRoot = Inr (), smReadOnly = True,
     smAuth = Some (\<lambda>user challenge. if user = str ''joe'' then computeAuthHash demoDigests (str ''md5'') (str ''pw'') challenge
       else Inl (Errorf ''no such user''))\<rparr>"

definition demoHash :: "byte list" where
  "demoHash = md5 demoDigests (str ''pw'' @ [1, 2, 3])"

lemma demo_compatible:
  "compatible demoClient zeroGreeting [(str ''mod'', demoModule)] [1, 2, 3] demoModule 32 0 (str ''md5'') demoHash"
proof -
  have "module_ok (str ''mod'') 32" by code_simp
  moreover have "user_ok (str ''joe'')" by code_simp
  moreover have "str ''md5'' \<noteq> str ''md4''" by code_simp
  ultimately show ?thesis
    by (simp add: compatible_def auth_ok_def demoClient_def demoModule_def zeroGreeting_agrees PasswordAuth_def
        computeAuthHash_def demoHash_def) (simp add: str_def)
qed

text \<open>
  C3: the handshake. For every client and daemon whose greetings lead to a version, that ask for
  and have a module, and whose credentials match if the module asks for them, the two sides
  read exactly what the other wrote, both succeed, and what they come out with (version,
  file list flags, checksum, seed, owner options) is what the transfer needs them to agree on.
  From protocol 30 on both have the varint flag words and the corrected place of the checksum
  seed, and below neither; the client has the negotiated flags, sub-protocol and digest and
  the name of its module.
\<close>

theorem handshake_agrees:
  assumes "compatible cl g modules challenge m v sub digest hash"
    and "demux (Src frames e) = Src ((if v < 23 then WriteChecksumSeed (chooseSeed seedRand now) else []) @ payload) e'"
  shows "\<exists>r se hello answer raw.
    doHandshake g modules (Inr challenge) seedRand now \<lparr>cin = Src (hello @ rest) e2, cout = []\<rparr> =
      (Inr (Some r), \<lparr>cin = Src rest e2, cout = answer\<rparr>) \<and>
    runHandshake H cl \<lparr>cin = Src (answer @ frames) e, cout = []\<rparr> =
      (Inr (se, freshConn payload e'), \<lparr>cin = raw, cout = hello\<rparr>) \<and>
    rModule r = m \<and> sversion se = v \<and> sdigest se = digest \<and> fits (transferOf H r) (session.truncate se) \<and>
    (hseedFix (tconf (transferOf H r)) \<longleftrightarrow> 30 \<le> v) \<and> (sseedFix se \<longleftrightarrow> 30 \<le> v) \<and> (varint (transferOf H r) \<longleftrightarrow> 30 \<le> v) \<and>
    scompatFlags se = agreedFlags v \<and> ssubProtocol se = sub \<and> smoduleName se = cModule cl \<and>
    schecksum se \<in> set SupportedDigests \<and> sseed se \<noteq> 0"
proof -
  let ?seed = "chooseSeed seedRand now"
  have "?seed \<noteq> 0" by (simp add: chooseSeed_def Let_def)
  moreover note doHandshake_run [OF assms(1), of seedRand now rest e2] runHandshake_run [OF assms, of H]
    agreed_fits [of H m v ?seed cl sub digest]
  moreover have "schecksum (agreedSession H cl v sub digest ?seed) \<in> set SupportedDigests"
    using agreed_checksum [of H cl v sub digest ?seed] by (simp add: session.truncate_def)
  moreover have "rModule (agreedResult m v ?seed) = m" by (simp add: agreedResult_def)
  moreover have "hseedFix (tconf (transferOf H (agreedResult m v ?seed))) \<longleftrightarrow> 30 \<le> v" "varint (transferOf H (agreedResult m v ?seed)) \<longleftrightarrow> 30 \<le> v"
    "sseedFix (agreedSession H cl v sub digest ?seed) \<longleftrightarrow> 30 \<le> v"
    by (simp_all add: transferOf_def agreedResult_def agreedSession_def)
  moreover have "sversion (agreedSession H cl v sub digest ?seed) = v" "sdigest (agreedSession H cl v sub digest ?seed) = digest"
    "sseed (agreedSession H cl v sub digest ?seed) = ?seed" "scompatFlags (agreedSession H cl v sub digest ?seed) = agreedFlags v"
    "ssubProtocol (agreedSession H cl v sub digest ?seed) = sub" "smoduleName (agreedSession H cl v sub digest ?seed) = cModule cl"
    by (simp_all add: agreedSession_def)
  ultimately show ?thesis by metis
qed

theorem handshake_agrees_witness:
  "\<exists>r se hello answer raw.
    doHandshake zeroGreeting [(str ''mod'', demoModule)] (Inr [1, 2, 3]) (Some 5) 0 \<lparr>cin = Src (hello @ [7]) EOF, cout = []\<rparr> =
      (Inr (Some r), \<lparr>cin = Src [7] EOF, cout = answer\<rparr>) \<and>
    runHandshake demoDigests demoClient \<lparr>cin = Src answer EOF, cout = []\<rparr> =
      (Inr (se, freshConn [] EOF), \<lparr>cin = raw, cout = hello\<rparr>) \<and>
    fits (transferOf demoDigests r) (session.truncate se)"
  using handshake_agrees [OF demo_compatible, of "[]" EOF "Some 5" 0 "[]" EOF "[7]" EOF demoDigests]
  by (simp add: demux_end) blast

text \<open>
  C4: no transfer without authentication. Whatever the peer sends, the daemon's handshake only
  gives a result for a module of its table whose root could be opened, and for a module with
  an authentication callback only after a response naming a user for whom the callback
  computes, on this connection's challenge, exactly the digest in it.
\<close>

theorem auth_required:
  assumes "doHandshake g modules rand seedRand now c = (Inr (Some r), c')"
  shows "\<exists>c1 name s. serverGreet g c = (Inr (rVer r), c1) \<and> ReadModuleRequest (cin c1) = (Inr name, s) \<and>
    map_of modules name = Some (rModule r) \<and> smRoot (rModule r) = Inr () \<and>
    (case smAuth (rModule r) of
       None \<Rightarrow> True
     | Some callback \<Rightarrow> \<exists>challenge user digest s'. rand = Inr challenge \<and>
         ReadAuthResponse s = (Inr (user, digest), s') \<and> callback user challenge = Inr digest)"
proof -
  obtain c1 c2 name where h: "serverGreet g c = (Inr (rVer r), c1)" "rd ReadModuleRequest c1 = (Inr name, c2)"
    "map_of modules name = Some (rModule r)" "smRoot (rModule r) = Inr ()" "authenticated (rModule r) rand c2"
    using doHandshake_Some [OF assms] by blast
  have "ReadModuleRequest (cin c1) = (Inr name, cin c2)" using h(2) by (auto simp: rd_def split: prod.splits)
  with h show ?thesis
    by (intro exI [of _ c1] exI [of _ name] exI [of _ "cin c2"]) (auto simp: authenticated_def split: option.split)
qed

theorem auth_required_witness:
  "\<exists>s user digest s'. ReadAuthResponse s = (Inr (user, digest), s') \<and> user = str ''joe'' \<and> digest = demoHash"
proof -
  let ?c = "\<lparr>cin = Src (clientHello demoClient demoModule demoHash 32) EOF, cout = []\<rparr>"
  note run = doHandshake_run [OF demo_compatible, of "Some 5" 0 "[]" EOF, simplified]
  have "rModule (agreedResult demoModule 32 s) = demoModule" for s by (simp add: agreedResult_def)
  with auth_required [OF run] show ?thesis
    by (auto simp: demoModule_def computeAuthHash_def demoHash_def split: if_splits) (auto simp: str_def)
qed

text \<open>
  C2: a connection from the first byte to the last. The daemon's \<^verbatim>\<open>HandleConnection\<close>, on a compatible
  client's handshake followed by any transport of the client's payload, and the client's
  \<^verbatim>\<open>Connect\<close> and \<^verbatim>\<open>Open\<close>, on the daemon's handshake followed by any frames that carry the
  daemon's payload: both finish without an error, each payload is what the other side
  produced, and the file opened is the daemon's. This holds for every version they negotiate;
  below 23 the daemon's payload starts with the checksum seed.
\<close>

theorem connection_opens_file:
  assumes "compatible cl g modules challenge m v sub digest hash" and "hashes_ok H"
    and "module_ready v now' readLink infos" and "listing m v = walk v now' readLink (Inr infos)"
    and "info \<in> set infos" and "modeIsRegular (imode info)" and "fsRead m (ipath info) = Inr data" and "valid (ipath info)"
  shows "\<exists>hello answer C S. \<forall>craw sraw e1 e2. clientCarries v craw e1 C \<and> demux (Src sraw e2) = Src S EOF \<longrightarrow>
    (\<exists>c t. HandleConnection H g modules (Inr challenge) seedRand now fsRead listing
           \<lparr>cin = Src (hello @ craw) e1, cout = []\<rparr> = (Inr (), c, Some t) \<and> cout c = answer \<and> cout t = S) \<and>
    (\<exists>se c c' raw. runHandshake H cl \<lparr>cin = Src (answer @ sraw) e2, cout = []\<rparr> = (Inr (se, c), \<lparr>cin = raw, cout = hello\<rparr>) \<and>
       Open valid (session.truncate se) (ipath info) c =
         (Inr (RegularFile (flistInfo (baseName (ipath info)) (clientView v (walkEntry now' readLink info))) data), c') \<and>
       cin c' = Src [] EOF \<and> cout c' = C)"
proof -
  let ?seed = "chooseSeed seedRand now"
  let ?st = "transferOf H (agreedResult m v ?seed)" and ?se = "session.truncate (agreedSession H cl v sub digest ?seed)"
  have p: "ver ?st = v" "hashes_ok (shashes ?se)" using assms(2) by (simp_all add: transferOf_def agreedResult_def agreedSession_def)
  have "exchange (fsRead m) (walk (ver ?st) now' readLink (Inr infos)) ?st (Open valid ?se (ipath info))
      (Inr (RegularFile (flistInfo (baseName (ipath info)) (clientView (ver ?st) (walkEntry now' readLink info))) data))"
    using module_ready_served [OF assms(3)] assms(5) p(2) agreed_checksum assms(6-8) by (rule exchange_open)
  then have "exchange (fsRead m) (listing m v) ?st (Open valid ?se (ipath info))
      (Inr (RegularFile (flistInfo (baseName (ipath info)) (clientView v (walkEntry now' readLink info))) data))"
    by (simp add: p(1) assms(4))
  from connection_run [where fsRead = fsRead and listing = listing, OF assms(1) this] obtain C S where r:
    "\<And>craw sraw e1 e2. clientCarries v craw e1 C \<and> demux (Src sraw e2) = Src S EOF \<Longrightarrow>
    (\<exists>t. HandleConnection H g modules (Inr challenge) seedRand now fsRead listing
           \<lparr>cin = Src (clientHello cl m hash v @ craw) e1, cout = []\<rparr> =
         (Inr (), \<lparr>cin = Src craw e1, cout = serverHello g m challenge v ?seed\<rparr>, Some t) \<and> cout t = S) \<and>
    (\<exists>se c c' raw. runHandshake H cl \<lparr>cin = Src (serverHello g m challenge v ?seed @ sraw) e2, cout = []\<rparr> =
         (Inr (se, c), \<lparr>cin = raw, cout = clientHello cl m hash v\<rparr>) \<and>
       session.truncate se = ?se \<and> Open valid ?se (ipath info) c =
         (Inr (RegularFile (flistInfo (baseName (ipath info)) (clientView v (walkEntry now' readLink info))) data), c') \<and>
       cin c' = Src [] EOF \<and> cout c' = C)"
    by blast
  show ?thesis
    by (rule exI [of _ "clientHello cl m hash v"], rule exI [of _ "serverHello g m challenge v ?seed"],
        rule exI [of _ C], rule exI [of _ S], intro allI impI) (use r in fastforce)
qed

theorem connection_opens_file_witness:
  "\<exists>raw craw t c se cc cc' f. HandleConnection demoDigests zeroGreeting [(str ''mod'', demoModule)] (Inr [1, 2, 3]) (Some 5) 0
      (\<lambda>_ _. Inr (str ''hi!'')) (\<lambda>_ v. walk v (0, 0) demoLink (Inr demoInfos)) \<lparr>cin = Src craw EOF, cout = []\<rparr> = (Inr (), c, Some t) \<and>
    runHandshake demoDigests demoClient \<lparr>cin = Src raw EOF, cout = []\<rparr> = (Inr (se, cc), cc') \<and>
    fst (Open (\<lambda>_. True) (session.truncate se) (str ''a/x'') cc) = Inr (RegularFile f (str ''hi!''))"
proof -
  let ?i = "demoInfo ''a/x'' 0x1A4"
  have i: "?i \<in> set demoInfos" "modeIsRegular (imode ?i)" "ipath ?i = str ''a/x''"
    by (simp_all add: demoInfos_def demoInfo_def modeIsRegular_def modeType_def mode_defs)
  have "\<forall>i\<in>set demoInfos. servable 32 (walkEntry (0, 0) demoLink i)" using demo_entries by (simp add: servable_def)
  then have m: "module_ready 32 (0, 0) demoLink demoInfos"
    using demo_paths by (simp add: module_ready_def) (simp add: demoInfos_def)
  have frames: "\<exists>bs. demux (Src bs EOF) = Src d EOF" for d
    using writerRun_flushed [of "[OpWrite d]" EOF] by auto
  have h: "hashes_ok demoDigests" using demo_hashes(1) by (simp add: demoSession_def)
  obtain hello answer C S where r: "\<And>craw sraw e1 e2. clientCarries 32 craw e1 C \<and> demux (Src sraw e2) = Src S EOF \<Longrightarrow>
    (\<exists>c t. HandleConnection demoDigests zeroGreeting [(str ''mod'', demoModule)] (Inr [1, 2, 3]) (Some 5) 0
      (\<lambda>_ _. Inr (str ''hi!'')) (\<lambda>_ v. walk v (0, 0) demoLink (Inr demoInfos)) \<lparr>cin = Src (hello @ craw) e1, cout = []\<rparr> =
        (Inr (), c, Some t) \<and> cout c = answer \<and> cout t = S) \<and>
    (\<exists>se c c' raw. runHandshake demoDigests demoClient \<lparr>cin = Src (answer @ sraw) e2, cout = []\<rparr> =
        (Inr (se, c), \<lparr>cin = raw, cout = hello\<rparr>) \<and>
      Open (\<lambda>_. True) (session.truncate se) (ipath ?i) c =
        (Inr (RegularFile (flistInfo (baseName (ipath ?i)) (clientView 32 (walkEntry (0, 0) demoLink ?i))) (str ''hi!'')), c') \<and>
      cin c' = Src [] EOF \<and> cout c' = C)"
    using connection_opens_file [where listing = "\<lambda>_ v. walk v (0, 0) demoLink (Inr demoInfos)" and data = "str ''hi!''"
        and fsRead = "\<lambda>_ _. Inr (str ''hi!'')" and valid = "\<lambda>_. True" and seedRand = "Some 5" and now = 0,
        OF demo_compatible h m _ i(1,2)] by auto
  obtain craw sraw where f: "demux (Src craw EOF) = Src C EOF" "demux (Src sraw EOF) = Src S EOF" using frames by metis
  then have "clientCarries 32 craw EOF C" by (simp add: clientCarries_def)
  from r [of craw EOF sraw EOF] this f(2) show ?thesis unfolding i(3) by fastforce
qed

section \<open>Every interleaving of a connection\<close>

lemma demo_ready: "module_ready 32 (0, 0) demoLink demoInfos"
proof -
  have "\<forall>i\<in>set demoInfos. servable 32 (walkEntry (0, 0) demoLink i)" using demo_entries by (simp add: servable_def)
  then show ?thesis using demo_paths by (simp add: module_ready_def) (simp add: demoInfos_def)
qed

text \<open>
  C1: opening a file never deadlocks. The client's program (\<^verbatim>\<open>Connect\<close>, \<^verbatim>\<open>Open\<close>) and the daemon's
  (\<^verbatim>\<open>HandleConnection\<close>) run concurrently over one transport, with every read blocking until
  the bytes have arrived and every frame held back until its writer flushes it. Whatever the
  interleaving, for every protocol version they negotiate: the number of steps is bounded, and
  the only states with no further step are those in which the client has the daemon's file
  and both have returned without an error.
\<close>

theorem open_never_deadlocks:
  assumes "compatible cl g modules challenge m v sub digest hash" and "hashes_ok H"
    and "module_ready v now' readLink infos" and "listing m v = walk v now' readLink (Inr infos)"
    and "info \<in> set infos" and "modeIsRegular (imode info)" and "fsRead m (ipath info) = Inr data" and "valid (ipath info)"
    and "2 \<le> tries" and "4 \<le> fuel"
  shows "completes (operateP tries H cl (\<lambda>se. OpenP valid se (ipath info)))
    (HandleConnectionP fuel H g modules (Inr challenge) seedRand now fsRead listing ())
    (Inr (RegularFile (flistInfo (baseName (ipath info)) (clientView v (walkEntry now' readLink info))) data)) (Inr (), ())"
proof -
  obtain n where n: "tries = Suc (Suc n)" using assms(9) by (auto simp: le_iff_add)
  show ?thesis unfolding n using assms(1-8,10) by (rule open_connection)
qed

theorem open_never_deadlocks_witness:
  "completes (operateP 2 demoDigests demoClient (\<lambda>se. OpenP (\<lambda>_. True) se (str ''a/x'')))
    (HandleConnectionP 4 demoDigests zeroGreeting [(str ''mod'', demoModule)] (Inr [1, 2, 3]) (Some 5) 0
      (\<lambda>_ _. Inr (str ''hi!'')) (\<lambda>_ v. walk v (0, 0) demoLink (Inr demoInfos)) ())
    (Inr (RegularFile (flistInfo (baseName (str ''a/x'')) (clientView 32 (walkEntry (0, 0) demoLink (demoInfo ''a/x'' 0x1A4)))) (str ''hi!'')))
    (Inr (), ())"
proof -
  let ?i = "demoInfo ''a/x'' 0x1A4"
  have i: "?i \<in> set demoInfos" "modeIsRegular (imode ?i)" "ipath ?i = str ''a/x''"
    by (simp_all add: demoInfos_def demoInfo_def modeIsRegular_def modeType_def mode_defs)
  have h: "hashes_ok demoDigests" using demo_hashes(1) by (simp add: demoSession_def)
  show ?thesis
    using open_never_deadlocks [where listing = "\<lambda>_ v. walk v (0, 0) demoLink (Inr demoInfos)" and data = "str ''hi!''"
        and fsRead = "\<lambda>_ _. Inr (str ''hi!'')" and valid = "\<lambda>_. True" and seedRand = "Some 5" and now = 0 and tries = 2 and fuel = 4,
        OF demo_compatible h demo_ready _ i(1,2)]
    unfolding i(3) by simp
qed

text \<open>
  C5: nor do the other operations. In every interleaving \<^verbatim>\<open>Lstat\<close> ends with the metadata of the
  entry, \<^verbatim>\<open>ReadLink\<close> with its target or the error that it is not a link, and each of the three
  operations on a path the module does not have with the error that it does not exist; the
  daemon returns without an error in all cases.
\<close>

theorem lookups_never_deadlock:
  assumes "compatible cl g modules challenge m v sub digest hash"
    and "module_ready v now' readLink infos" and "listing m v = walk v now' readLink (Inr infos)"
    and "info \<in> set infos" and "valid (ipath info)" and "name \<notin> ipath ` set infos" and "valid name"
    and "2 \<le> tries" and "4 \<le> fuel"
  shows "let D = HandleConnectionP fuel H g modules (Inr challenge) seedRand now fsRead listing ();
             e = clientView v (walkEntry now' readLink info); missing = Errorf ''file does not exist''
    in completes (operateP tries H cl (\<lambda>se. LstatP valid se (ipath info))) D (Inr (flistInfo (baseName (ipath info)) e)) (Inr (), ()) \<and>
       completes (operateP tries H cl (\<lambda>se. ReadLinkP valid se (ipath info))) D
         (if wireModeIsSymlink (Mode e) then Inr (LinkTarget e) else Inl (Errorf ''not a symlink'')) (Inr (), ()) \<and>
       completes (operateP tries H cl (\<lambda>se. OpenP valid se name)) D (Inl missing) (Inr (), ()) \<and>
       completes (operateP tries H cl (\<lambda>se. LstatP valid se name)) D (Inl missing) (Inr (), ()) \<and>
       completes (operateP tries H cl (\<lambda>se. ReadLinkP valid se name)) D (Inl missing) (Inr (), ())"
proof -
  obtain n where n: "tries = Suc (Suc n)" using assms(8) by (auto simp: le_iff_add)
  note look = lookup_connection [where listing = listing and fsRead = fsRead and seedRand = seedRand and now = now and H = H and n = n,
      OF assms(1-4) _ _ assms(9)]
  note miss = missing_connection [where listing = listing and fsRead = fsRead and seedRand = seedRand and now = now and H = H and n = n,
      OF assms(1-3,6) _ assms(9)]
  let ?stat = "\<lambda>_ ctx. aret (flistInfo (baseName (ctxName ctx)) (ctxEntry ctx))"
  let ?link = "\<lambda>_ ctx. if \<not> wireModeIsSymlink (Mode (ctxEntry ctx)) then afail (Errorf ''not a symlink'') else aret (LinkTarget (ctxEntry ctx))"
  note defs = LstatP_def ReadLinkP_def OpenP_def assms(5,7) act_ends
  show ?thesis
    unfolding Let_def n
    by (intro conjI, rule look [where fn = ?stat], simp add: defs, simp add: defs, rule look [where fn = ?link], simp add: defs, simp add: defs,
        rule miss [where fn = openFileFromContextP], simp add: defs, rule miss [where fn = ?stat], simp add: defs, rule miss [where fn = ?link])
       (simp add: defs)
qed

theorem lookups_never_deadlock_witness:
  "completes (operateP 2 demoDigests demoClient (\<lambda>se. ReadLinkP (\<lambda>_. True) se (str ''l'')))
     (HandleConnectionP 4 demoDigests zeroGreeting [(str ''mod'', demoModule)] (Inr [1, 2, 3]) (Some 5) 0
       (\<lambda>_ _. Inr []) (\<lambda>_ v. walk v (0, 0) demoLink (Inr demoInfos)) ()) (Inr (str ''a/x'')) (Inr (), ()) \<and>
   completes (operateP 2 demoDigests demoClient (\<lambda>se. LstatP (\<lambda>_. True) se (str ''b'')))
     (HandleConnectionP 4 demoDigests zeroGreeting [(str ''mod'', demoModule)] (Inr [1, 2, 3]) (Some 5) 0
       (\<lambda>_ _. Inr []) (\<lambda>_ v. walk v (0, 0) demoLink (Inr demoInfos)) ()) (Inl (Errorf ''file does not exist'')) (Inr (), ())"
proof -
  let ?i = "demoInfo ''l'' (ModeSymlink OR 0x1FF)"
  let ?e = "clientView 32 (walkEntry (0, 0) demoLink ?i)"
  have i: "?i \<in> set demoInfos" "ipath ?i = str ''l''" "str ''b'' \<notin> ipath ` set demoInfos"
    by (simp_all add: demoInfos_def demoInfo_def str_def)
  have l: "wireModeIsSymlink (Mode ?e)" "LinkTarget ?e = str ''a/x''" by code_simp+
  show ?thesis
    using lookups_never_deadlock [where listing = "\<lambda>_ v. walk v (0, 0) demoLink (Inr demoInfos)" and H = demoDigests
        and fsRead = "\<lambda>_ _. Inr []" and valid = "\<lambda>_. True" and seedRand = "Some 5" and now = 0 and tries = 2 and fuel = 4,
        OF demo_compatible demo_ready _ i(1) _ i(3)]
    unfolding i(2) Let_def by (simp only: l if_True)
qed

end
